(* ===== verification/Go_Prelude.thy ===== *)
theory Go_Prelude
  imports Main "HOL-Library.AList" "HOL-Library.Char_ord" "HOL-Library.List_Lexorder"
begin

text \<open>
  The part of Go and of its standard library that the components share: byte strings, the
  character classes of package regexp, the helpers of package strings, decimal printing, maps.

  A Go string is a sequence of bytes, here the library's \<open>string\<close> (a \<open>char\<close> is one byte). The order
  of strings is Go's: bytewise lexicographic, the instances of \<open>Char_ord\<close> and \<open>List_Lexorder\<close>, so
  that \<open>sort\<close> is \<open>slices.Sort\<close>. A Go map whose iteration or size matters is an association list
  with distinct keys; its order stands for one of the iteration orders Go may choose.
  Instants and durations are integers, in nanoseconds.
\<close>

named_theorems go_str \<open>equations of the string helpers\<close>
named_theorems go_map \<open>laws of maps kept as association lists\<close>

section \<open>Character classes\<close>

definition is_ws :: "char \<Rightarrow> bool" where
  \<comment> \<open>the class \<open>\s\<close> of package regexp: ASCII blanks only\<close>
  "is_ws c = (c \<in> {CHR '' '', CHR 0x09, CHR 0x0A, CHR 0x0C, CHR 0x0D})"

definition is_digit :: "char \<Rightarrow> bool" where
  "is_digit c = (CHR ''0'' \<le> c \<and> c \<le> CHR ''9'')"

definition is_upper :: "char \<Rightarrow> bool" where
  "is_upper c = (CHR ''A'' \<le> c \<and> c \<le> CHR ''Z'')"

definition is_lower :: "char \<Rightarrow> bool" where
  "is_lower c = (CHR ''a'' \<le> c \<and> c \<le> CHR ''z'')"

definition is_word :: "char \<Rightarrow> bool" where
  \<comment> \<open>the class \<open>\w\<close>\<close>
  "is_word c = (is_digit c \<or> is_upper c \<or> is_lower c \<or> c = CHR ''_'')"

text \<open>
  \<open>strings.ToLower\<close> and \<open>strings.ToUpper\<close> on ASCII letters; a byte outside ASCII is kept. (Go also
  maps the cased letters outside ASCII; nicks, channels and commands of the protocol are ASCII.)
\<close>

definition lower_char :: "char \<Rightarrow> char" where
  "lower_char c = (if is_upper c then char_of (of_char c + 32 :: nat) else c)"

definition upper_char :: "char \<Rightarrow> char" where
  "upper_char c = (if is_lower c then char_of (of_char c - 32 :: nat) else c)"

definition to_lower :: "string \<Rightarrow> string" where
  "to_lower s = map lower_char s"

definition to_upper :: "string \<Rightarrow> string" where
  "to_upper s = map upper_char s"

definition equal_fold :: "string \<Rightarrow> string \<Rightarrow> bool" where
  "equal_fold a b = (to_lower a = to_lower b)"

section \<open>Helpers of package strings\<close>

definition has_prefix :: "string \<Rightarrow> string \<Rightarrow> bool" where
  "has_prefix p s = (take (length p) s = p)"

definition has_suffix :: "string \<Rightarrow> string \<Rightarrow> bool" where
  "has_suffix p s = has_prefix (rev p) (rev s)"

definition trim_prefix :: "string \<Rightarrow> string \<Rightarrow> string" where
  "trim_prefix p s = (if has_prefix p s then drop (length p) s else s)"

definition trim_left :: "char set \<Rightarrow> string \<Rightarrow> string" where
  "trim_left cs s = dropWhile (\<lambda>c. c \<in> cs) s"

definition trim_right :: "char set \<Rightarrow> string \<Rightarrow> string" where
  "trim_right cs s = rev (dropWhile (\<lambda>c. c \<in> cs) (rev s))"

fun split_on :: "'a \<Rightarrow> 'a list \<Rightarrow> 'a list list" where
  "split_on c [] = [[]]"
| "split_on c (x # xs) =
     (if x = c then [] # split_on c xs
      else (case split_on c xs of [] \<Rightarrow> [[x]] | y # ys \<Rightarrow> (x # y) # ys))"

fun join :: "string \<Rightarrow> string list \<Rightarrow> string" where
  "join sep [] = []"
| "join sep [x] = x"
| "join sep (x # y # ys) = x @ sep @ join sep (y # ys)"

definition cut :: "char \<Rightarrow> string \<Rightarrow> string \<times> string \<times> bool" where
  "cut c s = (takeWhile (\<lambda>x. x \<noteq> c) s, drop 1 (dropWhile (\<lambda>x. x \<noteq> c) s), c \<in> set s)"

text \<open>The maximal runs of elements that are no separator: \<open>strings.FieldsFunc\<close>.\<close>

fun fields_acc :: "('a \<Rightarrow> bool) \<Rightarrow> 'a list \<Rightarrow> 'a list \<Rightarrow> 'a list list" where
  "fields_acc p acc [] = (if acc = [] then [] else [acc])"
| "fields_acc p acc (x # xs) =
     (if p x then (if acc = [] then fields_acc p [] xs else acc # fields_acc p [] xs)
      else fields_acc p (acc @ [x]) xs)"

definition fields_func :: "('a \<Rightarrow> bool) \<Rightarrow> 'a list \<Rightarrow> 'a list list" where
  "fields_func p s = fields_acc p [] s"

text \<open>Decimal printing, \<open>%d\<close>.\<close>

fun nat_str :: "nat \<Rightarrow> string" where
  "nat_str n = (if n < 10 then [char_of (48 + n)] else nat_str (n div 10) @ [char_of (48 + n mod 10)])"

declare nat_str.simps [simp del]

definition int_str :: "int \<Rightarrow> string" where
  "int_str i = (if i < 0 then CHR ''-'' # nat_str (nat (- i)) else nat_str (nat i))"

text \<open>Reading decimal digits.\<close>

definition digits_val :: "string \<Rightarrow> nat" where
  "digits_val s = foldl (\<lambda>acc c. 10 * acc + (of_char c - 48)) 0 s"

section \<open>Lemmas on strings\<close>

lemma has_prefix_append [simp]: "has_prefix p (p @ s)"
  by (simp add: has_prefix_def)

lemma has_prefix_iff: "has_prefix p s \<longleftrightarrow> (\<exists>t. s = p @ t)"
  unfolding has_prefix_def by (metis append_eq_conv_conj append_take_drop_id)

lemma has_prefix_Nil [simp]: "has_prefix [] s"
  by (simp add: has_prefix_def)

lemma split_on_not_Nil [simp]: "split_on c s \<noteq> []"
  by (induction s) (auto split: list.splits)

lemma split_on_no_sep: "x \<in> set (split_on c s) \<Longrightarrow> c \<notin> set x"
  by (induction s arbitrary: x) (auto split: list.splits if_splits)

lemma split_on_id: "c \<notin> set s \<Longrightarrow> split_on c s = [s]"
  by (induction s) auto

lemma split_on_append_sep:
  "split_on c (s @ c # t) = split_on c s @ split_on c t"
proof (induction s)
  case Nil
  then show ?case by simp
next
  case (Cons x s)
  then show ?case by (auto split: list.splits)
qed

lemma span_sep:
  "c \<notin> set l \<Longrightarrow> takeWhile (\<lambda>x. x \<noteq> c) (l @ c # r) = l"
  "c \<notin> set l \<Longrightarrow> dropWhile (\<lambda>x. x \<noteq> c) (l @ c # r) = c # r"
  by (induction l) auto

lemma split_on_join:
  "ws \<noteq> [] \<Longrightarrow> \<forall>w \<in> set ws. c \<notin> set w \<Longrightarrow> split_on c (join [c] ws) = ws"
  by (induction "[c]" ws rule: join.induct) (simp_all add: split_on_id split_on_append_sep)

lemma lower_char_idem [simp]: "lower_char (lower_char c) = lower_char c"
proof (cases "is_upper c")
  case True
  then have "65 \<le> (of_char c :: nat)" "(of_char c :: nat) \<le> 90"
    by (auto simp: is_upper_def less_eq_char_def)
  then have "of_char (char_of (of_char c + 32 :: nat)) = (of_char c + 32 :: nat)"
    by simp
  then have "\<not> is_upper (char_of (of_char c + 32 :: nat))"
    using \<open>65 \<le> of_char c\<close> by (simp add: is_upper_def less_eq_char_def)
  then show ?thesis using True by (simp add: lower_char_def)
qed (simp add: lower_char_def)

lemma to_lower_idem [simp]: "to_lower (to_lower s) = to_lower s"
  by (simp add: to_lower_def)

lemma to_lower_append [simp]: "to_lower (s @ t) = to_lower s @ to_lower t"
  by (simp add: to_lower_def)

lemma to_lower_Nil_iff [simp]: "to_lower s = [] \<longleftrightarrow> s = []"
  by (simp add: to_lower_def)

lemma length_to_lower [simp]: "length (to_lower s) = length s"
  by (simp add: to_lower_def)

lemma equal_fold_refl [simp]: "equal_fold a a"
  by (simp add: equal_fold_def)

lemma equal_fold_sym: "equal_fold a b = equal_fold b a"
  by (auto simp: equal_fold_def)

lemma equal_fold_trans: "equal_fold a b \<Longrightarrow> equal_fold b c \<Longrightarrow> equal_fold a c"
  by (simp add: equal_fold_def)

lemma concat_fields_acc:
  "concat (fields_acc p acc s) = acc @ filter (\<lambda>x. \<not> p x) s"
  by (induction p acc s rule: fields_acc.induct) auto

lemma fields_acc_parts:
  "\<forall>x \<in> set acc. \<not> p x \<Longrightarrow> f \<in> set (fields_acc p acc s) \<Longrightarrow> f \<noteq> [] \<and> (\<forall>x \<in> set f. \<not> p x)"
proof (induction p acc s rule: fields_acc.induct)
  case (1 p acc)
  then show ?case by (simp split: if_splits)
next
  case (2 p acc x xs)
  show ?case
  proof (cases "p x")
    case True
    show ?thesis
    proof (cases "acc = []")
      case e: True
      from \<open>p x\<close> e "2.prems"(2) have "f \<in> set (fields_acc p [] xs)" by simp
      with "2.IH"(1) [OF \<open>p x\<close> e] show ?thesis by simp
    next
      case ne: False
      from \<open>p x\<close> ne "2.prems"(2) have "f = acc \<or> f \<in> set (fields_acc p [] xs)" by simp
      then show ?thesis
        using "2.IH"(2) [OF \<open>p x\<close> ne] "2.prems"(1) ne by (elim disjE) simp_all
    qed
  next
    case False
    with "2.prems" have "\<forall>y \<in> set (acc @ [x]). \<not> p y" and "f \<in> set (fields_acc p (acc @ [x]) xs)"
      by auto
    with False show ?thesis by (rule "2.IH"(3))
  qed
qed

lemma nat_str_not_Nil [simp]: "nat_str n \<noteq> []"
  by (subst nat_str.simps) simp

section \<open>Maps as association lists\<close>

text \<open>
  \<open>map_of m k\<close> is \<open>m[k]\<close> (with \<open>None\<close> where the comma-ok form reports false),
  \<open>AList.update k v m\<close> the assignment \<open>m[k] = v\<close>, \<open>AList.delete k m\<close> the built-in \<open>delete\<close>.
\<close>

abbreviation wf_map :: "('k \<times> 'v) list \<Rightarrow> bool" where
  "wf_map m \<equiv> distinct (map fst m)"

declare map_of_eq_Some_iff [simp del]

declare Let_def [simp]

lemmas [go_map] = distinct_update distinct_delete update_conv' delete_conv'

lemma map_of_update [simp]: "map_of (AList.update k v m) k' = (if k' = k then Some v else map_of m k')"
  by (simp add: update_conv')

lemma map_of_delete [simp]: "map_of (AList.delete k m) k' = (if k' = k then None else map_of m k')"
  by (simp add: delete_conv')

lemma wf_map_update [simp, intro]: "wf_map m \<Longrightarrow> wf_map (AList.update k v m)"
  by (simp add: distinct_update)

lemma wf_map_delete [simp, intro]: "wf_map m \<Longrightarrow> wf_map (AList.delete k m)"
  by (simp add: distinct_delete)

lemma map_of_None_iff: "map_of m k = None \<longleftrightarrow> k \<notin> fst ` set m"
  by (simp add: map_of_eq_None_iff)

lemma set_delete: "set (AList.delete k m) = {e \<in> set m. fst e \<noteq> k}"
  by (auto simp: AList.delete_eq)

lemma keys_update [simp]: "fst ` set (AList.update k v m) = insert k (fst ` set m)"
  using dom_update [of k v m] by (simp add: image_Un)

lemma keys_delete [simp]: "fst ` set (AList.delete k m) = fst ` set m - {k}"
  by (auto simp: set_delete)

lemma wf_map_filter [simp, intro]: "wf_map m \<Longrightarrow> wf_map (filter P m)"
  by (induction m) auto

lemma map_of_some_iff: "wf_map m \<Longrightarrow> map_of m k = Some v \<longleftrightarrow> (k, v) \<in> set m"
  by (rule map_of_eq_Some_iff)

lemma set_update_subset: "set (AList.update k v m) \<subseteq> insert (k, v) (set m)"
  by (induction m) auto

lemma update_all: "\<forall>e \<in> set m. P e \<Longrightarrow> P (k, v) \<Longrightarrow> \<forall>e \<in> set (AList.update k v m). P e"
  using set_update_subset [of k v m] by blast

text \<open>A map whose keys and values all satisfy a predicate.\<close>

definition map_all :: "('k \<Rightarrow> 'v \<Rightarrow> bool) \<Rightarrow> ('k \<times> 'v) list \<Rightarrow> bool" where
  "map_all P m \<longleftrightarrow> wf_map m \<and> (\<forall>(k, v) \<in> set m. P k v)"

lemma map_all_Nil [simp]: "map_all P []"
  by (simp add: map_all_def)

lemma map_all_lookup: "map_all P m \<Longrightarrow> map_of m k = Some v \<Longrightarrow> P k v"
  by (auto simp: map_all_def dest: map_of_SomeD)

lemma map_all_update: "map_all P m \<Longrightarrow> P k v \<Longrightarrow> map_all P (AList.update k v m)"
  using update_all [of m "\<lambda>(k, v). P k v" k v] by (auto simp: map_all_def)

lemma map_all_get: "map_all (\<lambda>k. Q) m \<Longrightarrow> Q d \<Longrightarrow> Q (case map_of m k of Some v \<Rightarrow> v | None \<Rightarrow> d)"
  by (auto dest: map_all_lookup split: option.split)

text \<open>\<open>maps.Copy\<close>.\<close>

lemma fold_update_map:
  "wf_map raws \<Longrightarrow> map_of (fold (\<lambda>(k, v) d. AList.update k v d) raws d) k =
     (case map_of raws k of Some v \<Rightarrow> Some v | None \<Rightarrow> map_of d k)"
proof (induction raws arbitrary: d)
  case (Cons e raws)
  have "map_of raws (fst e) = None" using Cons.prems by (simp add: map_of_eq_None_iff)
  then show ?case using Cons by (cases e) (auto split: option.splits)
qed simp

lemma fold_update_wf: "wf_map d \<Longrightarrow> wf_map (fold (\<lambda>(k, v) d. AList.update k v d) raws d)"
  by (induction raws arbitrary: d) auto

text \<open>A value replaced in every entry.\<close>

lemma map_of_map_snd: "map_of (map (\<lambda>(k, v). (k, f k v)) m) k = map_option (f k) (map_of m k)"
  by (induction m) auto

lemma wf_map_map_snd [simp]: "wf_map (map (\<lambda>(k, v). (k, f k v)) m) = wf_map m"
  by (simp add: comp_def case_prod_beta')

text \<open>A sum over the values of a map.\<close>

definition val_sum :: "('v \<Rightarrow> 'n::comm_monoid_add) \<Rightarrow> ('k \<times> 'v) list \<Rightarrow> 'n" where
  "val_sum f m = sum_list (map (f \<circ> snd) m)"

lemma val_sum_simps [simp]: "val_sum f [] = 0" "val_sum f ((k, v) # m) = f v + val_sum f m"
  by (simp_all add: val_sum_def)

lemma val_sum_update_new:
  "map_of m k = None \<Longrightarrow> val_sum f (AList.update k v m) = val_sum f m + f v"
  by (induction m) (auto simp: ac_simps split: if_splits)

lemma val_sum_update_old:
  "map_of m k = Some w \<Longrightarrow> val_sum f (AList.update k v m) + f w = val_sum f m + f v"
proof (induction m)
  case (Cons e m)
  then show ?case
    by (cases e) (auto simp: add.assoc add.commute add.left_commute split: if_splits)
qed simp

lemma val_sum_delete:
  "wf_map m \<Longrightarrow> map_of m k = Some w \<Longrightarrow> val_sum f (AList.delete k m) + f w = val_sum f m"
proof (induction m)
  case (Cons e m)
  have "AList.delete k m = m" if "map_of m k = None"
    using that by (simp add: delete_idem map_of_None_iff)
  with Cons show ?case
    by (cases e) (auto simp: ac_simps map_of_None_iff split: if_splits)
qed simp

section \<open>Sorting\<close>

lemma insort_key_wrt:
  "sorted_wrt (\<lambda>x y. f x < f y \<or> f x = f y \<and> R x y) ys \<Longrightarrow> \<forall>y \<in> set ys. R a y \<Longrightarrow>
   sorted_wrt (\<lambda>x y. f x < f y \<or> f x = f y \<and> R x y) (insort_key f a ys)"
  by (induction ys) (auto simp: set_insort_key)

lemma sort_key_wrt:
  \<comment> \<open>sorting is stable: among equal keys the order before it stays\<close>
  "sorted_wrt R xs \<Longrightarrow> sorted_wrt (\<lambda>x y. f x < f y \<or> f x = f y \<and> R x y) (sort_key f xs)"
  by (induction xs) (simp_all add: insort_key_wrt)

lemma sort_key_Nil_iff [simp]: "sort_key f xs = [] \<longleftrightarrow> xs = []"
  by (metis length_0_conv length_sort)

lemma sort_key_stable_filter:
  "filter (\<lambda>x. f x = k) (sort_key f xs) = filter (\<lambda>x. f x = k) xs"
  by (simp add: sort_key_stable)

end
