(* ===== verification/Flood.thy ===== *)
theory Flood
  imports Go_Prelude
begin

text \<open>
  The outbound queue, internal/irc/flood/flood.go: the high-priority list, the per-channel buckets
  drained round-robin, and the rate-limit window. \<open>next_line\<close> is \<open>Next\<close>; one reading of the clock
  stands for the readings within one call. Index and map accesses that would panic on a broken
  queue are kept as \<open>None\<close>, and shown not to happen from a new queue. Then: no line is lost or
  reordered within a bucket, every bucket is served within one rotation, and what the rate limit
  does to a stream of short lines on a clock finer than a second.
\<close>

definition second :: int where "second = 1000000000"

definition generic_bucket :: string where "generic_bucket = ''#__IRC__#''"

definition max_wait :: int where "max_wait = 3 * second"

definition long_line_unit :: nat where "long_line_unit = 80"

text \<open>
  \<open>^PRIVMSG (.+?) :\<close>: after the literal, the shortest non-empty run without a newline that a blank
  and a colon follow.
\<close>

fun lazy_target :: "string \<Rightarrow> string \<Rightarrow> string option" where
  "lazy_target acc [] = None"
| "lazy_target acc (c # s) =
     (if acc \<noteq> [] \<and> has_prefix '' :'' (c # s) then Some acc
      else if c = CHR 0x0A then None
      else lazy_target (acc @ [c]) s)"

definition privmsg_target :: "string \<Rightarrow> string option" where
  "privmsg_target line =
     (if has_prefix ''PRIVMSG '' line then lazy_target [] (drop 8 line) else None)"

definition bucket_of :: "string \<Rightarrow> string" where
  "bucket_of line = (case privmsg_target line of Some t \<Rightarrow> t | None \<Rightarrow> generic_bucket)"

record fqueue =
  fq_high :: "string list"
  fq_buckets :: "(string \<times> string list) list"
  fq_order :: "string list"
  fq_window :: "int list"

definition fq_new :: fqueue where
  "fq_new = \<lparr>fq_high = [], fq_buckets = [], fq_order = [], fq_window = []\<rparr>"

definition push :: "string \<Rightarrow> fqueue \<Rightarrow> fqueue" where
  "push line q =
     (let b = bucket_of line in
      case map_of (fq_buckets q) b of
        None \<Rightarrow> q\<lparr>fq_order := fq_order q @ [b], fq_buckets := AList.update b [line] (fq_buckets q)\<rparr>
      | Some ls \<Rightarrow> q\<lparr>fq_buckets := AList.update b (ls @ [line]) (fq_buckets q)\<rparr>)"

definition push_high :: "string \<Rightarrow> fqueue \<Rightarrow> fqueue" where
  "push_high line q = q\<lparr>fq_high := fq_high q @ [line]\<rparr>"

definition pop_round_robin :: "fqueue \<Rightarrow> (string \<times> fqueue) option" where
  "pop_round_robin q =
     (case fq_order q of
        [] \<Rightarrow> None
      | b # rest \<Rightarrow>
          (case map_of (fq_buckets q) b of
             None \<Rightarrow> None
           | Some [] \<Rightarrow> None
           | Some (l # ls) \<Rightarrow>
               if ls \<noteq> [] then
                 Some (l, q\<lparr>fq_buckets := AList.update b ls (fq_buckets q), fq_order := rest @ [b]\<rparr>)
               else Some (l, q\<lparr>fq_buckets := AList.delete b (fq_buckets q), fq_order := rest\<rparr>)))"

text \<open>\<open>Duration.Truncate\<close> rounds towards zero.\<close>

definition truncate_dur :: "int \<Rightarrow> int \<Rightarrow> int" where
  "truncate_dur d m = (if m \<le> 0 then d else sgn d * (\<bar>d\<bar> div m * m))"

text \<open>\<open>delay\<close>: the wait, and the window it leaves.\<close>

definition delay :: "int \<Rightarrow> int list \<Rightarrow> int \<times> int list" where
  "delay now w =
     (case w of
        [] \<Rightarrow> (0, w)
      | t0 # rest \<Rightarrow>
          (let due = t0 + int (length w) * second;
               wait = truncate_dur (due - now) second in
           if wait > max_wait then (max_wait, w)
           else if wait > 0 then (wait, w)
           else (0, rest)))"

text \<open>\<open>int(float64(len)/80 + 0.5)\<close>: the quotient rounded half up.\<close>

definition extra_events :: "nat \<Rightarrow> nat" where
  "extra_events n = (if n > long_line_unit then (n + long_line_unit div 2) div long_line_unit else 0)"

datatype next_result = Send string | Wait int | QueueEmpty

definition record_send :: "int \<Rightarrow> string \<Rightarrow> fqueue \<Rightarrow> fqueue" where
  "record_send now line q =
     q\<lparr>fq_window := fq_window q @ replicate (1 + extra_events (length line)) now\<rparr>"

definition next_line :: "int \<Rightarrow> fqueue \<Rightarrow> (next_result \<times> fqueue) option" where
  "next_line now q =
     (if fq_high q = [] \<and> fq_order q = [] then Some (QueueEmpty, q)
      else (let (wait, w) = delay now (fq_window q); q1 = q\<lparr>fq_window := w\<rparr> in
        if wait > 0 then Some (Wait wait, q1)
        else (case fq_high q1 of
                l # hs \<Rightarrow> Some (Send l, record_send now l (q1\<lparr>fq_high := hs\<rparr>))
              | [] \<Rightarrow> (case pop_round_robin q1 of
                         None \<Rightarrow> None
                       | Some (l, q2) \<Rightarrow> Some (Send l, record_send now l q2)))))"

definition queue_len :: "fqueue \<Rightarrow> nat" where
  "queue_len q = length (fq_high q) + val_sum length (fq_buckets q)"

definition depths :: "fqueue \<Rightarrow> (string \<times> nat) list" where
  "depths q = map (\<lambda>(b, ls). (b, length ls)) (filter (\<lambda>(b, ls). ls \<noteq> []) (fq_buckets q))"

section \<open>The queue's invariant\<close>

definition bucket :: "fqueue \<Rightarrow> string \<Rightarrow> string list" where
  "bucket q b = (case map_of (fq_buckets q) b of Some ls \<Rightarrow> ls | None \<Rightarrow> [])"

definition fq_inv :: "fqueue \<Rightarrow> bool" where
  "fq_inv q \<longleftrightarrow>
     wf_map (fq_buckets q) \<and> distinct (fq_order q) \<and> set (fq_order q) = fst ` set (fq_buckets q) \<and>
     (\<forall>(b, ls) \<in> set (fq_buckets q). ls \<noteq> [] \<and> (\<forall>l \<in> set ls. bucket_of l = b))"

lemma fq_invD:
  assumes "fq_inv q"
  shows "wf_map (fq_buckets q)" and "distinct (fq_order q)"
    and "b \<in> set (fq_order q) \<longleftrightarrow> map_of (fq_buckets q) b \<noteq> None"
    and "map_of (fq_buckets q) b = Some ls \<Longrightarrow> ls \<noteq> []"
    and "map_of (fq_buckets q) b = Some ls \<Longrightarrow> l \<in> set ls \<Longrightarrow> bucket_of l = b"
proof -
  have *: "\<forall>(b, ls) \<in> set (fq_buckets q). ls \<noteq> [] \<and> (\<forall>l \<in> set ls. bucket_of l = b)"
    using assms by (simp add: fq_inv_def)
  show "wf_map (fq_buckets q)" and "distinct (fq_order q)"
    and "b \<in> set (fq_order q) \<longleftrightarrow> map_of (fq_buckets q) b \<noteq> None"
    using assms by (simp_all add: fq_inv_def map_of_None_iff)
  show "map_of (fq_buckets q) b = Some ls \<Longrightarrow> ls \<noteq> []"
    and "map_of (fq_buckets q) b = Some ls \<Longrightarrow> l \<in> set ls \<Longrightarrow> bucket_of l = b"
    using * by (auto dest!: map_of_SomeD)
qed

lemma fq_invI:
  assumes "wf_map (fq_buckets q)" and "distinct (fq_order q)"
    and "\<And>b. b \<in> set (fq_order q) \<longleftrightarrow> map_of (fq_buckets q) b \<noteq> None"
    and "\<And>b ls. map_of (fq_buckets q) b = Some ls \<Longrightarrow> ls \<noteq> [] \<and> (\<forall>l \<in> set ls. bucket_of l = b)"
  shows "fq_inv q"
proof -
  have "set (fq_order q) = fst ` set (fq_buckets q)"
    using assms(3) by (auto simp: map_of_None_iff)
  moreover have "\<forall>(b, ls) \<in> set (fq_buckets q). ls \<noteq> [] \<and> (\<forall>l \<in> set ls. bucket_of l = b)"
    using assms(1,4) by (auto simp: map_of_eq_Some_iff)
  ultimately show ?thesis using assms(1,2) by (simp add: fq_inv_def)
qed

lemma fq_inv_new [simp]: "fq_inv fq_new"
  by (simp add: fq_inv_def fq_new_def)

lemma fq_inv_window [simp]: "fq_inv (q\<lparr>fq_window := w\<rparr>) = fq_inv q"
  by (simp add: fq_inv_def)

lemma fq_inv_high [simp]: "fq_inv (q\<lparr>fq_high := h\<rparr>) = fq_inv q"
  by (simp add: fq_inv_def)

lemma fq_inv_record [simp]: "fq_inv (record_send now l q) = fq_inv q"
  by (simp add: record_send_def)

lemma fq_inv_push:
  assumes "fq_inv q"
  shows "fq_inv (push line q)"
proof (cases "map_of (fq_buckets q) (bucket_of line)")
  case None
  with fq_invD [OF assms] show ?thesis
    by (intro fq_invI) (auto simp: push_def split: if_splits)
next
  case (Some ls)
  with fq_invD [OF assms] show ?thesis
    by (intro fq_invI) (auto simp: push_def split: if_splits)
qed

text \<open>What a pop does: the head bucket loses its first line and moves to the back or leaves.\<close>

lemma pop_cases:
  assumes "fq_inv q" and "fq_order q \<noteq> []"
  obtains b rest l ls q' where "fq_order q = b # rest" and "map_of (fq_buckets q) b = Some (l # ls)"
    and "pop_round_robin q = Some (l, q')"
    and "fq_order q' = (if ls \<noteq> [] then rest @ [b] else rest)"
    and "fq_high q' = fq_high q" and "fq_window q' = fq_window q"
    and "map_of (fq_buckets q') = (map_of (fq_buckets q))(b := (if ls = [] then None else Some ls))"
    and "wf_map (fq_buckets q')" and "bucket_of l = b"
proof -
  from assms(2) obtain b rest where o: "fq_order q = b # rest" by (cases "fq_order q") auto
  with fq_invD(3) [OF assms(1), of b] obtain ks where m: "map_of (fq_buckets q) b = Some ks" by auto
  with fq_invD(4) [OF assms(1)] obtain l ls where ks: "ks = l # ls" by (cases ks) auto
  have bl: "bucket_of l = b" using fq_invD(5) [OF assms(1) m] ks by simp
  define q' where "q' = snd (the (pop_round_robin q))"
  show ?thesis
    using that [of b rest l ls q'] o m ks bl fq_invD(1) [OF assms(1)]
    by (simp add: pop_round_robin_def q'_def update_conv' delete_conv')
qed

lemma fq_inv_pop:
  assumes inv: "fq_inv q" and pop: "pop_round_robin q = Some (l, q')"
  shows "fq_inv q'"
proof -
  from pop have "fq_order q \<noteq> []" by (auto simp: pop_round_robin_def)
  then obtain b rest ls where o: "fq_order q = b # rest"
    and m: "map_of (fq_buckets q) b = Some (l # ls)"
    and o': "fq_order q' = (if ls \<noteq> [] then rest @ [b] else rest)"
    and m': "map_of (fq_buckets q') = (map_of (fq_buckets q))(b := (if ls = [] then None else Some ls))"
    and wf: "wf_map (fq_buckets q')"
    by (rule pop_cases [OF inv]) (use pop in auto)
  note D = fq_invD [OF inv]
  show ?thesis
  proof (rule fq_invI [OF wf])
    show "distinct (fq_order q')" using D(2) o o' by auto
    show "b' \<in> set (fq_order q') \<longleftrightarrow> map_of (fq_buckets q') b' \<noteq> None" for b'
      using D(2) D(3) [of b'] o o' m' by auto
    show "ks \<noteq> [] \<and> (\<forall>l \<in> set ks. bucket_of l = b')"
      if "map_of (fq_buckets q') b' = Some ks" for b' ks
      using that m' D(4,5) [of b'] D(5) [OF m] by (auto split: if_splits)
  qed
qed

lemma next_line_total:
  assumes "fq_inv q"
  shows "\<exists>r q'. next_line now q = Some (r, q')"
proof -
  obtain wait w where d: "delay now (fq_window q) = (wait, w)" by fastforce
  show ?thesis
  proof (cases "fq_high q = [] \<and> fq_order q \<noteq> []")
    case True
    then have "fq_inv (q\<lparr>fq_window := w\<rparr>)" and "fq_order (q\<lparr>fq_window := w\<rparr>) \<noteq> []"
      using assms by simp_all
    then show ?thesis by (rule pop_cases) (use True d in \<open>simp add: next_line_def\<close>)
  next
    case False
    then show ?thesis using d by (cases "fq_high q") (auto simp: next_line_def)
  qed
qed

text \<open>The two ways a line is sent.\<close>

lemma next_line_send:
  assumes "fq_inv q" and "next_line now q = Some (Send l, q')"
  obtains (high) hs w where "fq_high q = l # hs"
      and "q' = record_send now l (q\<lparr>fq_window := w, fq_high := hs\<rparr>)"
  | (normal) w q2 where "fq_high q = []" and "fq_order q \<noteq> []"
      and "pop_round_robin (q\<lparr>fq_window := w\<rparr>) = Some (l, q2)" and "q' = record_send now l q2"
proof -
  obtain wait w where d: "delay now (fq_window q) = (wait, w)" by fastforce
  show ?thesis
    using assms(2) d that
    by (cases "fq_high q") (auto simp: next_line_def split: if_splits option.splits)
qed

lemma fq_inv_next:
  assumes "fq_inv q" and "next_line now q = Some (r, q')"
  shows "fq_inv q'"
proof (cases r)
  case (Send l)
  with assms(2) have s: "next_line now q = Some (Send l, q')" by simp
  show ?thesis
    by (rule next_line_send [OF assms(1) s]) (use assms(1) fq_inv_pop fq_inv_window in \<open>auto, blast\<close>)
qed (use assms in \<open>auto simp: next_line_def split: if_splits option.splits prod.splits list.splits\<close>)

section \<open>Runs\<close>

text \<open>
  What the owner does with the queue: pushes, and calls of \<open>Next\<close>. A run returns the final queue
  and the lines sent, in order, each with whether it came from the high-priority list.
\<close>

datatype fq_op = OpPush string | OpPushHigh string | OpNext int

fun fq_step :: "fqueue \<Rightarrow> fq_op \<Rightarrow> ((bool \<times> string) list \<times> fqueue) option" where
  "fq_step q (OpPush l) = Some ([], push l q)"
| "fq_step q (OpPushHigh l) = Some ([], push_high l q)"
| "fq_step q (OpNext now) =
     (case next_line now q of
        None \<Rightarrow> None
      | Some (Send l, q') \<Rightarrow> Some ([(fq_high q \<noteq> [], l)], q')
      | Some (_, q') \<Rightarrow> Some ([], q'))"

fun fq_run :: "fqueue \<Rightarrow> fq_op list \<Rightarrow> ((bool \<times> string) list \<times> fqueue) option" where
  "fq_run q [] = Some ([], q)"
| "fq_run q (op # ops) =
     (case fq_step q op of
        None \<Rightarrow> None
      | Some (out, q') \<Rightarrow>
          (case fq_run q' ops of None \<Rightarrow> None | Some (outs, q'') \<Rightarrow> Some (out @ outs, q'')))"

definition pushed :: "string \<Rightarrow> fq_op list \<Rightarrow> string list" where
  "pushed b ops = concat (map (\<lambda>op. case op of OpPush l \<Rightarrow> if bucket_of l = b then [l] else [] | _ \<Rightarrow> []) ops)"

definition pushed_high :: "fq_op list \<Rightarrow> string list" where
  "pushed_high ops = concat (map (\<lambda>op. case op of OpPushHigh l \<Rightarrow> [l] | _ \<Rightarrow> []) ops)"

definition sent :: "string \<Rightarrow> (bool \<times> string) list \<Rightarrow> string list" where
  "sent b outs = [l. (h, l) \<leftarrow> outs, \<not> h \<and> bucket_of l = b]"

definition sent_high :: "(bool \<times> string) list \<Rightarrow> string list" where
  "sent_high outs = [l. (h, l) \<leftarrow> outs, h]"

lemma sent_simps [simp]:
  "sent b [] = []" "sent b (xs @ ys) = sent b xs @ sent b ys"
  "sent_high [] = []" "sent_high (xs @ ys) = sent_high xs @ sent_high ys"
  "pushed b [] = []" "pushed_high [] = []"
  by (simp_all add: sent_def sent_high_def pushed_def pushed_high_def)

lemma pushed_Cons:
  "pushed b (op # ops) = pushed b [op] @ pushed b ops"
  "pushed_high (op # ops) = pushed_high [op] @ pushed_high ops"
  by (simp_all add: pushed_def pushed_high_def)

lemma bucket_push: "bucket (push l q) b = bucket q b @ (if bucket_of l = b then [l] else [])"
  by (auto simp: bucket_def push_def split: option.splits)

lemma fq_step_inv: "fq_inv q \<Longrightarrow> fq_step q op = Some (out, q') \<Longrightarrow> fq_inv q'"
  by (cases op) (auto simp: fq_inv_push push_high_def intro: fq_inv_next
      split: option.splits next_result.splits)

lemma fq_step_total: "fq_inv q \<Longrightarrow> \<exists>r. fq_step q op = Some r"
  using next_line_total by (cases op) (fastforce split: option.splits next_result.splits)+

lemma next_line_fifo:
  assumes "fq_inv q" and "next_line now q = Some (Send l, q')"
  shows "bucket q b = sent b [(fq_high q \<noteq> [], l)] @ bucket q' b"
    and "fq_high q = sent_high [(fq_high q \<noteq> [], l)] @ fq_high q'"
proof -
  show "bucket q b = sent b [(fq_high q \<noteq> [], l)] @ bucket q' b"
  proof (rule next_line_send [OF assms])
    fix hs w assume "fq_high q = l # hs" "q' = record_send now l (q\<lparr>fq_window := w, fq_high := hs\<rparr>)"
    then show ?thesis by (simp add: sent_def bucket_def record_send_def)
  next
    fix w q2 assume h: "fq_high q = []" and o: "fq_order q \<noteq> []"
      and p: "pop_round_robin (q\<lparr>fq_window := w\<rparr>) = Some (l, q2)" and q': "q' = record_send now l q2"
    have i: "fq_inv (q\<lparr>fq_window := w\<rparr>)" "fq_order (q\<lparr>fq_window := w\<rparr>) \<noteq> []"
      using assms(1) o by simp_all
    show ?thesis
      by (rule pop_cases [OF i]) (use p q' h in \<open>auto simp: sent_def bucket_def record_send_def\<close>)
  qed
  show "fq_high q = sent_high [(fq_high q \<noteq> [], l)] @ fq_high q'"
  proof (rule next_line_send [OF assms])
    fix hs w assume "fq_high q = l # hs" "q' = record_send now l (q\<lparr>fq_window := w, fq_high := hs\<rparr>)"
    then show ?thesis by (simp add: sent_high_def record_send_def)
  next
    fix w q2 assume h: "fq_high q = []" and o: "fq_order q \<noteq> []"
      and p: "pop_round_robin (q\<lparr>fq_window := w\<rparr>) = Some (l, q2)" and q': "q' = record_send now l q2"
    have i: "fq_inv (q\<lparr>fq_window := w\<rparr>)" "fq_order (q\<lparr>fq_window := w\<rparr>) \<noteq> []"
      using assms(1) o by simp_all
    show ?thesis
      by (rule pop_cases [OF i]) (use p q' h in \<open>auto simp: sent_high_def record_send_def\<close>)
  qed
qed

lemma fq_step_fifo:
  assumes "fq_inv q" and "fq_step q op = Some (out, q')"
  shows "bucket q b @ pushed b [op] = sent b out @ bucket q' b \<and>
    fq_high q @ pushed_high [op] = sent_high out @ fq_high q'"
proof (cases op)
  case (OpNext now)
  have "bucket q b = sent b out @ bucket q' b \<and> fq_high q = sent_high out @ fq_high q'"
  proof (cases "\<exists>l. next_line now q = Some (Send l, q')")
    case True
    then obtain l where n: "next_line now q = Some (Send l, q')" by blast
    with OpNext assms(2) have "out = [(fq_high q \<noteq> [], l)]" by simp
    with next_line_fifo [OF assms(1) n] show ?thesis by simp
  next
    case False
    with OpNext assms(2) show ?thesis
      by (auto simp: next_line_def bucket_def split: option.splits next_result.splits if_splits
          prod.splits list.splits)
  qed
  with OpNext show ?thesis by (simp add: pushed_def pushed_high_def)
qed (use assms bucket_push [of _ q b] in \<open>auto simp: pushed_def pushed_high_def push_high_def bucket_def push_def
      split: option.splits\<close>)

lemma fq_run_total: "fq_inv q \<Longrightarrow> \<exists>outs q'. fq_run q ops = Some (outs, q') \<and> fq_inv q'"
proof (induction ops arbitrary: q)
  case (Cons op ops)
  from fq_step_total [OF Cons.prems] obtain out q1 where s: "fq_step q op = Some (out, q1)" by fastforce
  from Cons.IH [OF fq_step_inv [OF Cons.prems s]] s show ?case by auto
qed simp

lemma fq_run_inv: "fq_inv q \<Longrightarrow> fq_run q ops = Some (outs, q') \<Longrightarrow> fq_inv q'"
  using fq_run_total [of q ops] by auto

lemma fq_run_fifo:
  assumes "fq_inv q" and "fq_run q ops = Some (outs, q')"
  shows "bucket q b @ pushed b ops = sent b outs @ bucket q' b"
    and "fq_high q @ pushed_high ops = sent_high outs @ fq_high q'"
proof -
  have "bucket q b @ pushed b ops = sent b outs @ bucket q' b \<and>
        fq_high q @ pushed_high ops = sent_high outs @ fq_high q'"
    using assms
  proof (induction ops arbitrary: q outs)
    case (Cons op ops)
    from Cons.prems(2) obtain out q1 outs1 where s: "fq_step q op = Some (out, q1)"
      and r: "fq_run q1 ops = Some (outs1, q')" and o: "outs = out @ outs1"
      by (auto split: option.splits)
    have IH: "bucket q1 b @ pushed b ops = sent b outs1 @ bucket q' b"
      "fq_high q1 @ pushed_high ops = sent_high outs1 @ fq_high q'"
      using Cons.IH [OF fq_step_inv [OF Cons.prems(1) s] r] by auto
    have "bucket q b @ pushed b (op # ops) = (bucket q b @ pushed b [op]) @ pushed b ops"
      and "fq_high q @ pushed_high (op # ops) = (fq_high q @ pushed_high [op]) @ pushed_high ops"
      by (simp_all only: pushed_Cons(1) [of b op ops] pushed_Cons(2) [of op ops] append_assoc)
    with IH fq_step_fifo [OF Cons.prems(1) s] o show ?case by simp
  qed simp
  then show "bucket q b @ pushed b ops = sent b outs @ bucket q' b"
    and "fq_high q @ pushed_high ops = sent_high outs @ fq_high q'" by auto
qed

text \<open>
  C1. No line is lost, duplicated or reordered: whatever the owner does from a new queue, no index
  or map access panics, the lines pushed for a bucket are those already sent from it followed by
  those still queued, in order, and the same holds of the high-priority list.
\<close>

theorem flood_fifo:
  "\<exists>outs q. fq_run fq_new ops = Some (outs, q) \<and>
     (\<forall>b. pushed b ops = sent b outs @ bucket q b) \<and>
     pushed_high ops = sent_high outs @ fq_high q"
proof -
  obtain outs q where r: "fq_run fq_new ops = Some (outs, q)"
    using fq_run_total [OF fq_inv_new] by blast
  from fq_run_fifo [OF fq_inv_new r] r show ?thesis
    by (auto simp: bucket_def fq_new_def)
qed

section \<open>Fairness of the rotation\<close>

definition normal_sends :: "(bool \<times> string) list \<Rightarrow> nat" where
  "normal_sends outs = length (filter (\<lambda>(h, l). \<not> h) outs)"

lemma normal_sends_simps [simp]:
  "normal_sends [] = 0" "normal_sends (xs @ ys) = normal_sends xs + normal_sends ys"
  by (simp_all add: normal_sends_def)

lemma fq_step_position:
  assumes inv: "fq_inv q" and s: "fq_step q op = Some (out, q')"
    and i: "i < length (fq_order q)" "fq_order q ! i = b"
  shows "normal_sends out = 0 \<and> i < length (fq_order q') \<and> fq_order q' ! i = b
    \<or> normal_sends out = 1 \<and> sent b out \<noteq> []
    \<or> normal_sends out = 1 \<and> 0 < i \<and> i - 1 < length (fq_order q') \<and> fq_order q' ! (i - 1) = b"
proof (cases op)
  case (OpNext now)
  show ?thesis
  proof (cases "\<exists>l. next_line now q = Some (Send l, q')")
    case True
    then obtain l where n: "next_line now q = Some (Send l, q')" by blast
    with OpNext s have out: "out = [(fq_high q \<noteq> [], l)]" by simp
    show ?thesis
    proof (rule next_line_send [OF inv n])
      fix hs w assume "fq_high q = l # hs" "q' = record_send now l (q\<lparr>fq_window := w, fq_high := hs\<rparr>)"
      then show ?thesis using i out by (simp add: normal_sends_def record_send_def)
    next
      fix w q2 assume h: "fq_high q = []" and o: "fq_order q \<noteq> []"
        and p: "pop_round_robin (q\<lparr>fq_window := w\<rparr>) = Some (l, q2)" and q': "q' = record_send now l q2"
      have "fq_inv (q\<lparr>fq_window := w\<rparr>)" "fq_order (q\<lparr>fq_window := w\<rparr>) \<noteq> []"
        using inv o by simp_all
      then obtain b0 rest ls where "fq_order q = b0 # rest" and "map_of (fq_buckets q) b0 = Some (l # ls)"
        and "fq_order q2 = (if ls \<noteq> [] then rest @ [b0] else rest)" and "bucket_of l = b0"
        by (rule pop_cases) (use p in auto)
      then show ?thesis using i out h q'
        by (cases i) (auto simp: normal_sends_def sent_def record_send_def nth_append)
    qed
  next
    case False
    with OpNext s i show ?thesis
      by (auto simp: next_line_def split: option.splits next_result.splits if_splits
          prod.splits list.splits)
  qed
qed (use s i in \<open>auto simp: push_def push_high_def nth_append split: option.splits\<close>)

lemma fq_run_fair:
  assumes "fq_inv q" and "fq_run q ops = Some (outs, q')"
    and "i < length (fq_order q)" and "fq_order q ! i = b" and "i < normal_sends outs"
  shows "sent b outs \<noteq> []"
  using assms
proof (induction ops arbitrary: q outs i)
  case (Cons op ops)
  from Cons.prems(2) obtain out q1 outs1 where s: "fq_step q op = Some (out, q1)"
    and r: "fq_run q1 ops = Some (outs1, q')" and o: "outs = out @ outs1"
    by (auto split: option.splits)
  note i1 = fq_step_inv [OF Cons.prems(1) s]
  from fq_step_position [OF Cons.prems(1) s Cons.prems(3,4)] show ?case
  proof (elim disjE conjE)
    assume "normal_sends out = 0" "i < length (fq_order q1)" "fq_order q1 ! i = b"
    with Cons.IH [OF i1 r] Cons.prems(5) o show ?thesis by auto
  next
    assume "normal_sends out = 1" "0 < i" "i - 1 < length (fq_order q1)" "fq_order q1 ! (i - 1) = b"
    with Cons.IH [OF i1 r, of "i - 1"] Cons.prems(5) o show ?thesis by auto
  qed (use o in auto)
qed simp



section \<open>The rate limit\<close>

lemma truncate_dur_pos: "0 < truncate_dur d second \<longleftrightarrow> second \<le> d"
  by (auto simp: truncate_dur_def second_def sgn_if zdiv_mono1 pos_imp_zdiv_pos_iff mult_pos_pos zero_less_mult_iff)

lemma truncate_dur_le: "0 \<le> d \<Longrightarrow> truncate_dur d second \<le> d"
  by (simp add: truncate_dur_def second_def sgn_if)
    (metis div_mult_mod_eq le_add_same_cancel1 pos_mod_sign zero_less_numeral)

lemma truncate_dur_dvd: "second dvd truncate_dur d second"
  by (simp add: truncate_dur_def second_def)

text \<open>When the window lets a line pass: it is empty, or the oldest event is old enough.\<close>

definition passes :: "int \<Rightarrow> int list \<Rightarrow> bool" where
  "passes now w \<longleftrightarrow> w = [] \<or> hd w + (int (length w) - 1) * second < now"

lemma second_pos: "0 < second"
  by (simp add: second_def)

lemma delay_passes: "passes now w \<Longrightarrow> delay now w = (0, tl w)"
proof (cases w)
  case (Cons t0 rest)
  assume "passes now w"
  then have "\<not> second \<le> t0 + int (length w) * second - now"
    using Cons second_pos by (auto simp: passes_def algebra_simps)
  then have "\<not> 0 < truncate_dur (t0 + int (length w) * second - now) second"
    by (simp only: truncate_dur_pos not_False_eq_True)
  moreover from this have "\<not> max_wait < truncate_dur (t0 + int (length w) * second - now) second"
    using second_pos unfolding max_wait_def by linarith
  ultimately show ?thesis using Cons by (simp add: delay_def)
qed (simp add: delay_def)

lemma delay_blocked:
  assumes "\<not> passes now w"
  shows "\<exists>d. delay now w = (d, w) \<and> second \<le> d \<and> d \<le> max_wait \<and> second dvd d"
proof -
  from assms obtain t0 rest where w: "w = t0 # rest" by (cases w) (auto simp: passes_def)
  let ?d = "truncate_dur (t0 + int (length w) * second - now) second"
  have "second \<le> t0 + int (length w) * second - now"
    using assms w by (simp add: passes_def algebra_simps)
  then have "0 < ?d" by (simp only: truncate_dur_pos)
  then have "second \<le> ?d" using truncate_dur_dvd second_pos by (simp add: zdvd_imp_le)
  then show ?thesis
    using w \<open>0 < ?d\<close> truncate_dur_dvd [of "t0 + int (length w) * second - now"] second_pos
    by (auto simp: delay_def max_wait_def)
qed

text \<open>
  The three forms of \<open>Next\<close> on a non-empty queue: when the window lets the line pass a line is
  sent and its cost of one event, and one more per started eighty bytes after the first half, is
  recorded in place of the oldest event; otherwise the queue is unchanged and the wait is a whole
  number of seconds, at least one and at most three.
\<close>

theorem flood_next:
  assumes "fq_run fq_new ops = Some (outs, q)" and "fq_high q \<noteq> [] \<or> fq_order q \<noteq> []"
  shows "if passes now (fq_window q)
    then \<exists>l q'. next_line now q = Some (Send l, q') \<and>
           fq_window q' = tl (fq_window q) @ replicate (1 + extra_events (length l)) now
    else \<exists>d. next_line now q = Some (Wait d, q) \<and> second \<le> d \<and> d \<le> 3 * second \<and> second dvd d"
proof (cases "passes now (fq_window q)")
  case True
  note d = delay_passes [OF True]
  let ?q = "q\<lparr>fq_window := tl (fq_window q)\<rparr>"
  show ?thesis
  proof (cases "fq_high q")
    case Nil
    with assms(2) have "fq_order ?q \<noteq> []" by simp
    moreover have "fq_inv ?q" using fq_run_inv [OF fq_inv_new assms(1)] by simp
    ultimately obtain l q2 where "pop_round_robin ?q = Some (l, q2)" "fq_window q2 = fq_window ?q"
      by (metis pop_cases)
    then show ?thesis using True d Nil assms(2) by (simp add: next_line_def record_send_def)
  next
    case (Cons l hs)
    then show ?thesis using True d by (simp add: next_line_def record_send_def)
  qed
next
  case False
  from delay_blocked [OF False] show ?thesis
    using False assms(2) second_pos by (auto simp: next_line_def max_wait_def)
qed

theorem flood_next_witness:
  "(if passes 0 (fq_window (push ''JOIN #a'' fq_new))
    then \<exists>l q'. next_line 0 (push ''JOIN #a'' fq_new) = Some (Send l, q') \<and>
           fq_window q' = tl (fq_window (push ''JOIN #a'' fq_new)) @ replicate (1 + extra_events (length l)) 0
    else \<exists>d. next_line 0 (push ''JOIN #a'' fq_new) = Some (Wait d, push ''JOIN #a'' fq_new) \<and>
           second \<le> d \<and> d \<le> 3 * second \<and> second dvd d)"
  by (rule flood_next [where ops = "[OpPush ''JOIN #a'']" and outs = "[]"])
    (simp_all add: push_def fq_new_def)

text \<open>A stream of short lines on a clock that advances by less than a second.\<close>

definition short_queue :: "int \<Rightarrow> fqueue \<Rightarrow> bool" where
  "short_queue now q \<longleftrightarrow> fq_inv q \<and> fq_high q = [] \<and> length (fq_window q) \<le> 1 \<and>
     (\<forall>t \<in> set (fq_window q). t < now) \<and>
     (\<forall>(b, ls) \<in> set (fq_buckets q). \<forall>l \<in> set ls. length l \<le> long_line_unit)"

lemma queue_len_pop:
  assumes "fq_inv q" and "fq_order q \<noteq> []" and "pop_round_robin q = Some (l, q')"
  shows "queue_len q = Suc (queue_len q')"
proof -
  obtain b rest ls where o: "fq_order q = b # rest" "map_of (fq_buckets q) b = Some (l # ls)"
    by (rule pop_cases [OF assms(1,2)]) (use assms(3) in auto)
  show ?thesis
    using assms(3) o val_sum_update_old [of "fq_buckets q" b "l # ls" length ls]
      val_sum_delete [OF fq_invD(1) [OF assms(1)], of b "l # ls" length]
    by (auto simp: pop_round_robin_def queue_len_def split: if_splits)
qed

lemma short_queue_step:
  assumes "short_queue now q" and "0 < queue_len q" and "now < now'"
  shows "\<exists>l q'. next_line now q = Some (Send l, q') \<and> short_queue now' q' \<and> queue_len q = Suc (queue_len q')"
proof -
  note D = assms(1) [unfolded short_queue_def]
  have p: "passes now (fq_window q)"
    using D by (cases "fq_window q") (auto simp: passes_def)
  have "fq_buckets q \<noteq> []" using assms(2) D by (auto simp: queue_len_def)
  then have o: "fq_order q \<noteq> []" using D by (auto simp: fq_inv_def)
  define q1 where "q1 = q\<lparr>fq_window := tl (fq_window q)\<rparr>"
  have i: "fq_inv q1" "fq_order q1 \<noteq> []" using D o by (simp_all add: q1_def)
  then obtain b rest l ls q2 where pop: "pop_round_robin q1 = Some (l, q2)"
    and m: "map_of (fq_buckets q1) b = Some (l # ls)"
    and m2: "map_of (fq_buckets q2) = (map_of (fq_buckets q1))(b := (if ls = [] then None else Some ls))"
    and w2: "fq_window q2 = fq_window q1" and h2: "fq_high q2 = fq_high q1"
    by (rule pop_cases) auto
  have n: "next_line now q = Some (Send l, record_send now l q2)"
    using delay_passes [OF p] D o pop by (simp add: next_line_def q1_def)
  have all: "length k \<le> long_line_unit" if "map_of (fq_buckets q1) b' = Some ks" "k \<in> set ks" for b' k ks
    using D that by (auto simp: q1_def dest!: map_of_SomeD)
  have "extra_events (length l) = 0" using all [OF m, of l] by (simp add: extra_events_def)
  moreover have "\<forall>(b', ks) \<in> set (fq_buckets q2). \<forall>k \<in> set ks. length k \<le> long_line_unit"
  proof (clarify)
    fix b' ks k assume "(b', ks) \<in> set (fq_buckets q2)" "k \<in> set ks"
    then have "map_of (fq_buckets q2) b' = Some ks"
      using fq_invD(1) [OF fq_inv_pop [OF i(1) pop]] by (simp add: map_of_some_iff)
    then show "length k \<le> long_line_unit"
      using m2 all [OF m, of k] all [of b' ks k] \<open>k \<in> set ks\<close> by (auto split: if_splits)
  qed
  moreover have "tl (fq_window q) = []" using D by (cases "fq_window q") auto
  ultimately have "short_queue now' (record_send now l q2)"
    using fq_inv_pop [OF i(1) pop] w2 h2 D assms(3)
    by (simp add: short_queue_def record_send_def q1_def)
  moreover have "queue_len q = Suc (queue_len (record_send now l q2))"
    using queue_len_pop [OF i pop] by (simp add: q1_def queue_len_def record_send_def)
  ultimately show ?thesis using n by blast
qed

lemma short_queue_drain:
  "short_queue now q \<Longrightarrow> queue_len q = n \<Longrightarrow>
   \<exists>outs q'. fq_run q (map (\<lambda>i. OpNext (now + int i)) [0..<n]) = Some (outs, q') \<and>
     length outs = n \<and> queue_len q' = 0"
proof (induction n arbitrary: now q)
  case (Suc n)
  then obtain l q' where n: "next_line now q = Some (Send l, q')" "short_queue (now + 1) q'" "queue_len q' = n"
    using short_queue_step [of now q "now + 1"] by auto
  have "map (\<lambda>i. OpNext (now + int i)) [0..<Suc n]
    = OpNext now # map (\<lambda>i. OpNext (now + 1 + int i)) [0..<n]"
    by (rule nth_equalityI) (auto simp: nth_Cons nth_append split: nat.splits)
  with Suc.IH [OF n(2,3)] n(1) show ?case by fastforce
qed simp

lemma short_queue_pushes:
  "short_queue now q \<Longrightarrow> \<forall>l \<in> set ls. length l \<le> long_line_unit \<Longrightarrow>
   \<exists>q'. fq_run q (map OpPush ls) = Some ([], q') \<and> short_queue now q' \<and>
     queue_len q' = queue_len q + length ls"
proof (induction ls arbitrary: q)
  case (Cons l ls)
  have len: "queue_len (push l q) = Suc (queue_len q)"
    using val_sum_update_old [of "fq_buckets q" "bucket_of l" _ length "the (map_of (fq_buckets q) (bucket_of l)) @ [l]"]
    by (cases "map_of (fq_buckets q) (bucket_of l)") (auto simp: push_def queue_len_def val_sum_update_new)
  have "\<exists>ks. set (fq_buckets (push l q)) \<subseteq> insert (bucket_of l, ks @ [l]) (set (fq_buckets q)) \<and>
      (\<forall>k \<in> set ks. length k \<le> long_line_unit)"
  proof (cases "map_of (fq_buckets q) (bucket_of l)")
    case None
    then show ?thesis
      using set_update_subset [of "bucket_of l" "[] @ [l]" "fq_buckets q"] by (fastforce simp: push_def)
  next
    case (Some ks)
    then show ?thesis
      using set_update_subset [of "bucket_of l" "ks @ [l]" "fq_buckets q"] map_of_SomeD [OF Some] Cons.prems(1)
      by (fastforce simp: push_def short_queue_def)
  qed
  then have "short_queue now (push l q)"
    using Cons.prems fq_inv_push [of q l]
    by (fastforce simp: short_queue_def push_def split: option.splits)
  with Cons.IH [of "push l q"] Cons.prems(2) len show ?case by auto
qed simp

text \<open>
  The limit of one event per second does not bind a clock finer than a second: \<open>delay\<close> truncates
  the remaining wait to whole seconds, so after one event anything up to a second counts as no wait.
  However many lines of at most eighty bytes are pushed into a new queue, calls of \<open>Next\<close> one
  nanosecond apart send all of them, none is made to wait, and the queue is empty after as many
  nanoseconds as there are lines.
\<close>

theorem flood_burst_not_limited:
  assumes "\<forall>l \<in> set ls. length l \<le> 80"
  shows "\<exists>outs q. fq_run fq_new (map OpPush ls @ map (\<lambda>i. OpNext (t + int i)) [0..<length ls]) = Some (outs, q)
    \<and> length outs = length ls \<and> queue_len q = 0"
proof -
  have app: "fq_run q (xs @ ys) = (case fq_run q xs of None \<Rightarrow> None
     | Some (o1, q1) \<Rightarrow> (case fq_run q1 ys of None \<Rightarrow> None | Some (o2, q2) \<Rightarrow> Some (o1 @ o2, q2)))" for q xs ys
    by (induction xs arbitrary: q) (auto split: option.splits)
  have "short_queue t fq_new" by (simp add: short_queue_def fq_new_def fq_inv_def)
  from short_queue_pushes [OF this, of ls] assms
  obtain q where q: "fq_run fq_new (map OpPush ls) = Some ([], q)" "short_queue t q" "queue_len q = length ls"
    by (auto simp: long_line_unit_def queue_len_def fq_new_def)
  from short_queue_drain [OF q(2,3)] q(1) show ?thesis by (auto simp: app)
qed

theorem flood_burst_not_limited_witness:
  "\<exists>outs q. fq_run fq_new (map OpPush [''PRIVMSG #a :1'', ''PRIVMSG #a :2'', ''PRIVMSG #a :3'']
      @ map (\<lambda>i. OpNext (0 + int i)) [0..<length [''PRIVMSG #a :1'', ''PRIVMSG #a :2'', ''PRIVMSG #a :3'']]) = Some (outs, q)
    \<and> length outs = length [''PRIVMSG #a :1'', ''PRIVMSG #a :2'', ''PRIVMSG #a :3''] \<and> queue_len q = 0"
  by (rule flood_burst_not_limited) simp

end
