(* ===== verification/Go_Utf8.thy ===== *)
theory Go_Utf8
  imports Go_Prelude
begin

text \<open>
  Package unicode/utf8 as the program uses it: decoding the first rune of a byte string with Go's
  table of accepted second bytes, the runes of a string, \<open>strings.ToValidUTF8(s, "")\<close>, and the
  blanks of \<open>unicode.IsSpace\<close> that \<open>strings.TrimSpace\<close> and \<open>strings.Fields\<close> cut at.
\<close>

abbreviation byte :: "char \<Rightarrow> nat" where
  "byte c \<equiv> of_char c"

definition rune_error :: nat where
  "rune_error = 0xFFFD"

definition cont_byte :: "char \<Rightarrow> bool" where
  "cont_byte c = (0x80 \<le> byte c \<and> byte c \<le> 0xBF)"

definition second_ok :: "nat \<Rightarrow> char \<Rightarrow> bool" where
  \<comment> \<open>which second bytes a first byte accepts: no overlong form, no surrogate, nothing past U+10FFFF\<close>
  "second_ok b c =
     (if b = 0xE0 then 0xA0 \<le> byte c \<and> byte c \<le> 0xBF
      else if b = 0xED then 0x80 \<le> byte c \<and> byte c \<le> 0x9F
      else if b = 0xF0 then 0x90 \<le> byte c \<and> byte c \<le> 0xBF
      else if b = 0xF4 then 0x80 \<le> byte c \<and> byte c \<le> 0x8F
      else cont_byte c)"

text \<open>\<open>utf8.DecodeRuneInString\<close>: the rune and its width; an invalid byte is (U+FFFD, 1).\<close>

definition decode_rune :: "string \<Rightarrow> nat \<times> nat" where
  "decode_rune s =
     (case s of
        [] \<Rightarrow> (rune_error, 0)
      | c0 # t \<Rightarrow>
          (let b = byte c0 in
           if b < 0x80 then (b, 1)
           else if 0xC2 \<le> b \<and> b \<le> 0xDF then
             (case t of
                c1 # _ \<Rightarrow> if second_ok b c1 then ((b - 0xC0) * 64 + (byte c1 - 0x80), 2)
                          else (rune_error, 1)
              | _ \<Rightarrow> (rune_error, 1))
           else if 0xE0 \<le> b \<and> b \<le> 0xEF then
             (case t of
                c1 # c2 # _ \<Rightarrow>
                  if second_ok b c1 \<and> cont_byte c2
                  then ((b - 0xE0) * 4096 + (byte c1 - 0x80) * 64 + (byte c2 - 0x80), 3)
                  else (rune_error, 1)
              | _ \<Rightarrow> (rune_error, 1))
           else if 0xF0 \<le> b \<and> b \<le> 0xF4 then
             (case t of
                c1 # c2 # c3 # _ \<Rightarrow>
                  if second_ok b c1 \<and> cont_byte c2 \<and> cont_byte c3
                  then ((b - 0xF0) * 262144 + (byte c1 - 0x80) * 4096 + (byte c2 - 0x80) * 64
                          + (byte c3 - 0x80), 4)
                  else (rune_error, 1)
              | _ \<Rightarrow> (rune_error, 1))
           else (rune_error, 1)))"

lemma decode_width_pos: "s \<noteq> [] \<Longrightarrow> 0 < snd (decode_rune s)"
  by (auto simp: decode_rune_def Let_def split: list.splits)

lemma decode_width_le: "snd (decode_rune s) \<le> length s"
  by (auto simp: decode_rune_def Let_def split: list.splits)

lemma decode_width_le4: "snd (decode_rune s) \<le> 4"
  by (auto simp: decode_rune_def Let_def split: list.splits)

text \<open>The string cut into the byte sequences of its runes, what \<open>for range\<close> walks over.\<close>

function segs :: "string \<Rightarrow> string list" where
  "segs s = (if s = [] then [] else
     (let w = snd (decode_rune s) in take w s # segs (drop w s)))"
  by pat_completeness auto
termination
  by (relation "measure length") (use decode_width_pos in auto)

declare segs.simps [simp del]

lemma segs_Nil [simp]: "segs [] = []"
  by (simp add: segs.simps)

lemma segs_step: "s \<noteq> [] \<Longrightarrow>
    segs s = take (snd (decode_rune s)) s # segs (drop (snd (decode_rune s)) s)"
  by (subst segs.simps) (simp add: Let_def)

lemma concat_segs [simp]: "concat (segs s) = s"
proof (induction s rule: segs.induct)
  case (1 s)
  then show ?case by (cases "s = []") (auto simp: segs_step)
qed

lemma segs_bounds: "g \<in> set (segs s) \<Longrightarrow> g \<noteq> [] \<and> length g \<le> 4"
proof (induction s arbitrary: g rule: segs.induct)
  case (1 s)
  show ?case
  proof (cases "s = []")
    case True
    then show ?thesis using "1.prems" by simp
  next
    case False
    have "take (snd (decode_rune s)) s \<noteq> []"
      using False decode_width_pos [OF False] by simp
    moreover have "length (take (snd (decode_rune s)) s) \<le> 4"
      using decode_width_le4 [of s] by simp
    ultimately show ?thesis
      using False "1.prems" "1.IH" [OF False refl] by (auto simp: segs_step)
  qed
qed

definition seg_rune :: "string \<Rightarrow> nat" where
  "seg_rune g = fst (decode_rune g)"

definition seg_invalid :: "string \<Rightarrow> bool" where
  \<comment> \<open>one byte that decodes to U+FFFD; a well-formed U+FFFD has three\<close>
  "seg_invalid g = (decode_rune g = (rune_error, 1))"

definition runes :: "string \<Rightarrow> nat list" where
  "runes s = map seg_rune (segs s)"

definition to_valid_utf8 :: "string \<Rightarrow> string" where
  "to_valid_utf8 s = concat (filter (\<lambda>g. \<not> seg_invalid g) (segs s))"

lemma set_to_valid_utf8: "set (to_valid_utf8 s) \<subseteq> set s"
proof -
  have "set (to_valid_utf8 s) \<subseteq> set (concat (segs s))"
    unfolding to_valid_utf8_def set_concat by (rule UN_mono) auto
  then show ?thesis by (simp only: concat_segs)
qed

lemma decode_ascii: "byte c < 0x80 \<Longrightarrow> decode_rune (c # s) = (byte c, 1)"
  by (simp add: decode_rune_def)

lemma segs_ascii: "\<forall>c \<in> set s. byte c < 0x80 \<Longrightarrow> segs s = map (\<lambda>c. [c]) s"
  by (induction s) (auto simp: segs_step decode_ascii)

lemma to_valid_utf8_ascii: "\<forall>c \<in> set s. byte c < 0x80 \<Longrightarrow> to_valid_utf8 s = s"
  by (induction s)
    (auto simp: to_valid_utf8_def segs_ascii seg_invalid_def decode_ascii rune_error_def)

section \<open>Blanks\<close>

definition is_space_rune :: "nat \<Rightarrow> bool" where
  "is_space_rune r =
     (r \<in> {0x09, 0x0A, 0x0B, 0x0C, 0x0D, 0x20, 0x85, 0xA0, 0x1680, 0x2028, 0x2029, 0x202F, 0x205F,
           0x3000} \<or> (0x2000 \<le> r \<and> r \<le> 0x200A))"

definition seg_space :: "string \<Rightarrow> bool" where
  "seg_space g = (is_space_rune (seg_rune g))"

definition trim_space :: "string \<Rightarrow> string" where
  "trim_space s =
     concat (rev (dropWhile seg_space (rev (dropWhile seg_space (segs s)))))"

definition go_fields :: "string \<Rightarrow> string list" where
  "go_fields s = map concat (fields_func seg_space (segs s))"

section \<open>Encoding\<close>

text \<open>\<open>utf8.EncodeRune\<close>, the bytes of \<open>string(r)\<close>: a value that is no rune is written as U+FFFD.\<close>

definition encode_rune :: "nat \<Rightarrow> string" where
  "encode_rune n =
     (let r = (if n < 0xD800 \<or> 0xDFFF < n \<and> n < 0x110000 then n else rune_error) in
      if r < 0x80 then [char_of r]
      else if r < 0x800 then [char_of (0xC0 + r div 64), char_of (0x80 + r mod 64)]
      else if r < 0x10000 then
        [char_of (0xE0 + r div 4096), char_of (0x80 + r div 64 mod 64), char_of (0x80 + r mod 64)]
      else
        [char_of (0xF0 + r div 262144), char_of (0x80 + r div 4096 mod 64),
         char_of (0x80 + r div 64 mod 64), char_of (0x80 + r mod 64)])"

text \<open>The strings of the runes of a string, what \<open>string(r)\<close> gives in a loop over them.\<close>

definition rune_strs :: "string \<Rightarrow> string list" where
  "rune_strs s = map (encode_rune \<circ> seg_rune) (segs s)"

definition valid_utf8 :: "string \<Rightarrow> bool" where
  "valid_utf8 s = (\<forall>g \<in> set (segs s). \<not> seg_invalid g)"

lemma valid_utf8_ascii: "\<forall>c \<in> set s. byte c < 0x80 \<Longrightarrow> valid_utf8 s"
  by (induction s) (auto simp: valid_utf8_def segs_ascii seg_invalid_def decode_ascii rune_error_def)

definition three_ok :: "char \<Rightarrow> char \<Rightarrow> char \<Rightarrow> bool" where
  "three_ok c0 c1 c2 = (0xE0 \<le> byte c0 \<and> byte c0 \<le> 0xEF \<and> second_ok (byte c0) c1 \<and> cont_byte c2)"

definition four_ok :: "char \<Rightarrow> char \<Rightarrow> char \<Rightarrow> char \<Rightarrow> bool" where
  "four_ok c0 c1 c2 c3 =
     (0xF0 \<le> byte c0 \<and> byte c0 \<le> 0xF4 \<and> second_ok (byte c0) c1 \<and> cont_byte c2 \<and> cont_byte c3)"

definition two_ok :: "char \<Rightarrow> char \<Rightarrow> bool" where
  "two_ok c0 c1 = (0xC2 \<le> byte c0 \<and> byte c0 \<le> 0xDF \<and> second_ok (byte c0) c1)"

lemma decode2: "two_ok c0 c1 \<Longrightarrow>
    decode_rune (c0 # c1 # t) = ((byte c0 - 0xC0) * 64 + (byte c1 - 0x80), 2)"
  by (simp add: decode_rune_def two_ok_def)

lemma decode3: "three_ok c0 c1 c2 \<Longrightarrow> decode_rune (c0 # c1 # c2 # t) =
    ((byte c0 - 0xE0) * 4096 + (byte c1 - 0x80) * 64 + (byte c2 - 0x80), 3)"
  by (simp add: decode_rune_def three_ok_def)

lemma decode4: "four_ok c0 c1 c2 c3 \<Longrightarrow> decode_rune (c0 # c1 # c2 # c3 # t) =
    ((byte c0 - 0xF0) * 262144 + (byte c1 - 0x80) * 4096 + (byte c2 - 0x80) * 64
       + (byte c3 - 0x80), 4)"
  by (simp add: decode_rune_def four_ok_def)

lemma decode_shape:
  assumes "s = c0 # t" and "\<not> byte c0 < 0x80" and "decode_rune s \<noteq> (rune_error, 1)"
  shows "(\<exists>c1 t'. t = c1 # t' \<and> two_ok c0 c1) \<or> (\<exists>c1 c2 t'. t = c1 # c2 # t' \<and> three_ok c0 c1 c2) \<or>
    (\<exists>c1 c2 c3 t'. t = c1 # c2 # c3 # t' \<and> four_ok c0 c1 c2 c3)"
proof (rule ccontr)
  assume n: "\<not> ?thesis"
  have "decode_rune s = (rune_error, 1)"
    unfolding decode_rune_def using assms(1, 2) n
    by (simp split: list.split) (auto simp: two_ok_def three_ok_def four_ok_def)
  with assms(3) show False by simp
qed

lemma decode_cases:
  assumes "s \<noteq> []"
  obtains (ascii) c0 t where "s = c0 # t" "byte c0 < 0x80" "decode_rune s = (byte c0, 1)"
  | (two) c0 c1 t where "s = c0 # c1 # t" "two_ok c0 c1"
  | (three) c0 c1 c2 t where "s = c0 # c1 # c2 # t" "three_ok c0 c1 c2"
  | (four) c0 c1 c2 c3 t where "s = c0 # c1 # c2 # c3 # t" "four_ok c0 c1 c2 c3"
  | (invalid) c0 t where "s = c0 # t" "\<not> byte c0 < 0x80" "decode_rune s = (rune_error, 1)"
proof -
  from assms obtain c0 t where s: "s = c0 # t" by (cases s) auto
  show ?thesis
  proof (cases "byte c0 < 0x80")
    case True
    with s show ?thesis by (intro ascii) (simp_all add: decode_ascii)
  next
    case big: False
    show ?thesis
    proof (cases "decode_rune s = (rune_error, 1)")
      case True
      with s big show ?thesis by (intro invalid)
    next
      case False
      from decode_shape [OF s big False] show ?thesis
      proof (elim disjE exE conjE)
        fix c1 t' assume "t = c1 # t'" "two_ok c0 c1"
        then show ?thesis by (intro two) (simp_all add: s)
      next
        fix c1 c2 t' assume "t = c1 # c2 # t'" "three_ok c0 c1 c2"
        then show ?thesis by (intro three) (simp_all add: s)
      next
        fix c1 c2 c3 t' assume "t = c1 # c2 # c3 # t'" "four_ok c0 c1 c2 c3"
        then show ?thesis by (intro four) (simp_all add: s)
      qed
    qed
  qed
qed

lemma decode_take: "decode_rune (take (snd (decode_rune s)) s) = decode_rune s"
proof (cases "s = []")
  case False
  then show ?thesis
  proof (cases rule: decode_cases)
    case (ascii c0 t)
    then show ?thesis by (simp add: decode_ascii)
  next
    case (two c0 c1 t)
    then show ?thesis by (simp add: decode2)
  next
    case (three c0 c1 c2 t)
    then show ?thesis by (simp add: decode3)
  next
    case (four c0 c1 c2 c3 t)
    then show ?thesis by (simp add: decode4)
  next
    case (invalid c0 t)
    then show ?thesis by (simp add: decode_rune_def)
  qed
qed (simp add: decode_rune_def)

lemma segs_decode: "g \<in> set (segs s) \<Longrightarrow> g \<noteq> [] \<and> snd (decode_rune g) = length g"
proof (induction s arbitrary: g rule: segs.induct)
  case (1 s)
  show ?case
  proof (cases "s = []")
    case True
    then show ?thesis using "1.prems" by simp
  next
    case False
    let ?w = "snd (decode_rune s)"
    from "1.prems" False consider "g = take ?w s" | "g \<in> set (segs (drop ?w s))"
      by (auto simp: segs_step)
    then show ?thesis
    proof cases
      case 1
      then show ?thesis
        using False decode_width_pos [OF False] decode_width_le [of s] by (simp add: decode_take)
    next
      case 2
      with "1.IH" [OF False refl] show ?thesis by blast
    qed
  qed
qed

lemma char_of_byte: "n = byte c \<Longrightarrow> char_of n = c"
  by simp

lemma digits64:
  fixes a b :: nat
  assumes "b < 64"
  shows "(a * 64 + b) div 64 = a" and "(a * 64 + b) mod 64 = b"
  using assms by simp_all

lemma encode_two:
  assumes "two_ok c0 c1"
  shows "encode_rune ((byte c0 - 0xC0) * 64 + (byte c1 - 0x80)) = [c0, c1]"
proof -
  from assms have c: "0xC2 \<le> byte c0" "byte c0 \<le> 0xDF" "0x80 \<le> byte c1" "byte c1 \<le> 0xBF"
    by (auto simp: two_ok_def second_ok_def cont_byte_def split: if_splits)
  define a b where "a = byte c0 - 0xC0" and "b = byte c1 - 0x80"
  with c have ab: "2 \<le> a" "a \<le> 31" "b < 64" and e: "byte c0 = 0xC0 + a" "byte c1 = 0x80 + b"
    by auto
  have "0x80 \<le> a * 64 + b" "a * 64 + b < 0x800" using ab by auto
  then have "encode_rune (a * 64 + b) = [char_of (0xC0 + a), char_of (0x80 + b)]"
    using ab digits64 [of b a] by (simp add: encode_rune_def)
  with e show ?thesis by (simp flip: a_def b_def e)
qed

lemma encode_three:
  assumes "three_ok c0 c1 c2"
  shows "encode_rune ((byte c0 - 0xE0) * 4096 + (byte c1 - 0x80) * 64 + (byte c2 - 0x80)) = [c0, c1, c2]"
proof -
  from assms have c: "0xE0 \<le> byte c0" "byte c0 \<le> 0xEF" "0x80 \<le> byte c1" "byte c1 \<le> 0xBF"
      "0x80 \<le> byte c2" "byte c2 \<le> 0xBF"
    and lo: "byte c0 = 0xE0 \<longrightarrow> 0xA0 \<le> byte c1" and hi: "byte c0 = 0xED \<longrightarrow> byte c1 \<le> 0x9F"
    by (auto simp: three_ok_def second_ok_def cont_byte_def split: if_splits)
  define a b d where "a = byte c0 - 0xE0" and "b = byte c1 - 0x80" and "d = byte c2 - 0x80"
  with c lo hi have abd: "a \<le> 15" "b < 64" "d < 64" "a = 0 \<Longrightarrow> 32 \<le> b" "a = 13 \<Longrightarrow> b < 32"
    and e: "byte c0 = 0xE0 + a" "byte c1 = 0x80 + b" "byte c2 = 0x80 + d"
    by auto
  define r where "r = (a * 64 + b) * 64 + d"
  have r: "r = a * 4096 + b * 64 + d" by (simp add: r_def algebra_simps)
  have "0x800 \<le> r" using abd by (cases "a = 0") (auto simp: r)
  moreover have "r < 0x10000" using abd by (auto simp: r)
  moreover have "r < 0xD800 \<or> 0xDFFF < r"
  proof (cases "a = 13")
    case True
    with abd(5) show ?thesis using abd by (simp add: r)
  next
    case False
    then have "a \<le> 12 \<or> 14 \<le> a" by auto
    then show ?thesis using abd by (auto simp: r)
  qed
  moreover have "r div 64 = a * 64 + b" "r mod 64 = d"
    using digits64 [of d "a * 64 + b"] abd by (simp_all add: r_def)
  moreover have "r div 4096 = a" using abd by (simp add: r)
  moreover have "(a * 64 + b) mod 64 = b" using abd by simp
  ultimately have "encode_rune r = [char_of (0xE0 + a), char_of (0x80 + b), char_of (0x80 + d)]"
    by (simp add: encode_rune_def)
  with e show ?thesis by (simp flip: a_def b_def d_def e r)
qed

lemma encode_four:
  assumes "four_ok c0 c1 c2 c3"
  shows "encode_rune ((byte c0 - 0xF0) * 262144 + (byte c1 - 0x80) * 4096 + (byte c2 - 0x80) * 64
    + (byte c3 - 0x80)) = [c0, c1, c2, c3]"
proof -
  from assms have c: "0xF0 \<le> byte c0" "byte c0 \<le> 0xF4" "0x80 \<le> byte c1" "byte c1 \<le> 0xBF"
      "0x80 \<le> byte c2" "byte c2 \<le> 0xBF" "0x80 \<le> byte c3" "byte c3 \<le> 0xBF"
    and lo: "byte c0 = 0xF0 \<longrightarrow> 0x90 \<le> byte c1" and hi: "byte c0 = 0xF4 \<longrightarrow> byte c1 \<le> 0x8F"
    by (auto simp: four_ok_def second_ok_def cont_byte_def split: if_splits)
  define a b d g where "a = byte c0 - 0xF0" and "b = byte c1 - 0x80" and "d = byte c2 - 0x80"
    and "g = byte c3 - 0x80"
  with c lo hi have abd: "a \<le> 4" "b < 64" "d < 64" "g < 64" "a = 0 \<Longrightarrow> 16 \<le> b" "a = 4 \<Longrightarrow> b < 16"
    and e: "byte c0 = 0xF0 + a" "byte c1 = 0x80 + b" "byte c2 = 0x80 + d" "byte c3 = 0x80 + g"
    by auto
  define r where "r = ((a * 64 + b) * 64 + d) * 64 + g"
  have r: "r = a * 262144 + b * 4096 + d * 64 + g" by (simp add: r_def algebra_simps)
  have "0x10000 \<le> r" using abd by (cases "a = 0") (auto simp: r)
  moreover have "r < 0x110000"
  proof (cases "a = 4")
    case True
    with abd(6) show ?thesis using abd by (simp add: r)
  next
    case False
    then have "a \<le> 3" using abd by auto
    then show ?thesis using abd by (auto simp: r)
  qed
  moreover have "r div 64 = (a * 64 + b) * 64 + d" "r mod 64 = g"
    using digits64 [of g "(a * 64 + b) * 64 + d"] abd by (simp_all add: r_def)
  moreover have "((a * 64 + b) * 64 + d) mod 64 = d" using abd by (intro digits64)
  moreover have "r div 4096 = a * 64 + b" using abd by (simp add: r)
  moreover have "r div 262144 = a" using abd by (simp add: r)
  moreover have "(a * 64 + b) mod 64 = b" using abd by simp
  ultimately have "encode_rune r =
      [char_of (0xF0 + a), char_of (0x80 + b), char_of (0x80 + d), char_of (0x80 + g)]"
    by (simp add: encode_rune_def)
  with e show ?thesis by (simp flip: a_def b_def d_def g_def e r)
qed

text \<open>Encoding the rune of a well-formed sequence gives the sequence back.\<close>

lemma encode_seg:
  assumes "g \<in> set (segs s)" and "\<not> seg_invalid g"
  shows "encode_rune (seg_rune g) = g"
proof -
  from segs_decode [OF assms(1)] have ne: "g \<noteq> []" and w: "snd (decode_rune g) = length g" by auto
  from ne show ?thesis
  proof (cases rule: decode_cases)
    case (ascii c0 t)
    then show ?thesis using w by (simp add: seg_rune_def encode_rune_def)
  next
    case (two c0 c1 t)
    then show ?thesis using w encode_two [OF two(2)] by (simp add: seg_rune_def decode2)
  next
    case (three c0 c1 c2 t)
    then show ?thesis using w encode_three [OF three(2)] by (simp add: seg_rune_def decode3)
  next
    case (four c0 c1 c2 c3 t)
    then show ?thesis using w encode_four [OF four(2)] by (simp add: seg_rune_def decode4)
  next
    case (invalid c0 t)
    with assms(2) show ?thesis by (simp add: seg_invalid_def)
  qed
qed

lemma concat_rune_strs: "valid_utf8 s \<Longrightarrow> concat (rune_strs s) = s"
proof -
  assume "valid_utf8 s"
  then have "rune_strs s = segs s"
    by (auto simp: rune_strs_def valid_utf8_def encode_seg map_idI)
  then show ?thesis by simp
qed

lemma encode_length: "encode_rune r \<noteq> []" "length (encode_rune r) \<le> 4"
  by (simp_all add: encode_rune_def)

lemma rune_strs_ascii: "\<forall>c \<in> set s. byte c < 0x80 \<Longrightarrow> rune_strs s = map (\<lambda>c. [c]) s"
  by (auto simp: rune_strs_def segs_ascii seg_rune_def decode_ascii encode_rune_def)

definition scalar :: "nat \<Rightarrow> bool" where
  \<comment> \<open>the values that are runes: no surrogate, nothing past U+10FFFF\<close>
  "scalar r = (r < 0xD800 \<or> 0xDFFF < r \<and> r < 0x110000)"

lemma byte_char_of: "n < 256 \<Longrightarrow> byte (char_of n) = n"
  by simp

lemma decode_encode:
  assumes "scalar r"
  shows "decode_rune (encode_rune r @ s) = (r, length (encode_rune r))"
proof -
  have m64: "n mod 64 < 64" for n :: nat by simp
  have bound: "r < 0x110000" using assms unfolding scalar_def by linarith
  consider "r < 0x80" | "0x80 \<le> r" "r < 0x800" | "0x800 \<le> r" "r < 0x10000"
    | "0x10000 \<le> r" "r < 0x110000"
    using bound by (cases "r < 0x80"; cases "r < 0x800"; cases "r < 0x10000") (simp_all add: not_less)
  then show ?thesis
  proof cases
    case 1
    then show ?thesis by (simp add: encode_rune_def decode_ascii)
  next
    case 2
    define a b where "a = r div 64" and "b = r mod 64"
    have r: "r = a * 64 + b" and ab: "2 \<le> a" "a \<le> 31" "b < 64" using 2 by (auto simp: a_def b_def)
    have e: "encode_rune r = [char_of (0xC0 + a), char_of (0x80 + b)]"
      using 2 by (simp add: encode_rune_def a_def b_def)
    have x: "byte (char_of (0xC0 + a)) = 0xC0 + a" "byte (char_of (0x80 + b)) = 0x80 + b"
      using ab by (simp_all only: byte_char_of)
    have "two_ok (char_of (0xC0 + a)) (char_of (0x80 + b))"
      unfolding two_ok_def second_ok_def cont_byte_def x using ab by auto
    from decode2 [OF this] show ?thesis unfolding e x by (simp add: r)
  next
    case 3
    define a b d where "a = r div 4096" and "b = r div 64 mod 64" and "d = r mod 64"
    have "r div 64 = a * 64 + b" by (simp add: a_def b_def div_mult2_eq [of r 64 64, simplified])
    with div_mult_mod_eq [of r 64] have r: "r = (a * 64 + b) * 64 + d" by (simp only: d_def)
    have ab: "a \<le> 15" "b < 64" "d < 64" using 3 by (auto simp: a_def b_def d_def)
    have r': "r = a * 4096 + b * 64 + d" by (simp add: r)
    have lo: "a = 0 \<Longrightarrow> 32 \<le> b" using 3 ab r' by linarith
    have "a = 13 \<Longrightarrow> r < 0xE000" using ab r' by linarith
    with assms have "a = 13 \<Longrightarrow> r < 0xD800" unfolding scalar_def by fastforce
    then have hi: "a = 13 \<Longrightarrow> b < 32" using r' by fastforce
    have e: "encode_rune r = [char_of (0xE0 + a), char_of (0x80 + b), char_of (0x80 + d)]"
      using 3 assms by (auto simp add: encode_rune_def scalar_def a_def b_def d_def)
    have x: "byte (char_of (0xE0 + a)) = 0xE0 + a" "byte (char_of (0x80 + b)) = 0x80 + b"
        "byte (char_of (0x80 + d)) = 0x80 + d"
      using ab by (simp_all only: byte_char_of)
    have "three_ok (char_of (0xE0 + a)) (char_of (0x80 + b)) (char_of (0x80 + d))"
      unfolding three_ok_def second_ok_def cont_byte_def x using ab lo hi by auto
    from decode3 [OF this] show ?thesis unfolding e x by (simp add: r)
  next
    case 4
    define a b d g where "a = r div 262144" and "b = r div 4096 mod 64" and "d = r div 64 mod 64"
      and "g = r mod 64"
    have "r div 4096 = a * 64 + b" by (simp add: a_def b_def div_mult2_eq [of r 4096 64, simplified])
    moreover have "r div 64 = r div 4096 * 64 + d"
      by (simp add: d_def div_mult2_eq [of r 64 64, simplified])
    ultimately have r: "r = ((a * 64 + b) * 64 + d) * 64 + g"
      using div_mult_mod_eq [of r 64] by (simp only: g_def)
    have ab: "a \<le> 4" "b < 64" "d < 64" "g < 64" using 4 by (auto simp: a_def b_def d_def g_def)
    have r': "r = a * 262144 + b * 4096 + d * 64 + g" by (simp add: r)
    have lo: "a = 0 \<Longrightarrow> 16 \<le> b" using 4 ab r' by linarith
    have hi: "a = 4 \<Longrightarrow> b < 16" using 4 ab r' by linarith
    have e: "encode_rune r = [char_of (0xF0 + a), char_of (0x80 + b), char_of (0x80 + d), char_of (0x80 + g)]"
      using 4 by (simp add: encode_rune_def a_def b_def d_def g_def)
    have x: "byte (char_of (0xF0 + a)) = 0xF0 + a" "byte (char_of (0x80 + b)) = 0x80 + b"
        "byte (char_of (0x80 + d)) = 0x80 + d" "byte (char_of (0x80 + g)) = 0x80 + g"
      using ab by (simp_all only: byte_char_of)
    have "four_ok (char_of (0xF0 + a)) (char_of (0x80 + b)) (char_of (0x80 + d)) (char_of (0x80 + g))"
      unfolding four_ok_def second_ok_def cont_byte_def x using ab lo hi by auto
    from decode4 [OF this] show ?thesis unfolding e x by (simp add: r)
  qed
qed

lemma runes_encode: "\<forall>r \<in> set rs. scalar r \<Longrightarrow> runes (concat (map encode_rune rs)) = rs"
proof (induction rs)
  case (Cons r rs)
  then have d: "decode_rune (encode_rune r @ t) = (r, length (encode_rune r))" for t
    by (simp add: decode_encode)
  have "segs (encode_rune r @ t) = encode_rune r # segs t" for t
    using encode_length(1) [of r] by (simp add: segs_step d)
  moreover have "seg_rune (encode_rune r) = r" using d [of "[]"] by (simp add: seg_rune_def)
  ultimately show ?case using Cons by (simp add: runes_def)
qed (simp add: runes_def)

lemma scalar_decode: "g \<in> set (segs s) \<Longrightarrow> scalar (seg_rune g)"
proof -
  assume "g \<in> set (segs s)"
  then have "g \<noteq> []" using segs_decode by blast
  then show ?thesis
  proof (cases rule: decode_cases)
    case (ascii c0 t)
    then show ?thesis by (simp add: seg_rune_def scalar_def)
  next
    case (two c0 c1 t)
    then show ?thesis
      by (auto simp: seg_rune_def scalar_def decode2 two_ok_def second_ok_def cont_byte_def split: if_splits)
  next
    case (three c0 c1 c2 t)
    have "(byte c0 - 0xE0) * 4096 + (byte c1 - 0x80) * 64 + (byte c2 - 0x80) < 0xD800 \<or>
        0xDFFF < (byte c0 - 0xE0) * 4096 + (byte c1 - 0x80) * 64 + (byte c2 - 0x80)"
    proof (cases "byte c0 \<le> 0xED")
      case True
      then have "byte c0 = 0xED \<or> byte c0 \<le> 0xEC" by auto
      then show ?thesis using three(2)
        by (auto simp: three_ok_def second_ok_def cont_byte_def split: if_splits)
    next
      case False
      then show ?thesis by auto
    qed
    then show ?thesis using three
      by (auto simp: seg_rune_def scalar_def decode3 three_ok_def second_ok_def cont_byte_def split: if_splits)
  next
    case (four c0 c1 c2 c3 t)
    have "byte c0 \<le> 0xF3 \<or> byte c0 = 0xF4 \<and> byte c1 \<le> 0x8F" "byte c1 \<le> 0xBF"
      "0xF0 \<le> byte c0" "0x80 \<le> byte c1" "byte c2 \<le> 0xBF" "byte c3 \<le> 0xBF"
      using four(2) by (auto simp: four_ok_def second_ok_def cont_byte_def split: if_splits)
    moreover have "byte c0 = 0xF0 \<Longrightarrow> 0x90 \<le> byte c1"
      using four(2) by (auto simp: four_ok_def second_ok_def)
    moreover have "0x10000 \<le> (byte c0 - 0xF0) * 262144 + (byte c1 - 0x80) * 4096"
      using calculation by (cases "byte c0 = 0xF0") auto
    ultimately show ?thesis using four(1) decode4 [OF four(2)]
      by (auto simp: seg_rune_def scalar_def)
  next
    case (invalid c0 t)
    then show ?thesis by (simp add: seg_rune_def scalar_def rune_error_def)
  qed
qed

section \<open>Upper case\<close>

text \<open>
  \<open>unicode.ToUpper\<close> on Latin-1 and Latin Extended-A, which is where the cased letters of the
  program's languages are and the only place where a rune outside ASCII has an ASCII capital (the
  dotless i and the long s). A rune past U+017F is kept.
\<close>

definition upper_rune :: "nat \<Rightarrow> nat" where
  "upper_rune r =
     (if 0x61 \<le> r \<and> r \<le> 0x7A then r - 32
      else if r = 0xB5 then 0x39C
      else if 0xE0 \<le> r \<and> r \<le> 0xFE \<and> r \<noteq> 0xF7 then r - 32
      else if r = 0xFF then 0x178
      else if r = 0x131 then 0x49
      else if r = 0x17F then 0x53
      else if (0x100 \<le> r \<and> r \<le> 0x137 \<or> 0x14A \<le> r \<and> r \<le> 0x177) \<and> odd r then r - 1
      else if (0x139 \<le> r \<and> r \<le> 0x148 \<or> 0x179 \<le> r \<and> r \<le> 0x17E) \<and> even r then r - 1
      else r)"

definition go_upper :: "string \<Rightarrow> string" where
  \<comment> \<open>\<open>strings.ToUpper\<close>; an invalid byte becomes U+FFFD as in \<open>strings.Map\<close>\<close>
  "go_upper s = concat (map (encode_rune \<circ> upper_rune) (runes s))"

lemma scalar_if: "(c \<Longrightarrow> scalar a) \<Longrightarrow> (\<not> c \<Longrightarrow> scalar b) \<Longrightarrow> scalar (if c then a else b)"
  by simp

lemma scalar_upper: "scalar r \<Longrightarrow> scalar (upper_rune r)"
  unfolding upper_rune_def by (intro scalar_if) (auto simp: scalar_def)

lemma runes_go_upper: "runes (go_upper s) = map upper_rune (runes s)"
proof -
  have "\<forall>r \<in> set (map upper_rune (runes s)). scalar r"
    using scalar_decode scalar_upper by (auto simp: runes_def)
  from runes_encode [OF this] show ?thesis by (simp add: go_upper_def comp_assoc)
qed

lemma trim_space_ascii:
  assumes "\<forall>c \<in> set s. byte c < 0x80"
  shows "trim_space s = rev (dropWhile (\<lambda>c. is_space_rune (byte c)) (rev (dropWhile (\<lambda>c. is_space_rune (byte c)) s)))"
proof -
  have d: "dropWhile seg_space (map (\<lambda>c. [c]) xs) = map (\<lambda>c. [c]) (dropWhile (\<lambda>c. is_space_rune (byte c)) xs)"
    if "\<forall>c \<in> set xs. byte c < 0x80" for xs
    using that by (induction xs) (auto simp: seg_space_def seg_rune_def decode_ascii)
  have "\<forall>c \<in> set (rev (dropWhile (\<lambda>c. is_space_rune (byte c)) s)). byte c < 0x80"
    using assms by (auto dest: set_dropWhileD)
  from d [OF this] d [OF assms] show ?thesis
    by (simp add: trim_space_def segs_ascii [OF assms] rev_map)
qed

lemma trim_space_Nil [simp]: "trim_space [] = []"
  by (simp add: trim_space_def)

lemma go_fields_Nil [simp]: "go_fields [] = []"
  by (simp add: go_fields_def fields_func_def)

lemma go_fields_ascii:
  assumes "\<forall>c \<in> set s. byte c < 0x80"
  shows "go_fields s = fields_func (\<lambda>c. is_space_rune (byte c)) s"
proof -
  have "map concat (fields_acc seg_space (map (\<lambda>c. [c]) acc) (map (\<lambda>c. [c]) t)) =
      fields_acc (\<lambda>c. is_space_rune (byte c)) acc t" if "\<forall>c \<in> set t. byte c < 0x80" for acc t
    using that
  proof (induction t arbitrary: acc)
    case (Cons c t)
    then show ?case using Cons.IH [of "[]"] Cons.IH [of "acc @ [c]"]
      by (simp add: seg_space_def seg_rune_def decode_ascii)
  qed simp
  from this [OF assms, of "[]"] show ?thesis by (simp add: go_fields_def fields_func_def segs_ascii [OF assms])
qed

end
