(* ===== verification/Irc_Parse.thy ===== *)
theory Irc_Parse
  imports Go_Utf8
begin

text \<open>
  internal/irc/parse.go and numerics.go: the three regular expressions of the line parser as the
  searches they stand for (leftmost-first, lazy and greedy quantifiers as package regexp resolves
  them), \<open>parse_line\<close>, \<open>parse_prefix\<close>, \<open>split_params\<close>, and the byte framing of \<open>LineBuffer\<close>. A
  character class decides on ASCII bytes only, so matching bytes is matching runes.
\<close>

section \<open>Numerics\<close>

definition numerics :: "(string \<times> string) list" where
  "numerics =
   [(''001'', ''RPL_WELCOME''),
    (''200'', ''RPL_TRACELINK''),
    (''201'', ''RPL_TRACECONNECTING''),
    (''202'', ''RPL_TRACEHANDSHAKE''),
    (''203'', ''RPL_TRACEUNKNOWN''),
    (''204'', ''RPL_TRACEOPERATOR''),
    (''205'', ''RPL_TRACEUSER''),
    (''206'', ''RPL_TRACESERVER''),
    (''208'', ''RPL_TRACENEWTYPE''),
    (''211'', ''RPL_STATSLINKINFO''),
    (''212'', ''RPL_STATSCOMMANDS''),
    (''213'', ''RPL_STATSCLINE''),
    (''214'', ''RPL_STATSNLINE''),
    (''215'', ''RPL_STATSILINE''),
    (''216'', ''RPL_STATSKLINE''),
    (''218'', ''RPL_STATSYLINE''),
    (''219'', ''RPL_ENDOFSTATS''),
    (''221'', ''RPL_UMODEIS''),
    (''241'', ''RPL_STATSLLINE''),
    (''242'', ''RPL_STATSUPTIME''),
    (''243'', ''RPL_STATSOLINE''),
    (''244'', ''RPL_STATSHLINE''),
    (''251'', ''RPL_LUSERCLIENT''),
    (''252'', ''RPL_LUSEROP''),
    (''253'', ''RPL_LUSERUNKNOWN''),
    (''254'', ''RPL_LUSERCHANNELS''),
    (''255'', ''RPL_LUSERME''),
    (''256'', ''RPL_ADMINME''),
    (''257'', ''RPL_ADMINLOC1''),
    (''258'', ''RPL_ADMINLOC2''),
    (''259'', ''RPL_ADMINEMAIL''),
    (''261'', ''RPL_TRACELOG''),
    (''300'', ''RPL_NONE''),
    (''301'', ''RPL_AWAY''),
    (''302'', ''RPL_USERHOST''),
    (''303'', ''RPL_ISON''),
    (''305'', ''RPL_UNAWAY''),
    (''306'', ''RPL_NOWAWAY''),
    (''311'', ''RPL_WHOISUSER''),
    (''312'', ''RPL_WHOISSERVER''),
    (''313'', ''RPL_WHOISOPERATOR''),
    (''314'', ''RPL_WHOWASUSER''),
    (''315'', ''RPL_ENDOFWHO''),
    (''317'', ''RPL_WHOISIDLE''),
    (''318'', ''RPL_ENDOFWHOIS''),
    (''319'', ''RPL_WHOISCHANNELS''),
    (''321'', ''RPL_LISTSTART''),
    (''322'', ''RPL_LIST''),
    (''323'', ''RPL_LISTEND''),
    (''324'', ''RPL_CHANNELMODEIS''),
    (''331'', ''RPL_NOTOPIC''),
    (''332'', ''RPL_TOPIC''),
    (''341'', ''RPL_INVITING''),
    (''342'', ''RPL_SUMMONING''),
    (''351'', ''RPL_VERSION''),
    (''352'', ''RPL_WHOREPLY''),
    (''353'', ''RPL_NAMREPLY''),
    (''364'', ''RPL_LINKS''),
    (''365'', ''RPL_ENDOFLINKS''),
    (''366'', ''RPL_ENDOFNAMES''),
    (''367'', ''RPL_BANLIST''),
    (''368'', ''RPL_ENDOFBANLIST''),
    (''369'', ''RPL_ENDOFWHOWAS''),
    (''371'', ''RPL_INFO''),
    (''372'', ''RPL_MOTD''),
    (''374'', ''RPL_ENDOFINFO''),
    (''375'', ''RPL_MOTDSTART''),
    (''376'', ''RPL_ENDOFMOTD''),
    (''381'', ''RPL_YOUREOPER''),
    (''382'', ''RPL_REHASHING''),
    (''391'', ''RPL_TIME''),
    (''392'', ''RPL_USERSSTART''),
    (''393'', ''RPL_USERS''),
    (''394'', ''RPL_ENDOFUSERS''),
    (''395'', ''RPL_NOUSERS''),
    (''401'', ''ERR_NOSUCHNICK''),
    (''402'', ''ERR_NOSUCHSERVER''),
    (''403'', ''ERR_NOSUCHCHANNEL''),
    (''404'', ''ERR_CANNOTSENDTOCHAN''),
    (''405'', ''ERR_TOOMANYCHANNELS''),
    (''406'', ''ERR_WASNOSUCHNICK''),
    (''407'', ''ERR_TOOMANYTARGETS''),
    (''409'', ''ERR_NOORIGIN''),
    (''411'', ''ERR_NORECIPIENT''),
    (''412'', ''ERR_NOTEXTTOSEND''),
    (''413'', ''ERR_NOTOPLEVEL''),
    (''414'', ''ERR_WILDTOPLEVEL''),
    (''421'', ''ERR_UNKNOWNCOMMAND''),
    (''422'', ''ERR_NOMOTD''),
    (''423'', ''ERR_NOADMININFO''),
    (''424'', ''ERR_FILEERROR''),
    (''431'', ''ERR_NONICKNAMEGIVEN''),
    (''432'', ''ERR_ERRONEUSNICKNAME''),
    (''433'', ''ERR_NICKNAMEINUSE''),
    (''436'', ''ERR_NICKCOLLISION''),
    (''441'', ''ERR_USERNOTINCHANNEL''),
    (''442'', ''ERR_NOTONCHANNEL''),
    (''443'', ''ERR_USERONCHANNEL''),
    (''444'', ''ERR_NOLOGIN''),
    (''445'', ''ERR_SUMMONDISABLED''),
    (''446'', ''ERR_USERSDISABLED''),
    (''451'', ''ERR_NOTREGISTERED''),
    (''461'', ''ERR_NEEDMOREPARAMS''),
    (''462'', ''ERR_ALREADYREGISTRED''),
    (''463'', ''ERR_NOPERMFORHOST''),
    (''464'', ''ERR_PASSWDMISMATCH''),
    (''465'', ''ERR_YOUREBANNEDCREEP''),
    (''467'', ''ERR_KEYSET''),
    (''471'', ''ERR_CHANNELISFULL''),
    (''472'', ''ERR_UNKNOWNMODE''),
    (''473'', ''ERR_INVITEONLYCHAN''),
    (''474'', ''ERR_BANNEDFROMCHAN''),
    (''475'', ''ERR_BADCHANNELKEY''),
    (''481'', ''ERR_NOPRIVILEGES''),
    (''482'', ''ERR_CHANOPRIVSNEEDED''),
    (''483'', ''ERR_CANTKILLSERVER''),
    (''491'', ''ERR_NOOPERHOST''),
    (''501'', ''ERR_UMODEUNKNOWNFLAG''),
    (''502'', ''ERR_USERSDONTMATCH'')]"

section \<open>Lines\<close>

record irc_line =
  l_prefix :: string
  l_cmd :: string
  l_name :: string
  l_code :: string
  l_params :: string

definition no_newline :: "string \<Rightarrow> bool" where
  "no_newline s = (CHR 0x0A \<notin> set s)"

text \<open>
  \<open>(?:\s+(.+))?$\<close> on what follows the command: nothing at all, or the longest run of blanks that
  leaves a non-empty rest without a newline.
\<close>

definition params_of :: "string \<Rightarrow> string option" where
  "params_of r =
     (if r = [] then Some []
      else map_option (\<lambda>k. drop k r)
        (find (\<lambda>k. drop k r \<noteq> [] \<and> no_newline (drop k r))
           (rev [1..<Suc (length (takeWhile is_ws r))])))"

definition match_cmd :: "string \<Rightarrow> (string \<times> string) option" where
  "match_cmd s =
     (let c = takeWhile (\<lambda>x. \<not> is_ws x) s in
      if c = [] then None
      else map_option (\<lambda>p. (c, p)) (params_of (dropWhile (\<lambda>x. \<not> is_ws x) s)))"

text \<open>\<open>^(?::(\S+)\s+)?(\S+)(?:\s+(.+))?$\<close>: the prefix group is tried first.\<close>

definition match_prefixed :: "string \<Rightarrow> (string \<times> string \<times> string) option" where
  "match_prefixed s =
     (case s of
        c # t \<Rightarrow>
          if c = CHR '':'' then
            (let p = takeWhile (\<lambda>x. \<not> is_ws x) t; r = dropWhile (\<lambda>x. \<not> is_ws x) t in
             if p = [] \<or> r = [] then None
             else map_option (\<lambda>(c, ps). (p, c, ps)) (match_cmd (dropWhile is_ws r)))
          else None
      | [] \<Rightarrow> None)"

definition match_line :: "string \<Rightarrow> (string \<times> string \<times> string) option" where
  "match_line s =
     (case match_prefixed s of
        Some m \<Rightarrow> Some m
      | None \<Rightarrow> map_option (\<lambda>(c, ps). ([], c, ps)) (match_cmd s))"

text \<open>\<open>^(?:\d\d\d|[a-zA-Z]+)$\<close>\<close>

definition cmd_ok :: "string \<Rightarrow> bool" where
  "cmd_ok c = ((length c = 3 \<and> list_all is_digit c)
     \<or> (c \<noteq> [] \<and> list_all (\<lambda>x. is_upper x \<or> is_lower x) c))"

definition parse_line :: "string \<Rightarrow> irc_line option" where
  "parse_line s =
     (case match_line s of
        None \<Rightarrow> None
      | Some (p, c, ps) \<Rightarrow>
          if \<not> cmd_ok c then None
          else if is_digit (hd c) then
            Some \<lparr>l_prefix = p, l_cmd = c,
                  l_name = (case map_of numerics c of Some n \<Rightarrow> n | None \<Rightarrow> c),
                  l_code = c, l_params = ps\<rparr>
          else Some \<lparr>l_prefix = p, l_cmd = c, l_name = c, l_code = [], l_params = ps\<rparr>)"

section \<open>Prefixes\<close>

text \<open>
  \<open>^(.+?)(?:!(.+?))?(?:@(.+?))?$\<close>: the shortest nick, then the shortest user, for which the rest
  of the pattern matches up to the end.
\<close>

fun first_some :: "('a \<Rightarrow> 'b option) \<Rightarrow> 'a list \<Rightarrow> 'b option" where
  "first_some f [] = None"
| "first_some f (x # xs) = (case f x of Some y \<Rightarrow> Some y | None \<Rightarrow> first_some f xs)"

definition match_host :: "string \<Rightarrow> string option" where
  "match_host r =
     (case r of
        [] \<Rightarrow> Some []
      | c # h \<Rightarrow> if c = CHR ''@'' \<and> h \<noteq> [] \<and> no_newline h then Some h else None)"

definition match_user :: "string \<Rightarrow> (string \<times> string) option" where
  "match_user r =
     first_some (\<lambda>k. if no_newline (take k r) then map_option (\<lambda>h. (take k r, h)) (match_host (drop k r))
                     else None)
       [1..<Suc (length r)]"

definition match_after_nick :: "string \<Rightarrow> (string \<times> string) option" where
  "match_after_nick r =
     (case (if has_prefix ''!'' r then match_user (drop 1 r) else None) of
        Some uh \<Rightarrow> Some uh
      | None \<Rightarrow> map_option (\<lambda>h. ([], h)) (match_host r))"

definition parse_prefix :: "string \<Rightarrow> string \<times> string \<times> string" where
  "parse_prefix s =
     (case first_some (\<lambda>k. if no_newline (take k s)
                            then map_option (\<lambda>(u, h). (take k s, u, h)) (match_after_nick (drop k s))
                            else None)
             [1..<Suc (length s)] of
        Some r \<Rightarrow> r
      | None \<Rightarrow> ([], [], []))"

section \<open>Parameters\<close>

definition middle_char :: "char \<Rightarrow> bool" where
  "middle_char c = (\<not> is_ws c \<and> c \<noteq> CHR '':'')"

text \<open>\<open>^\s*([^\s:]+)\s+\<close>: the middle and what follows the match.\<close>

definition match_middle :: "string \<Rightarrow> (string \<times> string) option" where
  "match_middle s =
     (let t = dropWhile is_ws s; m = takeWhile middle_char t; r = dropWhile middle_char t in
      if m = [] \<or> r = [] \<or> \<not> is_ws (hd r) then None
      else Some (m, dropWhile is_ws r))"

lemma match_middle_shorter:
  assumes "match_middle s = Some (m, r)"
  shows "length r < length s"
proof -
  let ?t = "dropWhile is_ws s"
  have m: "m = takeWhile middle_char ?t" "m \<noteq> []" and r: "r = dropWhile is_ws (dropWhile middle_char ?t)"
    using assms by (auto simp: match_middle_def split: if_splits)
  have "length r \<le> length (dropWhile middle_char ?t)"
    using r by (simp add: length_dropWhile_le)
  also have "\<dots> < length ?t"
    using m by (metis add_diff_cancel_left' diff_less length_append length_greater_0_conv
        less_add_same_cancel2 takeWhile_dropWhile_id)
  also have "\<dots> \<le> length s" by (rule length_dropWhile_le)
  finally show ?thesis .
qed

function split_params :: "string \<Rightarrow> string list" where
  "split_params s =
     (case match_middle s of
        Some (m, r) \<Rightarrow> m # split_params r
      | None \<Rightarrow> if s \<noteq> [] then [trim_prefix '':'' s] else [])"
  by pat_completeness auto
termination
  by (relation "measure length") (auto dest: match_middle_shorter)

declare split_params.simps [simp del]

section \<open>Framing\<close>

text \<open>
  \<open>LineBuffer\<close>: the buffer is the state; \<open>feed\<close> appends and takes every complete line off it.
\<close>

definition strip_cr :: "string \<Rightarrow> string" where
  "strip_cr l = (if l \<noteq> [] \<and> last l = CHR 0x0D then butlast l else l)"

definition frame :: "string \<Rightarrow> string list" where
  \<comment> \<open>what one complete line contributes\<close>
  "frame l = (let l' = strip_cr l in if l' = [] then [] else [to_valid_utf8 l'])"

function take_lines :: "string \<Rightarrow> string list \<times> string" where
  "take_lines buf =
     (if CHR 0x0A \<notin> set buf then ([], buf)
      else (let (ls, rest) = take_lines (drop 1 (dropWhile (\<lambda>c. c \<noteq> CHR 0x0A) buf))
            in (frame (takeWhile (\<lambda>c. c \<noteq> CHR 0x0A) buf) @ ls, rest)))"
  by pat_completeness auto
termination
proof (relation "measure length")
  fix buf :: string
  assume "\<not> CHR 0x0A \<notin> set buf"
  then have "dropWhile (\<lambda>c. c \<noteq> CHR 0x0A) buf \<noteq> []" by (auto simp: dropWhile_eq_Nil_conv)
  then have "length (drop 1 (dropWhile (\<lambda>c. c \<noteq> CHR 0x0A) buf)) < length (dropWhile (\<lambda>c. c \<noteq> CHR 0x0A) buf)"
    by simp
  then show "(drop 1 (dropWhile (\<lambda>c. c \<noteq> CHR 0x0A) buf), buf) \<in> measure length"
    using length_dropWhile_le [of "\<lambda>c. c \<noteq> CHR 0x0A" buf] by simp
qed simp

declare take_lines.simps [simp del]

definition feed :: "string \<Rightarrow> string \<Rightarrow> string list \<times> string" where
  "feed buf data = take_lines (buf @ data)"

fun feed_all :: "string \<Rightarrow> string list \<Rightarrow> string list \<times> string" where
  "feed_all buf [] = ([], buf)"
| "feed_all buf (d # ds) =
     (let (ls, buf') = feed buf d; (ls', buf'') = feed_all buf' ds in (ls @ ls', buf''))"

lemma take_lines_none: "CHR 0x0A \<notin> set buf \<Longrightarrow> take_lines buf = ([], buf)"
  by (subst take_lines.simps) simp

lemma take_lines_step:
  "CHR 0x0A \<notin> set l \<Longrightarrow>
   take_lines (l @ CHR 0x0A # r) = (frame l @ fst (take_lines r), snd (take_lines r))"
  by (subst take_lines.simps) (simp add: span_sep case_prod_beta')

lemma newline_split: "CHR 0x0A \<in> set s \<Longrightarrow> \<exists>l r. s = l @ CHR 0x0A # r \<and> CHR 0x0A \<notin> set l"
  by (rule split_list_first)

lemma take_lines_rest: "CHR 0x0A \<notin> set (snd (take_lines s))"
proof (induction s rule: length_induct)
  case (1 s)
  show ?case
  proof (cases "CHR 0x0A \<in> set s")
    case True
    then obtain l r where "s = l @ CHR 0x0A # r" "CHR 0x0A \<notin> set l" using newline_split by blast
    with "1.IH" show ?thesis by (simp add: take_lines_step)
  qed (simp add: take_lines_none)
qed

lemma take_lines_append:
  "take_lines (s @ t) =
     (fst (take_lines s) @ fst (take_lines (snd (take_lines s) @ t)),
      snd (take_lines (snd (take_lines s) @ t)))"
proof (induction s rule: length_induct)
  case (1 s)
  show ?case
  proof (cases "CHR 0x0A \<in> set s")
    case True
    then obtain l r where s: "s = l @ CHR 0x0A # r" "CHR 0x0A \<notin> set l" using newline_split by blast
    then have "take_lines (r @ t) =
      (fst (take_lines r) @ fst (take_lines (snd (take_lines r) @ t)),
       snd (take_lines (snd (take_lines r) @ t)))"
      using "1.IH" by simp
    with s show ?thesis by (simp add: take_lines_step)
  qed (simp add: take_lines_none)
qed

text \<open>The lines of a whole stream, read off its newlines.\<close>

definition stream_lines :: "string \<Rightarrow> string list" where
  "stream_lines s = concat (map frame (butlast (split_on (CHR 0x0A) s)))"

lemma take_lines_spec:
  "take_lines s = (stream_lines s, last (split_on (CHR 0x0A) s))"
proof (induction s rule: length_induct)
  case (1 s)
  show ?case
  proof (cases "CHR 0x0A \<in> set s")
    case True
    then obtain l r where s: "s = l @ CHR 0x0A # r" "CHR 0x0A \<notin> set l" using newline_split by blast
    with "1.IH" have "take_lines r = (stream_lines r, last (split_on (CHR 0x0A) r))" by simp
    with s show ?thesis
      by (simp add: take_lines_step split_on_append_sep split_on_id stream_lines_def butlast_append)
  qed (simp add: take_lines_none stream_lines_def split_on_id)
qed

text \<open>
  C15. Framing does not depend on how the stream is cut into reads: feeding any chunks, also ones
  that split a line, its CR LF or a UTF-8 sequence, gives exactly the non-empty lines of the whole
  stream, in order, and keeps exactly the bytes after the last newline.
\<close>

theorem feed_chunking:
  "feed_all [] chunks =
     (stream_lines (concat chunks), last (split_on (CHR 0x0A) (concat chunks)))"
proof -
  have "feed_all buf ds = take_lines (buf @ concat ds)" if "CHR 0x0A \<notin> set buf" for buf ds
    using that
  proof (induction ds arbitrary: buf)
    case Nil
    then show ?case by (simp add: take_lines_none)
  next
    case (Cons d ds)
    note take_lines_append [of "buf @ d" "concat ds"]
    with Cons.IH [OF take_lines_rest [of "buf @ d"]] show ?case
      by (simp add: feed_def case_prod_beta')
  qed
  from this [of "[]" chunks] show ?thesis by (simp add: take_lines_spec)
qed

section \<open>Printing and parsing back\<close>

definition print_params :: "string list \<Rightarrow> string \<Rightarrow> string" where
  "print_params middles trailing = concat (map (\<lambda>m. m @ '' '') middles) @ '':'' @ trailing"

definition print_line :: "string \<Rightarrow> string \<Rightarrow> string list \<Rightarrow> string \<Rightarrow> string" where
  "print_line prefix cmd middles trailing =
     (if prefix = [] then [] else '':'' @ prefix @ '' '') @ cmd @ '' '' @ print_params middles trailing"

definition middle_ok :: "string \<Rightarrow> bool" where
  "middle_ok m = (m \<noteq> [] \<and> list_all middle_char m)"

lemma blank_ws [simp]: "is_ws CHR '' ''" "\<not> is_ws CHR '':''" "\<not> middle_char CHR '' ''" "\<not> middle_char CHR '':''"
  by (simp_all add: is_ws_def middle_char_def)

lemma middle_not_ws: "middle_char c \<Longrightarrow> \<not> is_ws c"
  by (simp add: middle_char_def)

lemma dropWhile_ws_middle: "middle_ok m \<Longrightarrow> dropWhile is_ws (m @ s) = m @ s"
  by (cases m) (auto simp: middle_ok_def middle_char_def)

lemma match_middle_ok:
  assumes "middle_ok m" and "s = [] \<or> \<not> is_ws (hd s)"
  shows "match_middle (m @ '' '' @ s) = Some (m, s)"
proof -
  have "\<forall>x \<in> set m. middle_char x" using assms(1) by (simp add: middle_ok_def list_all_iff)
  then have "takeWhile middle_char (m @ '' '' @ s) = m" "dropWhile middle_char (m @ '' '' @ s) = '' '' @ s"
    by (simp_all add: takeWhile_append2 dropWhile_append2)
  moreover have "dropWhile is_ws s = s" using assms(2) by (cases s) auto
  ultimately show ?thesis
    using assms(1) dropWhile_ws_middle [OF assms(1), of "'' '' @ s"]
    by (simp add: match_middle_def middle_ok_def)
qed

lemma print_params_hd: "list_all middle_ok ms \<Longrightarrow> \<not> is_ws (hd (print_params ms t))"
  by (cases ms) (auto simp: print_params_def middle_ok_def middle_char_def neq_Nil_conv)

lemma split_params_print:
  "list_all middle_ok ms \<Longrightarrow> split_params (print_params ms t) = ms @ [t]"
proof (induction ms)
  case Nil
  have "match_middle ('':'' @ t) = None" by (simp add: match_middle_def)
  then show ?case by (subst split_params.simps) (simp add: print_params_def trim_prefix_def has_prefix_def)
next
  case (Cons m ms)
  have "print_params (m # ms) t = m @ '' '' @ print_params ms t" by (simp add: print_params_def)
  moreover have "match_middle (m @ '' '' @ print_params ms t) = Some (m, print_params ms t)"
    using Cons.prems print_params_hd by (intro match_middle_ok) auto
  ultimately show ?case
    using Cons by (subst split_params.simps) simp
qed

lemma takeWhile_not_ws: "list_all (\<lambda>x. \<not> is_ws x) c \<Longrightarrow>
    takeWhile (\<lambda>x. \<not> is_ws x) (c @ '' '' @ s) = c \<and> dropWhile (\<lambda>x. \<not> is_ws x) (c @ '' '' @ s) = '' '' @ s"
  by (simp add: takeWhile_append2 dropWhile_append2 list_all_iff)

lemma cmd_ok_not_ws: "cmd_ok c \<Longrightarrow> c \<noteq> [] \<and> list_all (\<lambda>x. \<not> is_ws x) c"
  by (auto simp: cmd_ok_def list_all_iff is_ws_def is_digit_def is_upper_def is_lower_def less_eq_char_def)

lemma match_cmd_print:
  assumes "c \<noteq> []" and "list_all (\<lambda>x. \<not> is_ws x) c" and "ps \<noteq> []" and "\<not> is_ws (hd ps)" and "no_newline ps"
  shows "match_cmd (c @ '' '' @ ps) = Some (c, ps)"
proof -
  have "takeWhile is_ws ('' '' @ ps) = '' ''" using assms(3,4) by (cases ps) auto
  then have "params_of ('' '' @ ps) = Some ps" using assms(3,5) by (simp add: params_of_def)
  then show ?thesis using takeWhile_not_ws [OF assms(2), of ps] assms(1) by (simp add: match_cmd_def)
qed

lemma parse_print:
  assumes "list_all (\<lambda>x. \<not> is_ws x) prefix" and "cmd_ok cmd"
    and "list_all middle_ok middles" and "no_newline trailing"
  shows "\<exists>l. parse_line (print_line prefix cmd middles trailing) = Some l \<and>
    l_prefix l = prefix \<and> l_cmd l = cmd \<and> split_params (l_params l) = middles @ [trailing]"
proof -
  let ?ps = "print_params middles trailing"
  have c: "cmd \<noteq> []" "list_all (\<lambda>x. \<not> is_ws x) cmd" using cmd_ok_not_ws [OF assms(2)] by auto
  have nl: "no_newline ?ps"
    using assms(3,4) by (auto simp: no_newline_def print_params_def middle_ok_def middle_char_def
        is_ws_def list_all_iff)
  have m: "match_cmd (cmd @ '' '' @ ?ps) = Some (cmd, ?ps)"
    by (rule match_cmd_print [OF c _ print_params_hd [OF assms(3)] nl]) (simp add: print_params_def)
  have "match_line (print_line prefix cmd middles trailing) = Some (prefix, cmd, ?ps)"
  proof (cases "prefix = []")
    case True
    have "hd cmd \<noteq> CHR '':''" using assms(2) c(1)
      by (cases cmd) (auto simp: cmd_ok_def is_digit_def is_upper_def is_lower_def less_eq_char_def)
    then have "match_prefixed (cmd @ '' '' @ ?ps) = None"
      using c(1) by (cases cmd) (auto simp: match_prefixed_def)
    then show ?thesis using True m by (simp add: match_line_def print_line_def)
  next
    case False
    have "dropWhile is_ws ('' '' @ cmd @ '' '' @ ?ps) = cmd @ '' '' @ ?ps"
      using c by (cases cmd) auto
    then have "match_prefixed ('':'' @ prefix @ '' '' @ cmd @ '' '' @ ?ps) = Some (prefix, cmd, ?ps)"
      using False m takeWhile_not_ws [OF assms(1), of "cmd @ '' '' @ ?ps"] by (simp add: match_prefixed_def)
    then show ?thesis using False by (simp add: match_line_def print_line_def)
  qed
  then show ?thesis
    using assms(2) split_params_print [OF assms(3)] by (auto simp: parse_line_def)
qed

text \<open>
  A line in protocol form is read back: an optional prefix, a command of letters or three
  digits, middles without blanks or colons and any trailing parameter without a newline give the
  same prefix and command, and \<open>split_params\<close> gives the middles followed by the trailing.
\<close>

theorem parse_print_line:
  assumes "list_all (\<lambda>x. \<not> is_ws x) prefix" and "cmd_ok cmd"
    and "list_all middle_ok middles" and "no_newline trailing"
  shows "\<exists>l. parse_line (print_line prefix cmd middles trailing) = Some l \<and>
    l_prefix l = prefix \<and> l_cmd l = cmd \<and> split_params (l_params l) = middles @ [trailing]"
  using assms by (rule parse_print)

theorem parse_print_line_witness:
  "\<exists>l. parse_line (print_line ''nick!u@h'' ''PRIVMSG'' [''#chan''] ''hi: there'') = Some l \<and>
    l_prefix l = ''nick!u@h'' \<and> l_cmd l = ''PRIVMSG'' \<and> split_params (l_params l) = [''#chan''] @ [''hi: there'']"
  by (rule parse_print_line) code_simp+

lemma first_some_first:
  "k < length xs \<Longrightarrow> f (xs ! k) = Some y \<Longrightarrow> \<forall>i < k. f (xs ! i) = None \<Longrightarrow> first_some f xs = Some y"
proof (induction xs arbitrary: k)
  case (Cons x xs)
  show ?case
  proof (cases k)
    case (Suc j)
    with Cons.prems have "f x = None" and "\<forall>i < j. f (xs ! i) = None" by force+
    with Suc Cons show ?thesis by simp
  qed (use Cons.prems in simp)
qed simp

lemma no_newline_append [simp]: "no_newline (s @ t) = (no_newline s \<and> no_newline t)"
  by (auto simp: no_newline_def)

lemma no_newline_take [simp]: "no_newline s \<Longrightarrow> no_newline (take k s)"
  by (auto simp: no_newline_def dest: in_set_takeD)

lemma drop_into: "k < length n \<Longrightarrow> \<exists>c t. c \<in> set n \<and> drop k (n @ s) = c # t"
  by (metis append_Cons append_eq_append_conv_if drop_append Cons_nth_drop_Suc nth_mem)

lemma match_user_print:
  assumes "user \<noteq> []" and "CHR ''@'' \<notin> set user" and "no_newline user"
    and "host \<noteq> []" and "no_newline host"
  shows "match_user (user @ ''@'' @ host) = Some (user, host)"
  unfolding match_user_def
proof (rule first_some_first [where k = "length user - 1"])
  show "\<forall>i < length user - 1. (if no_newline (take ([1..<Suc (length (user @ ''@'' @ host))] ! i) (user @ ''@'' @ host))
      then map_option (\<lambda>h. (take ([1..<Suc (length (user @ ''@'' @ host))] ! i) (user @ ''@'' @ host), h))
        (match_host (drop ([1..<Suc (length (user @ ''@'' @ host))] ! i) (user @ ''@'' @ host))) else None) = None"
  proof (intro allI impI)
    fix i assume "i < length user - 1"
    then obtain c t where "c \<in> set user" "drop (Suc i) (user @ ''@'' @ host) = c # t"
      using drop_into [of "Suc i" user] by fastforce
    moreover from this have "match_host (c # t) = None" using assms(2) by (auto simp: match_host_def)
    ultimately show "(if no_newline (take ([1..<Suc (length (user @ ''@'' @ host))] ! i) (user @ ''@'' @ host))
      then map_option (\<lambda>h. (take ([1..<Suc (length (user @ ''@'' @ host))] ! i) (user @ ''@'' @ host), h))
        (match_host (drop ([1..<Suc (length (user @ ''@'' @ host))] ! i) (user @ ''@'' @ host))) else None) = None"
      using \<open>i < length user - 1\<close> by (simp del: upt_Suc drop_append)
  qed
qed (use assms in \<open>auto simp: match_host_def simp del: upt_Suc\<close>)

lemma match_after_nick_inside:
  "c \<noteq> CHR ''!'' \<Longrightarrow> c \<noteq> CHR ''@'' \<Longrightarrow> match_after_nick (c # t) = None"
  by (simp add: match_after_nick_def match_host_def has_prefix_def)

lemma parse_prefix_at:
  assumes "nick \<noteq> []" and "CHR ''!'' \<notin> set nick" and "CHR ''@'' \<notin> set nick" and "no_newline nick"
    and "match_after_nick rest = Some (u, h)"
  shows "parse_prefix (nick @ rest) = (nick, u, h)"
proof -
  let ?f = "\<lambda>k. if no_newline (take k (nick @ rest))
     then map_option (\<lambda>(u, h). (take k (nick @ rest), u, h)) (match_after_nick (drop k (nick @ rest))) else None"
  have none: "?f k = None" if "k < length nick" for k
  proof -
    from drop_into [OF that, of rest] obtain c t where "c \<in> set nick" "drop k (nick @ rest) = c # t" by blast
    then show ?thesis using assms(2,3) match_after_nick_inside [of c t] by (auto simp del: drop_append)
  qed
  have "first_some ?f [1..<Suc (length (nick @ rest))] = Some (nick, u, h)"
  proof (rule first_some_first [where k = "length nick - 1"])
    show "\<forall>i < length nick - 1. ?f ([1..<Suc (length (nick @ rest))] ! i) = None"
    proof (intro allI impI)
      fix i assume i: "i < length nick - 1"
      then have e: "[1..<Suc (length (nick @ rest))] ! i = Suc i" by (simp del: upt_Suc)
      show "?f ([1..<Suc (length (nick @ rest))] ! i) = None"
        unfolding e by (rule none) (use i in simp)
    qed
  next
    have e: "[1..<Suc (length (nick @ rest))] ! (length nick - 1) = length nick"
      using assms(1) by (cases nick) (simp_all del: upt_Suc)
    show "?f ([1..<Suc (length (nick @ rest))] ! (length nick - 1)) = Some (nick, u, h)"
      unfolding e using assms(4,5) by simp
    show "length nick - 1 < length [1..<Suc (length (nick @ rest))]"
      using assms(1) by (cases nick) (simp_all del: upt_Suc)
  qed
  then show ?thesis by (simp add: parse_prefix_def del: upt_Suc)
qed

text \<open>
  A sender prefix in protocol form is taken apart: a nick without \<open>!\<close> or \<open>@\<close>, a user without
  \<open>@\<close> and a host, none of them empty or with a newline, are read back from \<open>nick!user@host\<close>.
\<close>

theorem parse_prefix_roundtrip:
  assumes "nick \<noteq> []" and "CHR ''!'' \<notin> set nick" and "CHR ''@'' \<notin> set nick" and "no_newline nick"
    and "user \<noteq> []" and "CHR ''@'' \<notin> set user" and "no_newline user"
    and "host \<noteq> []" and "no_newline host"
  shows "parse_prefix (nick @ ''!'' @ user @ ''@'' @ host) = (nick, user, host) \<and>
    parse_prefix nick = (nick, [], [])"
proof -
  have "match_after_nick (''!'' @ user @ ''@'' @ host) = Some (user, host)"
    using match_user_print [OF assms(5-9)] by (simp add: match_after_nick_def has_prefix_def)
  note full = parse_prefix_at [OF assms(1-4) this]
  have "match_after_nick [] = Some ([], [])" by (simp add: match_after_nick_def has_prefix_def match_host_def)
  from parse_prefix_at [OF assms(1-4) this] full show ?thesis by simp
qed

theorem parse_prefix_roundtrip_witness:
  "parse_prefix (''nick'' @ ''!'' @ ''user'' @ ''@'' @ ''host'') = (''nick'', ''user'', ''host'')
   \<and> parse_prefix ''nick'' = (''nick'', [], [])"
  using parse_prefix_roundtrip [of "''nick''" "''user''" "''host''"] by (simp add: no_newline_def)

end
