(* ===== verification/Go_Heap.thy ===== *)
theory Go_Heap
  imports Main "HOL-Library.Multiset"
begin

text \<open>
  Package container/heap on a slice, as the scheduler uses it: \<open>up\<close>, \<open>down\<close>, \<open>Push\<close>, \<open>Pop\<close> over a
  comparison \<open>lt\<close>. The interface \<open>priority_queue\<close> states what a client may rely on (\<open>Pop\<close> takes a
  least element off, nothing else changes); a client's loop that pops while a condition holds is
  verified once inside it, and the slice heap is an interpretation in the theory of the scheduler,
  which provides the comparison.
\<close>

section \<open>The slice operations\<close>

definition swap :: "'a list \<Rightarrow> nat \<Rightarrow> nat \<Rightarrow> 'a list" where
  "swap h i j = h[i := h ! j, j := h ! i]"

definition parent :: "nat \<Rightarrow> nat" where
  "parent j = (j - 1) div 2"

function up :: "('a \<Rightarrow> 'a \<Rightarrow> bool) \<Rightarrow> 'a list \<Rightarrow> nat \<Rightarrow> 'a list" where
  "up lt h j =
     (if parent j = j \<or> \<not> lt (h ! j) (h ! parent j) then h
      else up lt (swap h (parent j) j) (parent j))"
  by pat_completeness auto
termination
  by (relation "measure (\<lambda>(lt, h, j). j)") (auto simp: parent_def)

function down :: "('a \<Rightarrow> 'a \<Rightarrow> bool) \<Rightarrow> nat \<Rightarrow> 'a list \<Rightarrow> nat \<Rightarrow> 'a list" where
  "down lt n h i =
     (if 2 * i + 1 \<ge> n then h
      else (let j1 = 2 * i + 1; j = (if j1 + 1 < n \<and> lt (h ! (j1 + 1)) (h ! j1) then j1 + 1 else j1)
            in if \<not> lt (h ! j) (h ! i) then h else down lt n (swap h i j) j))"
  by pat_completeness auto
termination
  by (relation "measure (\<lambda>(lt, n, h, i). n - i)") auto

declare up.simps [simp del] down.simps [simp del]

definition heap_push :: "('a \<Rightarrow> 'a \<Rightarrow> bool) \<Rightarrow> 'a \<Rightarrow> 'a list \<Rightarrow> 'a list" where
  "heap_push lt x h = up lt (h @ [x]) (length h)"

definition heap_pop :: "('a \<Rightarrow> 'a \<Rightarrow> bool) \<Rightarrow> 'a list \<Rightarrow> 'a \<times> 'a list" where
  "heap_pop lt h =
     (let n = length h - 1; h' = down lt n (swap h 0 n) 0 in (h' ! n, take n h'))"

definition heap_top :: "'a list \<Rightarrow> 'a option" where
  "heap_top h = (case h of [] \<Rightarrow> None | x # _ \<Rightarrow> Some x)"

text \<open>A client's loop: pop while the first element satisfies the condition.\<close>

fun drain :: "('h \<Rightarrow> 'a option) \<Rightarrow> ('h \<Rightarrow> 'a \<times> 'h) \<Rightarrow> ('a \<Rightarrow> bool) \<Rightarrow> nat \<Rightarrow> 'h \<Rightarrow> 'a list \<times> 'h" where
  "drain peek pop P 0 h = ([], h)"
| "drain peek pop P (Suc n) h =
     (case peek h of
        None \<Rightarrow> ([], h)
      | Some x \<Rightarrow>
          if P x then (let (y, h') = pop h; (ys, h'') = drain peek pop P n h' in (y # ys, h''))
          else ([], h))"

section \<open>The interface of a priority queue\<close>

locale priority_queue =
  fixes le :: "'a \<Rightarrow> 'a \<Rightarrow> bool"
    and invar :: "'h \<Rightarrow> bool"
    and elems :: "'h \<Rightarrow> 'a multiset"
    and peek :: "'h \<Rightarrow> 'a option"
    and push :: "'a \<Rightarrow> 'h \<Rightarrow> 'h"
    and pop :: "'h \<Rightarrow> 'a \<times> 'h"
  assumes peek_None: "invar h \<Longrightarrow> peek h = None \<longleftrightarrow> elems h = {#}"
    and peek_least: "invar h \<Longrightarrow> peek h = Some x \<Longrightarrow> x \<in># elems h \<and> (\<forall>y \<in># elems h. le x y)"
    and push_elems: "invar h \<Longrightarrow> invar (push x h) \<and> elems (push x h) = add_mset x (elems h)"
    and pop_elems: "invar h \<Longrightarrow> peek h = Some x \<Longrightarrow>
      fst (pop h) = x \<and> invar (snd (pop h)) \<and> elems (snd (pop h)) = elems h - {#x#}"
begin

lemma drain_elems:
  "invar h \<Longrightarrow> drain peek pop P n h = (xs, h') \<Longrightarrow>
   invar h' \<and> elems h = mset xs + elems h' \<and> (\<forall>x \<in> set xs. P x) \<and> sorted_wrt le xs \<and>
   (size (elems h) \<le> n \<longrightarrow> (case peek h' of None \<Rightarrow> True | Some x \<Rightarrow> \<not> P x))"
proof (induction n arbitrary: h xs)
  case 0
  then show ?case using peek_None [of h] by (auto split: option.splits)
next
  case (Suc n)
  show ?case
  proof (cases "\<exists>x. peek h = Some x \<and> P x")
    case True
    then obtain x where x: "peek h = Some x" "P x" by blast
    obtain h1 where p: "pop h = (x, h1)" "invar h1" "elems h1 = elems h - {#x#}"
      using pop_elems [OF Suc.prems(1) x(1)] by (cases "pop h") auto
    obtain ys where d: "drain peek pop P n h1 = (ys, h')" and xs: "xs = x # ys"
      using Suc.prems(2) x p(1) by (auto split: prod.splits)
    note IH = Suc.IH [OF p(2) d]
    have mem: "x \<in># elems h" and least: "\<forall>y \<in># elems h. le x y"
      using peek_least [OF Suc.prems(1) x(1)] by auto
    have "elems h = add_mset x (elems h1)" using mem p(3) by simp
    moreover have "\<forall>y \<in> set ys. le x y"
    proof
      fix y assume "y \<in> set ys"
      then have "y \<in># elems h1" using IH by simp
      then show "le x y" using p(3) least by (auto dest: in_diffD)
    qed
    ultimately show ?thesis using IH xs x(2) by (auto split: option.splits)
  next
    case False
    then have "xs = [] \<and> h' = h" using Suc.prems(2) by (auto split: option.splits)
    then show ?thesis using Suc.prems False by (auto split: option.splits)
  qed
qed

text \<open>When the condition is closed downwards, exactly the elements that satisfy it are popped.\<close>

lemma drain_exact:
  assumes "invar h" and "drain peek pop P n h = (xs, h')" and "size (elems h) \<le> n"
    and closed: "\<And>x y. le y x \<Longrightarrow> P x \<Longrightarrow> P y"
  shows "mset xs = filter_mset P (elems h)" and "elems h' = filter_mset (\<lambda>x. \<not> P x) (elems h)"
    and "sorted_wrt le xs" and "invar h'"
proof -
  from drain_elems [OF assms(1,2)] assms(3)
  have d: "invar h'" "elems h = mset xs + elems h'" "\<forall>x \<in> set xs. P x" "sorted_wrt le xs"
    and t: "case peek h' of None \<Rightarrow> True | Some x \<Rightarrow> \<not> P x" by auto
  have rest: "\<forall>y \<in># elems h'. \<not> P y"
  proof (cases "peek h'")
    case None
    then show ?thesis using peek_None [OF d(1)] by simp
  next
    case (Some x)
    then show ?thesis using peek_least [OF d(1) Some] t closed by auto
  qed
  have "filter_mset P (elems h') = {#}" "filter_mset P (mset xs) = mset xs"
    using rest d(3) by (auto simp: filter_mset_eq_mempty_iff filter_mset_eq_conv)
  moreover have "filter_mset (\<lambda>x. \<not> P x) (elems h') = elems h'" "filter_mset (\<lambda>x. \<not> P x) (mset xs) = {#}"
    using rest d(3) by (auto simp: filter_mset_eq_mempty_iff filter_mset_eq_conv)
  ultimately show "mset xs = filter_mset P (elems h)" "elems h' = filter_mset (\<lambda>x. \<not> P x) (elems h)"
    using d(2) by auto
  show "sorted_wrt le xs" "invar h'" using d by auto
qed

end

section \<open>The slice heap is a priority queue\<close>

definition heap_upto :: "('a \<Rightarrow> 'a \<Rightarrow> bool) \<Rightarrow> nat \<Rightarrow> 'a list \<Rightarrow> bool" where
  "heap_upto lt n h = (\<forall>k < n. 0 < k \<longrightarrow> \<not> lt (h ! k) (h ! parent k))"

definition is_heap :: "('a \<Rightarrow> 'a \<Rightarrow> bool) \<Rightarrow> 'a list \<Rightarrow> bool" where
  "is_heap lt h = heap_upto lt (length h) h"

lemma parent_less: "0 < k \<Longrightarrow> parent k < k"
  by (simp add: parent_def)

lemma parent_child: "0 < k \<Longrightarrow> parent k = i \<longleftrightarrow> k = 2 * i + 1 \<or> k = 2 * i + 2"
  by (auto simp: parent_def)

lemma swap_nth: "i < length h \<Longrightarrow> j < length h \<Longrightarrow> k < length h \<Longrightarrow>
    swap h i j ! k = (if k = j then h ! i else if k = i then h ! j else h ! k)"
  by (simp add: swap_def nth_list_update)

lemma length_swap [simp]: "length (swap h i j) = length h"
  by (simp add: swap_def)

lemma mset_swap': "i < length h \<Longrightarrow> j < length h \<Longrightarrow> mset (swap h i j) = mset h"
  unfolding swap_def by (rule mset_swap)

text \<open>What the comparison has to satisfy: a strict weak order.\<close>

definition strict_weak :: "('a \<Rightarrow> 'a \<Rightarrow> bool) \<Rightarrow> bool" where
  "strict_weak lt \<longleftrightarrow> (\<forall>a b. lt a b \<longrightarrow> \<not> lt b a) \<and>
     (\<forall>a b c. \<not> lt b a \<longrightarrow> \<not> lt c b \<longrightarrow> \<not> lt c a)"

lemma strict_weakD:
  assumes "strict_weak lt"
  shows "lt a b \<Longrightarrow> \<not> lt b a" and "\<not> lt b a \<Longrightarrow> \<not> lt c b \<Longrightarrow> \<not> lt c a"
  using assms unfolding strict_weak_def by blast+

lemma up_mset: "j < length h \<Longrightarrow> mset (up lt h j) = mset h \<and> length (up lt h j) = length h"
proof (induction lt h j rule: up.induct)
  case (1 lt h j)
  have "parent j < length h" using 1 by (simp add: parent_def)
  then show ?case using 1 by (subst (1 2) up.simps) (simp add: mset_swap')
qed

lemma up_heap:
  assumes "strict_weak lt" and "j < length h"
    and "\<forall>k < length h. 0 < k \<and> k \<noteq> j \<longrightarrow> \<not> lt (h ! k) (h ! parent k)"
    and "\<forall>k < length h. 0 < k \<and> parent k = j \<and> 0 < j \<longrightarrow> \<not> lt (h ! k) (h ! parent j)"
  shows "is_heap lt (up lt h j)"
  using assms
proof (induction lt h j rule: up.induct)
  case (1 lt h j)
  note D = strict_weakD [OF "1.prems"(1)]
  show ?case
  proof (cases "parent j = j \<or> \<not> lt (h ! j) (h ! parent j)")
    case True
    then have "up lt h j = h" by (simp add: up.simps [of lt h j])
    moreover have "\<not> lt (h ! k) (h ! parent k)" if "k < length h" "0 < k" for k
      using that True "1.prems"(3) parent_less [of k] by (cases "k = j") auto
    ultimately show ?thesis by (auto simp: is_heap_def heap_upto_def)
  next
    case False
    let ?i = "parent j"
    let ?h = "swap h ?i j"
    have ij: "?i < j" "0 < j" using False by (auto simp: parent_def)
    note nth = swap_nth [of ?i h j]
    have "is_heap lt (up lt ?h ?i)"
    proof (rule "1.IH" [OF False "1.prems"(1)])
      show "?i < length ?h" using ij "1.prems"(2) by simp
      show "\<forall>k < length ?h. 0 < k \<and> k \<noteq> ?i \<longrightarrow> \<not> lt (?h ! k) (?h ! parent k)"
      proof (intro allI impI)
        fix k assume k: "k < length ?h" "0 < k \<and> k \<noteq> ?i"
        have pk: "parent k < k" using k parent_less by blast
        consider "k = j" | "k \<noteq> j" "parent k = j" | "k \<noteq> j" "parent k = ?i"
          | "k \<noteq> j" "parent k \<noteq> j" "parent k \<noteq> ?i" by blast
        then show "\<not> lt (?h ! k) (?h ! parent k)"
        proof cases
          case 3
          then have "\<not> lt (h ! k) (h ! ?i)" using "1.prems"(3) k by auto
          with D [of "h ! j" "h ! ?i"] False D(2) [of "h ! ?i" "h ! j" "h ! k"]
          show ?thesis using 3 k ij pk "1.prems"(2) by (simp add: nth)
        qed (use k ij pk "1.prems" False D(1) in \<open>auto simp: nth\<close>)
      qed
      show "\<forall>k < length ?h. 0 < k \<and> parent k = ?i \<and> 0 < ?i \<longrightarrow> \<not> lt (?h ! k) (?h ! parent ?i)"
      proof (intro allI impI)
        fix k assume k: "k < length ?h" "0 < k \<and> parent k = ?i \<and> 0 < ?i"
        have pi: "parent ?i < ?i" using k parent_less by blast
        have base: "\<not> lt (h ! ?i) (h ! parent ?i)" using "1.prems"(2,3) ij k by auto
        show "\<not> lt (?h ! k) (?h ! parent ?i)"
        proof (cases "k = j")
          case True
          then show ?thesis using base pi ij "1.prems"(2) k by (simp add: nth)
        next
          case other: False
          then have "\<not> lt (h ! k) (h ! ?i)" using "1.prems"(3) k by auto
          then have "\<not> lt (h ! k) (h ! parent ?i)" using base D(2) by blast
          then show ?thesis using other pi ij "1.prems"(2) k parent_less [of k] by (simp add: nth)
        qed
      qed
    qed
    then show ?thesis using False by (subst up.simps) simp
  qed
qed

lemma down_frame:
  "n \<le> length h \<Longrightarrow> mset (down lt n h i) = mset h \<and> length (down lt n h i) = length h \<and>
    (\<forall>k. n \<le> k \<longrightarrow> k < length h \<longrightarrow> down lt n h i ! k = h ! k)"
proof (induction lt n h i rule: down.induct)
  case (1 lt n h i)
  define j where "j = (if 2 * i + 1 + 1 < n \<and> lt (h ! (2 * i + 1 + 1)) (h ! (2 * i + 1)) then 2 * i + 1 + 1 else 2 * i + 1)"
  show ?case
  proof (cases "n \<le> 2 * i + 1 \<or> \<not> lt (h ! j) (h ! i)")
    case True
    then have "down lt n h i = h"
      by (subst down.simps) (auto simp: j_def Let_def)
    then show ?thesis by simp
  next
    case False
    then have e: "down lt n h i = down lt n (swap h i j) j"
      by (subst down.simps) (auto simp: j_def Let_def)
    have jn: "j < n" "i < n" using False by (auto simp: j_def)
    have "n \<le> length (swap h i j)" using "1.prems" by simp
    from "1.IH" [OF _ refl _ _ this] False
    have "mset (down lt n (swap h i j) j) = mset (swap h i j) \<and>
      length (down lt n (swap h i j) j) = length (swap h i j) \<and>
      (\<forall>k. n \<le> k \<longrightarrow> k < length (swap h i j) \<longrightarrow> down lt n (swap h i j) j ! k = swap h i j ! k)"
      by (simp add: j_def)
    then show ?thesis using e jn "1.prems" by (auto simp: mset_swap' swap_nth)
  qed
qed

lemma down_heap:
  assumes "strict_weak lt" and "n \<le> length h"
    and "\<forall>k < n. 0 < k \<and> parent k \<noteq> i \<longrightarrow> \<not> lt (h ! k) (h ! parent k)"
    and "\<forall>k < n. 0 < k \<and> parent k = i \<and> 0 < i \<longrightarrow> \<not> lt (h ! k) (h ! parent i)"
  shows "heap_upto lt n (down lt n h i)"
  using assms
proof (induction lt n h i rule: down.induct)
  case (1 lt n h i)
  note D = strict_weakD [OF "1.prems"(1)]
  define j1 where "j1 = 2 * i + 1"
  define j where "j = (if j1 + 1 < n \<and> lt (h ! (j1 + 1)) (h ! j1) then j1 + 1 else j1)"
  show ?case
  proof (cases "n \<le> j1 \<or> \<not> lt (h ! j) (h ! i)")
    case True
    then have e: "down lt n h i = h"
      by (subst down.simps) (auto simp: j_def j1_def Let_def)
    have "\<not> lt (h ! k) (h ! parent k)" if k: "k < n" "0 < k" for k
    proof (cases "parent k = i")
      case pk: True
      then have "k = j1 \<or> k = j1 + 1" using parent_child [OF k(2), of i] by (auto simp: j1_def)
      then have "\<not> lt (h ! k) (h ! j)"
        using k D(1) [of "h ! j" "h ! k"] D(1) [of "h ! k" "h ! k"] by (auto simp: j_def split: if_splits)
      moreover have "\<not> lt (h ! j) (h ! i)" using True k \<open>k = j1 \<or> k = j1 + 1\<close> by auto
      ultimately show ?thesis using D(2) pk by blast
    qed (use k "1.prems"(3) in auto)
    then show ?thesis by (simp add: e heap_upto_def)
  next
    case False
    then have e: "down lt n h i = down lt n (swap h i j) j"
      by (subst down.simps) (auto simp: j_def j1_def Let_def)
    have jn: "j < n" "i < j" "parent j = i" "0 < j" using False by (auto simp: j_def j1_def parent_def)
    have len: "j < length h" "i < length h" using jn "1.prems"(2) by auto
    note nth = swap_nth [OF len(2,1)]
    have "heap_upto lt n (down lt n (swap h i j) j)"
    proof (rule "1.IH" [OF _ j1_def j_def _ "1.prems"(1)])
      show "\<not> n \<le> 2 * i + 1" using False by (simp add: j1_def)
      show "\<not> \<not> lt (h ! j) (h ! i)" using False by simp
      show "n \<le> length (swap h i j)" using "1.prems"(2) by simp
      show "\<forall>k < n. 0 < k \<and> parent k \<noteq> j \<longrightarrow> \<not> lt (swap h i j ! k) (swap h i j ! parent k)"
      proof (intro allI impI)
        fix k assume k: "k < n" "0 < k \<and> parent k \<noteq> j"
        have kl: "k < length h" "parent k < length h" "parent k < k"
          using k "1.prems"(2) parent_less [of k] by auto
        show "\<not> lt (swap h i j ! k) (swap h i j ! parent k)"
        proof (cases "parent k = i")
          case True
          then have kk: "k = j1 \<or> k = j1 + 1" using parent_child [of k i] k by (auto simp: j1_def)
          show ?thesis
          proof (cases "k = j")
            case True
            then show ?thesis using D(1) False jn kl \<open>parent k = i\<close> by (simp add: nth)
          next
            case other: False
            then have "\<not> lt (h ! k) (h ! j)"
              using kk k D(1) by (auto simp: j_def split: if_splits)
            then show ?thesis using other True jn kl by (simp add: nth)
          qed
        next
          case other: False
          show ?thesis
          proof (cases "k = i")
            case True
            have "\<not> lt (h ! j) (h ! parent i)" using "1.prems"(4) jn k True by auto
            then show ?thesis using True jn kl other k by (simp add: nth)
          next
            case False
            then show ?thesis using other k "1.prems"(3) jn kl by (auto simp: nth)
          qed
        qed
      qed
      show "\<forall>k < n. 0 < k \<and> parent k = j \<and> 0 < j \<longrightarrow> \<not> lt (swap h i j ! k) (swap h i j ! parent j)"
      proof (intro allI impI)
        fix k assume k: "k < n" "0 < k \<and> parent k = j \<and> 0 < j"
        have kl: "k < length h" "j < k" using k "1.prems"(2) parent_less [of k] by auto
        have "\<not> lt (h ! k) (h ! j)" using "1.prems"(3) k jn by auto
        then show "\<not> lt (swap h i j ! k) (swap h i j ! parent j)" using jn kl by (simp add: nth)
      qed
    qed
    then show ?thesis by (simp add: e)
  qed
qed

lemma heap_root:
  assumes "strict_weak lt" and "heap_upto lt n h" and "k < n"
  shows "\<not> lt (h ! k) (h ! 0)"
  using assms(3)
proof (induction k rule: less_induct)
  case (less k)
  show ?case
  proof (cases "k = 0")
    case True
    then show ?thesis using strict_weakD(1) [OF assms(1)] by blast
  next
    case False
    then have "\<not> lt (h ! parent k) (h ! 0)" using less parent_less [of k] by auto
    moreover have "\<not> lt (h ! k) (h ! parent k)" using assms(2) less.prems False by (simp add: heap_upto_def)
    ultimately show ?thesis using strict_weakD(2) [OF assms(1)] by blast
  qed
qed

lemma heap_push_correct:
  assumes "strict_weak lt" and "is_heap lt h"
  shows "is_heap lt (heap_push lt x h) \<and> mset (heap_push lt x h) = add_mset x (mset h)"
proof -
  have "is_heap lt (up lt (h @ [x]) (length h))"
  proof (rule up_heap [OF assms(1)])
    show "\<forall>k < length (h @ [x]). 0 < k \<and> k \<noteq> length h \<longrightarrow> \<not> lt ((h @ [x]) ! k) ((h @ [x]) ! parent k)"
    proof (intro allI impI)
      fix k assume k: "k < length (h @ [x])" "0 < k \<and> k \<noteq> length h"
      then have "k < length h" "parent k < length h" using parent_less [of k] by auto
      then show "\<not> lt ((h @ [x]) ! k) ((h @ [x]) ! parent k)"
        using assms(2) k by (simp add: is_heap_def heap_upto_def nth_append)
    qed
    show "\<forall>k < length (h @ [x]). 0 < k \<and> parent k = length h \<and> 0 < length h \<longrightarrow>
        \<not> lt ((h @ [x]) ! k) ((h @ [x]) ! parent (length h))"
    proof (intro allI impI)
      fix k assume k: "k < length (h @ [x])" "0 < k \<and> parent k = length h \<and> 0 < length h"
      then show "\<not> lt ((h @ [x]) ! k) ((h @ [x]) ! parent (length h))" using parent_less [of k] by simp
    qed
  qed simp
  then show ?thesis using up_mset [of "length h" "h @ [x]" lt] by (simp add: heap_push_def)
qed

lemma heap_upto_take: "heap_upto lt n (take n h) = heap_upto lt n h"
proof -
  have "take n h ! k = h ! k \<and> take n h ! parent k = h ! parent k" if "k < n" "0 < k" for k
    using that parent_less [of k] by simp
  then show ?thesis unfolding heap_upto_def by auto
qed

lemma heap_pop_correct:
  assumes "strict_weak lt" and "is_heap lt h" and "heap_top h = Some x"
  shows "fst (heap_pop lt h) = x" and "is_heap lt (snd (heap_pop lt h))"
    and "mset (snd (heap_pop lt h)) = mset h - {#x#}"
proof -
  have ne: "h \<noteq> []" and x: "x = h ! 0" using assms(3) by (auto simp: heap_top_def split: list.splits)
  let ?n = "length h - 1" let ?s = "swap h 0 ?n" let ?d = "down lt ?n ?s 0"
  have n: "?n < length h" "0 < length h" using ne by auto
  have fr: "mset ?d = mset h" "length ?d = length h" "?d ! ?n = x"
    using down_frame [of ?n ?s lt 0] n x by (auto simp: mset_swap' swap_nth)
  have "heap_upto lt ?n ?d"
  proof (rule down_heap [OF assms(1)])
    show "\<forall>k < ?n. 0 < k \<and> parent k \<noteq> 0 \<longrightarrow> \<not> lt (?s ! k) (?s ! parent k)"
    proof (intro allI impI)
      fix k assume k: "k < ?n" "0 < k \<and> parent k \<noteq> 0"
      then have "parent k < ?n" "parent k \<noteq> ?n" using parent_less [of k] by auto
      then show "\<not> lt (?s ! k) (?s ! parent k)"
        using k n assms(2) by (simp add: swap_nth is_heap_def heap_upto_def)
    qed
  qed auto
  then have "heap_upto lt ?n (take ?n ?d)" by (simp add: heap_upto_take)
  then show "is_heap lt (snd (heap_pop lt h))"
    using fr(2) by (simp add: heap_pop_def is_heap_def Let_def)
  show "fst (heap_pop lt h) = x" using fr(3) by (simp add: heap_pop_def Let_def)
  have "?d = take ?n ?d @ [x]"
    using fr n take_Suc_conv_app_nth [of ?n ?d] by simp
  then have "mset h = add_mset x (mset (take ?n ?d))"
    using fr(1) by (metis mset_append mset_single_iff union_commute add_mset_add_single mset.simps)
  then show "mset (snd (heap_pop lt h)) = mset h - {#x#}" by (simp add: heap_pop_def Let_def)
qed

lemma heap_top_correct:
  assumes "strict_weak lt" and "is_heap lt h" and "heap_top h = Some x"
  shows "x \<in># mset h \<and> (\<forall>y \<in># mset h. \<not> lt y x)"
proof -
  have "x = h ! 0" "h \<noteq> []" using assms(3) by (auto simp: heap_top_def split: list.splits)
  then show ?thesis
    using heap_root [OF assms(1), of "length h" h] assms(2) by (auto simp: is_heap_def in_set_conv_nth)
qed

lemma is_heap_map:
  assumes "\<And>a b. lt (f a) (f b) = lt a b"
  shows "is_heap lt (map f h) = is_heap lt h"
proof -
  have "map f h ! k = f (h ! k) \<and> map f h ! parent k = f (h ! parent k)" if "k < length h" "0 < k" for k
    using that parent_less [of k] by simp
  then show ?thesis unfolding is_heap_def heap_upto_def by (auto simp: assms)
qed

lemma is_heap_Nil [simp]: "is_heap lt []"
  by (simp add: is_heap_def heap_upto_def)

end
