(* ===== verification/Sched.thy ===== *)
theory Sched
  imports Go_Prelude Go_Heap "HOL-Library.Product_Lexorder"
begin

text \<open>
  internal/sched/sched.go: the one-shot timer heap the dispatcher owns. A time is an int of
  nanoseconds; the tag counter is a nat (it would need 2 ^ 64 timers to wrap). The source shares one
  timer struct between the heap and the map \<open>pending\<close> and cancels it by writing \<open>fn = nil\<close> through the
  map; here the heap holds the structs and \<open>pending\<close> the keys of the map, so the write is an update of
  the heap's entry with that tag. The clock is read by the operation that reads it in the source and
  is an argument here. A callback is any function on the scheduler and the rest of the program.
\<close>

section \<open>State and operations\<close>

record 'f timer =
  at :: int
  seq :: nat
  fn :: "'f option"

record 'f sched =
  heap :: "'f timer list"
  pending :: "nat set"
  last_seq :: nat

text \<open>Method \<open>timerHeap.Less\<close>.\<close>

definition timer_less :: "'f timer \<Rightarrow> 'f timer \<Rightarrow> bool" where
  "timer_less a b = (if at a = at b then seq a < seq b else at a < at b)"

definition sched_new :: "'f sched" where
  "sched_new = \<lparr>heap = [], pending = {}, last_seq = 0\<rparr>"

definition schedule :: "int \<Rightarrow> 'f \<Rightarrow> 'f sched \<Rightarrow> nat \<times> 'f sched" where
  "schedule t f s =
     (let n = last_seq s + 1
      in (n, \<lparr>heap = heap_push timer_less \<lparr>at = t, seq = n, fn = Some f\<rparr> (heap s),
              pending = insert n (pending s), last_seq = n\<rparr>))"

definition after :: "int \<Rightarrow> int \<Rightarrow> 'f \<Rightarrow> 'f sched \<Rightarrow> nat \<times> 'f sched" where
  "after now d f s = schedule (now + d) f s"

definition cancel :: "nat \<Rightarrow> 'f timer \<Rightarrow> 'f timer" where
  "cancel tag t = (if seq t = tag then t\<lparr>fn := None\<rparr> else t)"

definition unschedule :: "nat \<Rightarrow> 'f sched \<Rightarrow> bool \<times> 'f sched" where
  "unschedule tag s =
     (if tag \<notin> pending s then (False, s)
      else (True, s\<lparr>pending := pending s - {tag}, heap := map (cancel tag) (heap s)\<rparr>))"

definition pop_while :: "('f timer \<Rightarrow> bool) \<Rightarrow> 'f timer list \<Rightarrow> 'f timer list \<times> 'f timer list" where
  "pop_while P h = drain heap_top (heap_pop timer_less) P (length h) h"

definition drop_cancelled :: "'f sched \<Rightarrow> 'f sched" where
  "drop_cancelled s = s\<lparr>heap := snd (pop_while (\<lambda>t. fn t = None) (heap s))\<rparr>"

definition next_in :: "int \<Rightarrow> 'f sched \<Rightarrow> int option \<times> 'f sched" where
  "next_in now s =
     (let s' = drop_cancelled s
      in (case heap_top (heap s') of None \<Rightarrow> None | Some t \<Rightarrow> Some (max (at t - now) 0), s'))"

text \<open>The first loop of \<open>RunDue\<close>: pop what is due, skip what was cancelled.\<close>

definition collect :: "int \<Rightarrow> 'f sched \<Rightarrow> 'f timer list \<times> 'f sched" where
  "collect now s =
     (let (popped, h) = pop_while (\<lambda>t. at t \<le> now) (heap s);
          due = filter (\<lambda>t. fn t \<noteq> None) popped
      in (due, s\<lparr>heap := h, pending := pending s - seq ` set due\<rparr>))"

text \<open>
  Method \<open>fire\<close> and the second loop: a panic is recovered, so a callback always hands on the state it
  left, and the loop goes on with the next timer.
\<close>

definition fire :: "('f \<Rightarrow> 'f sched \<times> 'w \<Rightarrow> 'f sched \<times> 'w) \<Rightarrow> 'f timer \<Rightarrow> 'f sched \<times> 'w \<Rightarrow> 'f sched \<times> 'w" where
  "fire exec t sw = (case fn t of None \<Rightarrow> sw | Some f \<Rightarrow> exec f sw)"

definition run_due :: "('f \<Rightarrow> 'f sched \<times> 'w \<Rightarrow> 'f sched \<times> 'w) \<Rightarrow> int \<Rightarrow> 'f sched \<times> 'w \<Rightarrow> nat \<times> 'f sched \<times> 'w" where
  "run_due exec now sw =
     (let (due, s') = collect now (fst sw) in (length due, fold (fire exec) due (s', snd sw)))"

definition sched_len :: "'f sched \<Rightarrow> nat" where
  "sched_len s = card (pending s)"

section \<open>The slice heap under \<open>Less\<close> is a priority queue\<close>

definition timer_le :: "'f timer \<Rightarrow> 'f timer \<Rightarrow> bool" where
  "timer_le a b = (\<not> timer_less b a)"

lemma timer_less_weak [simp]: "strict_weak timer_less"
  by (auto simp: strict_weak_def timer_less_def split: if_splits)

interpretation pq: priority_queue timer_le "is_heap timer_less" mset heap_top
    "heap_push timer_less" "heap_pop timer_less"
  by unfold_locales
     (auto simp: heap_top_def heap_push_correct heap_pop_correct timer_le_def
       dest: heap_top_correct [OF timer_less_weak] split: list.splits)

definition timer_key :: "'f timer \<Rightarrow> int \<times> nat" where
  "timer_key t = (at t, seq t)"

lemma timer_le_key: "timer_le a b \<longleftrightarrow> timer_key a \<le> timer_key b"
  by (auto simp: timer_le_def timer_less_def timer_key_def)

section \<open>The invariant\<close>

definition sched_inv :: "'f sched \<Rightarrow> bool" where
  "sched_inv s \<longleftrightarrow> is_heap timer_less (heap s) \<and> distinct (map seq (heap s)) \<and>
     pending s = seq ` {t \<in> set (heap s). fn t \<noteq> None} \<and>
     (\<forall>t \<in> set (heap s). 0 < seq t \<and> seq t \<le> last_seq s)"

text \<open>The timers that will still fire, in the order they will fire.\<close>

definition live :: "'f sched \<Rightarrow> 'f timer list" where
  "live s = sort_key timer_key (filter (\<lambda>t. fn t \<noteq> None) (heap s))"

lemma sched_invD:
  assumes "sched_inv s"
  shows "is_heap timer_less (heap s)" and "distinct (map seq (heap s))"
    and "pending s = seq ` {t \<in> set (heap s). fn t \<noteq> None}"
    and "t \<in> set (heap s) \<Longrightarrow> 0 < seq t \<and> seq t \<le> last_seq s"
  using assms by (auto simp: sched_inv_def)

lemma sched_new_inv [simp]: "sched_inv sched_new"
  by (simp add: sched_inv_def sched_new_def)

lemma mset_distinct_map: "mset xs = mset ys \<Longrightarrow> distinct (map f xs) = distinct (map f ys)"
  by (metis mset_map mset_eq_imp_distinct_iff)

lemma schedule_inv:
  assumes "sched_inv s"
  shows "sched_inv (snd (schedule t f s))"
proof -
  note d = sched_invD [OF assms]
  let ?x = "\<lparr>at = t, seq = last_seq s + 1, fn = Some f\<rparr>"
  let ?h = "heap_push timer_less ?x (heap s)"
  have h: "is_heap timer_less ?h" "mset ?h = mset (?x # heap s)"
    using heap_push_correct [OF timer_less_weak d(1), of ?x] by auto
  then have "set ?h = insert ?x (set (heap s))" by (metis list.set(2) set_mset_mset)
  moreover have "distinct (map seq ?h)"
    using mset_distinct_map [OF h(2), of seq] d(2) d(4) by force
  moreover have "{u \<in> insert ?x (set (heap s)). fn u \<noteq> None} = insert ?x {u \<in> set (heap s). fn u \<noteq> None}"
    by auto
  ultimately show ?thesis
    using h(1) d(3) d(4) unfolding sched_inv_def schedule_def by (simp add: le_SucI)
qed

lemma cancel_simps [simp]: "at (cancel n t) = at t" "seq (cancel n t) = seq t"
  by (simp_all add: cancel_def)

lemma timer_less_cancel: "timer_less (cancel n a) (cancel n b) = timer_less a b"
  by (simp add: timer_less_def)

lemma live_cancel:
  "{t \<in> set (map (cancel n) ts). fn t \<noteq> None} = {t \<in> set ts. fn t \<noteq> None \<and> seq t \<noteq> n}"
proof (induction ts)
  case (Cons u us)
  have "{t \<in> set (map (cancel n) (u # us)). fn t \<noteq> None} =
      (if fn (cancel n u) \<noteq> None then {cancel n u} else {}) \<union> {t \<in> set (map (cancel n) us). fn t \<noteq> None}"
    by (simp only: list.map list.set) auto
  also have "\<dots> = (if fn u \<noteq> None \<and> seq u \<noteq> n then {u} else {}) \<union> {t \<in> set us. fn t \<noteq> None \<and> seq t \<noteq> n}"
    unfolding Cons.IH by (auto simp: cancel_def)
  also have "\<dots> = {t \<in> set (u # us). fn t \<noteq> None \<and> seq t \<noteq> n}" by auto
  finally show ?case .
qed simp

lemma unschedule_inv:
  assumes "sched_inv s"
  shows "sched_inv (snd (unschedule tag s))"
proof -
  note d = sched_invD [OF assms]
  have "map seq (map (cancel tag) (heap s)) = map seq (heap s)" by simp
  moreover have "seq ` {t \<in> set (map (cancel tag) (heap s)). fn t \<noteq> None} = pending s - {tag}"
    unfolding d(3) live_cancel by auto
  moreover have "is_heap timer_less (map (cancel tag) (heap s))"
    using d(1) is_heap_map [of timer_less "cancel tag" "heap s"] timer_less_cancel by blast
  moreover have "\<forall>t \<in> set (map (cancel tag) (heap s)). 0 < seq t \<and> seq t \<le> last_seq s"
    using d(4) by simp
  ultimately have "sched_inv (s\<lparr>pending := pending s - {tag}, heap := map (cancel tag) (heap s)\<rparr>)"
    using d(2) unfolding sched_inv_def by (simp del: map_map)
  then show ?thesis using assms by (simp add: unschedule_def)
qed

section \<open>The popping loops\<close>

lemma sort_key_unique:
  assumes "mset xs = mset ys" and "sorted (map k xs)" and "distinct (map k ys)"
  shows "xs = sort_key k ys"
proof -
  have "distinct (map k xs)" using assms by (metis mset_map mset_eq_imp_distinct_iff)
  then have "inj_on k (set xs)" by (simp add: distinct_map)
  moreover have "set xs = set (sort_key k ys)" using assms(1) by (metis set_mset_mset set_sort)
  ultimately show ?thesis
    using assms by (intro map_inj_on [of k] sorted_distinct_set_unique)
      (auto simp: distinct_map dest: mset_eq_setD mset_eq_imp_distinct_iff)
qed

lemma key_distinct: "distinct (map seq ts) \<Longrightarrow> distinct (map timer_key ts)"
  by (auto simp: distinct_map inj_on_def timer_key_def)

lemma pop_due:
  assumes "sched_inv s" and "pop_while (\<lambda>t. at t \<le> now) (heap s) = (ts, h)"
  shows "is_heap timer_less h \<and> mset h = filter_mset (\<lambda>t. now < at t) (mset (heap s)) \<and>
    ts = sort_key timer_key (filter (\<lambda>t. at t \<le> now) (heap s))"
proof -
  note d = sched_invD [OF assms(1)]
  have closed: "at y \<le> now" if "timer_le y x" "at x \<le> now" for x y :: "'a timer"
    using that by (auto simp: timer_le_key timer_key_def)
  note D = pq.drain_exact [OF d(1) assms(2) [unfolded pop_while_def] _ closed]
  have "mset ts = mset (filter (\<lambda>t. at t \<le> now) (heap s))" using D(1) by simp
  moreover have "sorted (map timer_key ts)"
    using D(3) by (simp add: sorted_map timer_le_key [abs_def])
  moreover have "distinct (map timer_key (filter (\<lambda>t. at t \<le> now) (heap s)))"
    using d(2) by (intro key_distinct) (simp add: distinct_map_filter)
  ultimately have "ts = sort_key timer_key (filter (\<lambda>t. at t \<le> now) (heap s))"
    by (rule sort_key_unique)
  with D show ?thesis by (simp add: not_le)
qed

lemma collect_spec:
  assumes "sched_inv s" and "collect now s = (due, s')"
  shows "due = filter (\<lambda>t. at t \<le> now) (live s) \<and> live s' = filter (\<lambda>t. now < at t) (live s) \<and>
    sched_inv s' \<and> last_seq s' = last_seq s \<and> set (heap s') = {t \<in> set (heap s). now < at t} \<and>
    pending s' = pending s - seq ` set due"
proof -
  note d = sched_invD [OF assms(1)]
  obtain ts h where p: "pop_while (\<lambda>t. at t \<le> now) (heap s) = (ts, h)" by fastforce
  note P = pop_due [OF assms(1) p]
  have due: "due = filter (\<lambda>t. fn t \<noteq> None) ts"
    and s': "s' = s\<lparr>heap := h, pending := pending s - seq ` set due\<rparr>"
    using assms(2) p by (auto simp: collect_def)
  have seth: "set h = {t \<in> set (heap s). now < at t}"
    using P by (metis set_mset_mset set_mset_filter)
  have mh: "mset h = mset (filter (\<lambda>t. now < at t) (heap s))" using P by simp
  have dh: "distinct (map seq h)"
    using mset_distinct_map [OF mh, of seq] d(2) by (simp add: distinct_map_filter)
  have E: "due = filter (\<lambda>t. at t \<le> now) (live s)"
    unfolding due live_def using P by (simp add: filter_sort conj_commute)
  have sd: "set due = {t \<in> set (heap s). fn t \<noteq> None \<and> at t \<le> now}" using E by (auto simp: live_def)
  have "seq ` {t \<in> set h. fn t \<noteq> None} = pending s - seq ` set due"
  proof -
    have i: "inj_on seq (set (heap s))" using d(2) by (simp add: distinct_map)
    have "{t \<in> set h. fn t \<noteq> None} = {t \<in> set (heap s). fn t \<noteq> None} - set due"
      unfolding sd seth by auto
    then show ?thesis unfolding d(3) by (simp only:) (rule inj_on_image_set_diff [OF i], auto simp: sd)
  qed
  then have inv: "sched_inv s'" using P dh d(4) seth unfolding sched_inv_def s' by auto
  have "live s' = filter (\<lambda>t. now < at t) (live s)"
    unfolding live_def filter_sort
  proof (rule sort_key_unique [symmetric])
    show "mset (sort_key timer_key (filter (\<lambda>t. now < at t) (filter (\<lambda>t. fn t \<noteq> None) (heap s)))) =
        mset (filter (\<lambda>t. fn t \<noteq> None) (heap s'))"
      using mh by (simp add: s' filter_filter_mset conj_commute)
    show "distinct (map timer_key (filter (\<lambda>t. fn t \<noteq> None) (heap s')))"
      using dh by (intro key_distinct) (simp add: s' distinct_map_filter)
  qed simp
  then show ?thesis using E inv seth by (auto simp: s')
qed

lemma live_pending: "sched_inv s \<Longrightarrow> seq ` set (live s) = pending s"
  using sched_invD(3) [of s] by (auto simp: live_def)

lemma drop_cancelled_spec:
  assumes "sched_inv s"
  shows "sched_inv (drop_cancelled s) \<and> live (drop_cancelled s) = live s \<and>
    pending (drop_cancelled s) = pending s \<and>
    (case heap_top (heap (drop_cancelled s)) of None \<Rightarrow> live s = [] | Some t \<Rightarrow> live s \<noteq> [] \<and> t = hd (live s))"
proof -
  note d = sched_invD [OF assms]
  obtain ts h where p: "pop_while (\<lambda>t. fn t = None) (heap s) = (ts, h)" by fastforce
  note D = pq.drain_elems [OF d(1) p [unfolded pop_while_def]]
  have h: "is_heap timer_less h" "mset (heap s) = mset (ts @ h)" "\<forall>x \<in> set ts. fn x = None"
    and stop: "case heap_top h of None \<Rightarrow> True | Some t \<Rightarrow> fn t \<noteq> None" using D by auto
  have dd: "distinct (map seq (ts @ h))" using mset_distinct_map [OF h(2), of seq] d(2) by simp
  have se: "set (heap s) = set ts \<union> set h" using h(2) by (metis set_append set_mset_mset)
  have fe: "mset (filter (\<lambda>t. fn t \<noteq> None) h) = mset (filter (\<lambda>t. fn t \<noteq> None) (heap s))"
    using h(2,3) by (simp add: filter_mset_eq_mempty_iff)
  have s': "drop_cancelled s = s\<lparr>heap := h\<rparr>" using p by (simp add: drop_cancelled_def)
  have "{t \<in> set h. fn t \<noteq> None} = {t \<in> set (heap s). fn t \<noteq> None}" using se h(3) by auto
  then have inv: "sched_inv (drop_cancelled s)"
    using h(1) dd d(3,4) se unfolding sched_inv_def s' by simp
  have lv: "live (drop_cancelled s) = live s"
    unfolding live_def s'
  proof (rule sort_key_unique [symmetric])
    show "distinct (map timer_key (filter (\<lambda>t. fn t \<noteq> None) (heap (s\<lparr>heap := h\<rparr>))))"
      using dd by (intro key_distinct) (simp add: distinct_map_filter)
  qed (use fe in \<open>simp_all (no_asm_use)\<close>)
  have "case heap_top h of None \<Rightarrow> live s = [] | Some t \<Rightarrow> live s \<noteq> [] \<and> t = hd (live s)"
  proof (cases "heap_top h")
    case None
    then have "h = []" by (simp add: heap_top_def split: list.splits)
    then show ?thesis using None lv by (simp add: live_def s')
  next
    case (Some t)
    then have t: "t \<in> set h" "\<forall>u \<in> set h. timer_key t \<le> timer_key u" and ft: "fn t \<noteq> None"
      using pq.peek_least [OF h(1) Some] stop by (auto simp: timer_le_key)
    have lset: "set (live s) = {t \<in> set h. fn t \<noteq> None}"
      unfolding lv [symmetric] by (simp add: live_def s')
    have sl: "sorted (map timer_key (live s))" by (simp add: live_def)
    have ne: "live s \<noteq> []" using lset t(1) ft by fastforce
    have hin: "hd (live s) \<in> set h" using lset ne hd_in_set by blast
    have "t \<in> set (live s)" using lset t(1) ft by simp
    then have "timer_key (hd (live s)) \<le> timer_key t"
      using sl by (cases "live s") auto
    then have "timer_key (hd (live s)) = timer_key t" using t(2) hin by force
    moreover have "inj_on timer_key (set h)"
      using key_distinct [of h] dd by (simp add: distinct_map)
    ultimately have "t = hd (live s)" using t(1) hin by (metis inj_onD)
    then show ?thesis using Some ne by simp
  qed
  then show ?thesis using inv lv by (simp add: s')
qed

section \<open>What the dispatcher sees\<close>

text \<open>
  One pass. Whatever the callbacks do, \<open>RunDue\<close> calls exactly those timers that are pending and due
  at the time of the call, ordered by due time and then by creation, and returns their number; a timer
  a callback schedules during the pass, due or not, is not among them. The scheduler the first callback
  finds is well formed and holds exactly the pending timers due later.
\<close>

theorem run_due_pass:
  assumes "sched_inv s"
  shows "\<exists>s'. run_due exec now (s, w) =
      (length (filter (\<lambda>t. at t \<le> now) (live s)),
       fold (fire exec) (filter (\<lambda>t. at t \<le> now) (live s)) (s', w)) \<and>
    sched_inv s' \<and> live s' = filter (\<lambda>t. now < at t) (live s) \<and>
    sorted (map timer_key (live s)) \<and> seq ` set (live s) = pending s"
proof -
  obtain due s' where c: "collect now s = (due, s')" by fastforce
  show ?thesis
    using collect_spec [OF assms c] live_pending [OF assms] c
    by (intro exI [of _ s']) (simp add: run_due_def live_def)
qed

definition demo_sched :: "string sched" where
  "demo_sched = snd (unschedule 2 (snd (schedule 9 ''d'' (snd (schedule 5 ''c''
     (snd (schedule 4 ''b'' (snd (schedule 5 ''a'' sched_new)))))))))"

lemma demo_sched_inv [simp]: "sched_inv demo_sched"
  unfolding demo_sched_def by (intro unschedule_inv schedule_inv sched_new_inv)

lemma run_due_pass_witness:
  "sched_inv demo_sched \<and>
   (\<exists>s'. run_due (\<lambda>f (s, w). (s, w @ [f])) 6 (demo_sched, []) =
      (length (filter (\<lambda>t. at t \<le> 6) (live demo_sched)),
       fold (fire (\<lambda>f (s, w). (s, w @ [f]))) (filter (\<lambda>t. at t \<le> 6) (live demo_sched)) (s', []))) \<and>
   map fn (filter (\<lambda>t. at t \<le> 6) (live demo_sched)) = [Some ''a'', Some ''c'']"
proof -
  have "map fn (filter (\<lambda>t. at t \<le> 6) (live demo_sched)) = [Some ''a'', Some ''c'']"
    by code_simp
  then show ?thesis
    using run_due_pass [OF demo_sched_inv, of "\<lambda>f (s, w). (s, w @ [f])" 6 "[]"] by auto
qed

text \<open>
  The select timeout. \<open>NextIn\<close> returns no deadline exactly when nothing is pending; otherwise it
  returns the time left until the earliest pending timer, 0 when that is overdue, so a cancelled timer
  never shortens the wait; and dropping the cancelled ones changes nothing a client can see.
\<close>

theorem next_in_earliest:
  assumes "sched_inv s"
  shows "fst (next_in now s) =
      (if pending s = {} then None else Some (max (Min (at ` set (live s)) - now) 0)) \<and>
    sched_inv (snd (next_in now s)) \<and> live (snd (next_in now s)) = live s \<and>
    sched_len (snd (next_in now s)) = sched_len s"
proof -
  note D = drop_cancelled_spec [OF assms]
  have sl: "sorted (map timer_key (live s))" by (simp add: live_def)
  have "Min (at ` set (live s)) = at (hd (live s))" if "live s \<noteq> []"
  proof (rule Min_eqI)
    show "at (hd (live s)) \<in> at ` set (live s)" using that by simp
    fix y assume "y \<in> at ` set (live s)"
    then show "at (hd (live s)) \<le> y"
      using sl by (cases "live s") (auto simp: timer_key_def)
  qed simp
  then show ?thesis
    using D live_pending [OF assms]
    by (cases "heap_top (heap (drop_cancelled s))") (auto simp: next_in_def sched_len_def)
qed

lemma next_in_earliest_witness:
  "sched_inv demo_sched \<and> fst (next_in 2 demo_sched) = Some 3"
proof -
  have "Min (at ` set (live demo_sched)) = 5" by code_simp
  moreover have "pending demo_sched \<noteq> {}" by code_simp
  ultimately show ?thesis using next_in_earliest [OF demo_sched_inv, of 2] by simp
qed

text \<open>
  The scheduler over a run of the program: operations from the main loop and from inside callbacks, in
  any order. A pass collects what is due (the callback loop of one pass ends before the next one
  begins) and then fires one timer after the other; what a callback does comes between two firings.
\<close>

datatype 'f sched_op = Op_schedule int 'f | Op_unschedule nat | Op_next int | Op_run int | Op_fire

record 'f sched_trace =
  sc :: "'f sched"
  due :: "'f timer list"
  fired :: "nat list"
  cancelled :: "nat list"

fun sched_step :: "'f sched_trace \<Rightarrow> 'f sched_op \<Rightarrow> 'f sched_trace" where
  "sched_step c (Op_schedule t f) = c\<lparr>sc := snd (schedule t f (sc c))\<rparr>"
| "sched_step c (Op_unschedule n) =
     (case unschedule n (sc c) of
        (False, s) \<Rightarrow> c\<lparr>sc := s\<rparr>
      | (True, s) \<Rightarrow> c\<lparr>sc := s, cancelled := n # cancelled c\<rparr>)"
| "sched_step c (Op_next now) = c\<lparr>sc := snd (next_in now (sc c))\<rparr>"
| "sched_step c (Op_run now) =
     (if due c \<noteq> [] then c else (case collect now (sc c) of (d, s) \<Rightarrow> c\<lparr>sc := s, due := d\<rparr>))"
| "sched_step c Op_fire =
     (case due c of [] \<Rightarrow> c | t # ts \<Rightarrow> c\<lparr>due := ts, fired := seq t # fired c\<rparr>)"

definition sched_run :: "'f sched_op list \<Rightarrow> 'f sched_trace" where
  "sched_run ops = foldl sched_step \<lparr>sc = sched_new, due = [], fired = [], cancelled = []\<rparr> ops"

definition settled :: "'f sched_trace \<Rightarrow> nat list" where
  "settled c = fired c @ map seq (due c) @ cancelled c"

definition trace_inv :: "'f sched_trace \<Rightarrow> bool" where
  "trace_inv c \<longleftrightarrow> sched_inv (sc c) \<and> distinct (settled c) \<and> set (settled c) \<inter> pending (sc c) = {} \<and>
     set (settled c) \<union> pending (sc c) = {1..last_seq (sc c)}"

lemma trace_invD:
  assumes "trace_inv c"
  shows "sched_inv (sc c)" and "distinct (settled c)" and "set (settled c) \<inter> pending (sc c) = {}"
    and "set (settled c) \<union> pending (sc c) = {1..last_seq (sc c)}"
  using assms by (auto simp: trace_inv_def)

lemma settled_update:
  "settled (c\<lparr>sc := s\<rparr>) = settled c"
  "set (settled (c\<lparr>sc := s, cancelled := n # cancelled c\<rparr>)) = insert n (set (settled c))"
  "distinct (settled (c\<lparr>sc := s, cancelled := n # cancelled c\<rparr>)) \<longleftrightarrow>
     n \<notin> set (settled c) \<and> distinct (settled c)"
  by (auto simp: settled_def)

lemma settled_collect:
  assumes "due c = []"
  shows "set (settled (c\<lparr>sc := s, due := d\<rparr>)) = set (settled c) \<union> seq ` set d"
    and "distinct (settled (c\<lparr>sc := s, due := d\<rparr>)) \<longleftrightarrow>
      distinct (settled c) \<and> distinct (map seq d) \<and> set (settled c) \<inter> seq ` set d = {}"
  using assms by (auto simp: settled_def)

lemma schedule_fields:
  "pending (snd (schedule t f s)) = insert (last_seq s + 1) (pending s)"
  "last_seq (snd (schedule t f s)) = last_seq s + 1"
  by (simp_all add: schedule_def)

lemma sched_step_inv:
  assumes "trace_inv c"
  shows "trace_inv (sched_step c op)"
proof (cases op)
  case (Op_schedule t f)
  have "last_seq (sc c) + 1 \<notin> set (settled c)" 
  proof
    assume "last_seq (sc c) + 1 \<in> set (settled c)"
    then have "last_seq (sc c) + 1 \<in> {1..last_seq (sc c)}"
      unfolding trace_invD(4) [OF assms, symmetric] by blast
    then show False by simp
  qed
  moreover have "{1..Suc n} = insert (Suc n) {1..n}" for n by auto
  ultimately show ?thesis
    using Op_schedule schedule_inv [OF trace_invD(1) [OF assms]] trace_invD [OF assms]
    by (simp add: trace_inv_def schedule_fields settled_update)
next
  case (Op_unschedule n)
  obtain b s where u: "unschedule n (sc c) = (b, s)" by fastforce
  note inv = unschedule_inv [OF trace_invD(1) [OF assms], of n]
  show ?thesis
  proof (cases "n \<in> pending (sc c)")
    case True
    then have "b" "pending s = pending (sc c) - {n}" "last_seq s = last_seq (sc c)"
      using u by (auto simp: unschedule_def)
    moreover have "n \<notin> set (settled c)" using True trace_invD(3) [OF assms] by blast
    moreover have "insert n (set (settled c)) \<union> (pending (sc c) - {n}) = {1..last_seq (sc c)}"
      using True trace_invD(4) [OF assms] by blast
    moreover have "insert n (set (settled c)) \<inter> (pending (sc c) - {n}) = {}"
      using trace_invD(3) [OF assms] by blast
    ultimately show ?thesis
      using Op_unschedule u inv trace_invD(2) [OF assms] by (simp add: trace_inv_def settled_update)
  qed (use Op_unschedule u assms in \<open>auto simp: unschedule_def\<close>)
next
  case (Op_next now)
  note D = drop_cancelled_spec [OF trace_invD(1) [OF assms]]
  have "last_seq (drop_cancelled (sc c)) = last_seq (sc c)" by (simp add: drop_cancelled_def)
  then show ?thesis
    using Op_next D trace_invD [OF assms] by (simp add: trace_inv_def settled_def next_in_def)
next
  case (Op_run now)
  obtain d s where k: "collect now (sc c) = (d, s)" by fastforce
  note inv = trace_invD(1) [OF assms]
  note K = collect_spec [OF inv k]
  have "distinct (map seq (live (sc c)))"
    using sched_invD(2) [OF inv] mset_distinct_map [of "live (sc c)" "filter (\<lambda>t. fn t \<noteq> None) (heap (sc c))" seq]
    by (simp add: live_def distinct_map_filter)
  then have dd: "distinct (map seq d)" using K by (simp add: distinct_map_filter)
  have sub: "seq ` set d \<subseteq> pending (sc c)" using K live_pending [OF inv] by auto
  show ?thesis
  proof (cases "due c = []")
    case True
    note S = settled_collect [OF True, where s = s and d = d]
    have P: "pending s = pending (sc c) - seq ` set d" and KI: "sched_inv s" "last_seq s = last_seq (sc c)"
      using K by auto
    have "set (settled c) \<inter> seq ` set d = {}"
      "(set (settled c) \<union> seq ` set d) \<inter> (pending (sc c) - seq ` set d) = {}"
      "(set (settled c) \<union> seq ` set d) \<union> (pending (sc c) - seq ` set d) = {1..last_seq (sc c)}"
      using sub trace_invD(3,4) [OF assms] by blast+
    then have "trace_inv (c\<lparr>sc := s, due := d\<rparr>)"
      using KI P dd trace_invD(2) [OF assms] unfolding trace_inv_def S by simp
    then show ?thesis using Op_run k True by simp
  qed (use Op_run assms in simp)
next
  case Op_fire
  then show ?thesis
    using assms by (cases "due c") (auto simp: trace_inv_def settled_def)
qed

text \<open>
  C2. No timer is lost and none fires twice. After any run, every tag ever given out is in exactly one
  of four places: fired, collected in the pass that is under way, cancelled by an \<open>Unschedule\<close> that
  returned true, or pending. In particular a timer whose \<open>Unschedule\<close> returned true never fires.
\<close>

theorem sched_exactly_once:
  "let c = sched_run ops
   in distinct (fired c @ map seq (due c) @ cancelled c) \<and>
      set (fired c @ map seq (due c) @ cancelled c) \<inter> pending (sc c) = {} \<and>
      set (fired c @ map seq (due c) @ cancelled c) \<union> pending (sc c) = {1..last_seq (sc c)} \<and>
      sched_inv (sc c)"
proof -
  have "trace_inv (foldl sched_step c ops)" if "trace_inv c" for c :: "'a sched_trace"
    using that by (induction ops arbitrary: c) (simp_all add: sched_step_inv)
  moreover have "trace_inv \<lparr>sc = sched_new, due = [], fired = [], cancelled = []\<rparr>"
    by (simp add: trace_inv_def settled_def) (simp add: sched_new_def)
  ultimately have "trace_inv (sched_run ops)" unfolding sched_run_def by blast
  from trace_invD [OF this] show ?thesis unfolding settled_def by simp
qed

text \<open>
  A gap in what \<open>Unschedule\<close> promises. It says "false if it already fired or was already
  cancelled", but a timer of the running pass has left \<open>pending\<close> before the first callback runs: a
  callback that cancels a later timer of the same pass is told false, nothing changes, and the timer
  still fires.
\<close>

theorem collected_not_cancellable:
  assumes "sched_inv s" and "t \<in> set (fst (collect now s))"
  shows "seq t \<in> pending s \<and> unschedule (seq t) (snd (collect now s)) = (False, snd (collect now s))"
proof -
  note K = collect_spec [OF assms(1) prod.collapse [symmetric]]
  then show ?thesis
    using assms(2) live_pending [OF assms(1)] by (force simp: unschedule_def)
qed

lemma collected_not_cancellable_witness:
  "(let t = \<lparr>at = 5, seq = 3, fn = Some ''c''\<rparr>
    in sched_inv demo_sched \<and> t \<in> set (fst (collect 6 demo_sched)) \<and>
       unschedule 3 (snd (collect 6 demo_sched)) = (False, snd (collect 6 demo_sched)) \<and>
       snd (snd (run_due (\<lambda>f (s, w). if f = ''a'' then (snd (unschedule 3 s), w @ [f]) else (s, w @ [f]))
         6 (demo_sched, []))) = [''a'', ''c''])"
proof -
  let ?t = "\<lparr>at = 5, seq = 3, fn = Some ''c''\<rparr>"
  have m: "?t \<in> set (fst (collect 6 demo_sched))" by code_simp
  have "snd (snd (run_due (\<lambda>f (s, w). if f = ''a'' then (snd (unschedule 3 s), w @ [f]) else (s, w @ [f]))
      6 (demo_sched, []))) = [''a'', ''c'']" by code_simp
  then show ?thesis using collected_not_cancellable [OF demo_sched_inv m] m by simp
qed

end
