(* ===== verification/Timers.thy ===== *)
theory Timers
  imports Sched
begin

text \<open>
  What the clients of the scheduler rely on. The interface \<open>timer_service\<close> states it on the map from
  pending tags to callbacks; the clients that keep a table of timers of their own (one per key, with the
  callback that clears that key) share the lemmas on such tables. The scheduler is its instance.
\<close>

locale timer_service =
  fixes inv :: "'s \<Rightarrow> bool"
    and pend :: "'s \<Rightarrow> nat \<Rightarrow> 'f option"
    and start :: "int \<Rightarrow> int \<Rightarrow> 'f \<Rightarrow> 's \<Rightarrow> nat \<times> 's"
    and stop :: "nat \<Rightarrow> 's \<Rightarrow> bool \<times> 's"
  assumes start_law: "inv s \<Longrightarrow> start now d f s = (n, s') \<Longrightarrow>
      inv s' \<and> pend s n = None \<and> pend s' = (pend s)(n \<mapsto> f)"
    and stop_law: "inv s \<Longrightarrow> stop n s = (b, s') \<Longrightarrow>
      inv s' \<and> b = (pend s n \<noteq> None) \<and> pend s' = (pend s)(n := None)"
begin

text \<open>
  A table of timers: every entry's timer is pending with the callback of its key, and every pending
  callback of a key is the one its entry names, so that none of an entry replaced is left over.
\<close>

definition table_ok :: "('k \<Rightarrow> 'f) \<Rightarrow> ('k \<Rightarrow> nat option) \<Rightarrow> 's \<Rightarrow> bool" where
  "table_ok cb tab s \<longleftrightarrow> inv s \<and> (\<forall>k n. tab k = Some n \<longleftrightarrow> pend s n = Some (cb k))"

lemma table_okD: "table_ok cb tab s \<Longrightarrow> tab k = Some n \<longleftrightarrow> pend s n = Some (cb k)"
  by (simp add: table_ok_def)

lemma table_start:
  assumes "table_ok cb tab s" and "tab k = None" and "start now d (cb k) s = (n, s')" and "inj cb"
  shows "table_ok cb (tab(k \<mapsto> n)) s'"
proof -
  have s: "inv s'" "pend s n = None" "pend s' = (pend s)(n \<mapsto> cb k)"
    using start_law assms(1,3) by (auto simp: table_ok_def)
  have "(tab(k \<mapsto> n)) k' = Some m \<longleftrightarrow> pend s' m = Some (cb k')" for k' m
    using table_okD [OF assms(1), of k' m] assms(2,4) s(2,3)
    by (cases "k' = k"; cases "m = n") (auto simp: inj_eq)
  then show ?thesis using s(1) by (simp add: table_ok_def)
qed

lemma table_stop:
  assumes "table_ok cb tab s" and "tab k = Some n" and "stop n s = (b, s')" and "inj cb"
  shows "table_ok cb (tab(k := None)) s' \<and> b"
proof -
  have p: "pend s n = Some (cb k)" using assms(1,2) by (simp add: table_ok_def)
  have s: "inv s'" "b" "pend s' = (pend s)(n := None)"
    using stop_law [OF _ assms(3)] assms(1) p by (simp_all add: table_ok_def)
  have "(tab(k := None)) k' = Some m \<longleftrightarrow> pend s' m = Some (cb k')" for k' m
    using table_okD [OF assms(1), of k' m] assms(2,4) p s(3)
    by (cases "k' = k"; cases "m = n") (auto simp: inj_eq)
  then show ?thesis using s(1,2) by (simp add: table_ok_def)
qed

text \<open>A timer that fires was the one of its key's entry, which the callback clears.\<close>

lemma table_fired:
  assumes "table_ok cb tab s" and "pend s n = Some (cb k)" and "inv s'" and "pend s' = (pend s)(n := None)" and "inj cb"
  shows "tab k = Some n \<and> table_ok cb (tab(k := None)) s'"
proof -
  have t: "tab k = Some n" using assms(1,2) by (simp add: table_ok_def)
  have "(tab(k := None)) k' = Some m \<longleftrightarrow> pend s' m = Some (cb k')" for k' m
    using table_okD [OF assms(1), of k' m] assms(2,4,5) t
    by (cases "k' = k"; cases "m = n") (auto simp: inj_eq)
  then show ?thesis using assms(3) t by (simp add: table_ok_def)
qed

end

section \<open>The scheduler as a timer service\<close>

definition sched_pend :: "'f sched \<Rightarrow> nat \<Rightarrow> 'f option" where
  "sched_pend s n = map_option (the \<circ> fn) (find (\<lambda>t. seq t = n \<and> fn t \<noteq> None) (heap s))"

lemma sched_pend_iff:
  assumes "sched_inv s"
  shows "sched_pend s n = Some f \<longleftrightarrow> (\<exists>t \<in> set (heap s). seq t = n \<and> fn t = Some f)"
proof -
  have inj: "inj_on seq (set (heap s))" using sched_invD(2) [OF assms] by (simp add: distinct_map)
  show ?thesis
  proof
    assume "sched_pend s n = Some f"
    then obtain t where t: "find (\<lambda>t. seq t = n \<and> fn t \<noteq> None) (heap s) = Some t" "the (fn t) = f"
      by (auto simp: sched_pend_def)
    then have "t \<in> set (heap s)" "seq t = n" "fn t \<noteq> None" by (auto simp: find_Some_iff)
    then show "\<exists>t \<in> set (heap s). seq t = n \<and> fn t = Some f" using t(2) by (intro bexI [of _ t]) auto
  next
    assume "\<exists>t \<in> set (heap s). seq t = n \<and> fn t = Some f"
    then obtain t where t: "t \<in> set (heap s)" "seq t = n" "fn t = Some f" by blast
    then have "find (\<lambda>t. seq t = n \<and> fn t \<noteq> None) (heap s) \<noteq> None" by (auto simp: find_None_iff)
    then obtain u where u: "find (\<lambda>t. seq t = n \<and> fn t \<noteq> None) (heap s) = Some u" by blast
    then have "u \<in> set (heap s)" "seq u = n" by (auto simp: find_Some_iff)
    then have "u = t" using t inj by (auto dest: inj_onD)
    then show "sched_pend s n = Some f" using u t by (simp add: sched_pend_def)
  qed
qed

lemma option_eqI: "(\<And>g. x = Some g \<longleftrightarrow> y = Some g) \<Longrightarrow> x = y"
  by (cases x; cases y) auto

lemma sched_pend_None:
  assumes "sched_inv s"
  shows "sched_pend s n = None \<longleftrightarrow> n \<notin> pending s"
  using sched_pend_iff [OF assms, of n] sched_invD(3) [OF assms]
  by (cases "sched_pend s n") fastforce+

lemma schedule_heap: "set (heap (snd (schedule t f s))) = insert \<lparr>at = t, seq = last_seq s + 1, fn = Some f\<rparr> (set (heap s))"
  if "sched_inv s"
proof -
  have "mset (heap_push timer_less \<lparr>at = t, seq = last_seq s + 1, fn = Some f\<rparr> (heap s)) =
      add_mset \<lparr>at = t, seq = last_seq s + 1, fn = Some f\<rparr> (mset (heap s))"
    using heap_push_correct [OF timer_less_weak sched_invD(1) [OF that]] by blast
  then show ?thesis by (metis schedule_def sched.select_convs(1) set_mset_add_mset_insert set_mset_mset snd_conv)
qed

lemma sched_start:
  assumes "sched_inv s" and "after now d f s = (n, s')"
  shows "sched_inv s' \<and> sched_pend s n = None \<and> sched_pend s' = (sched_pend s)(n \<mapsto> f)"
proof -
  have s': "s' = snd (schedule (now + d) f s)" "n = last_seq s + 1"
    using assms(2) by (auto simp: after_def schedule_def)
  have inv: "sched_inv s'" using schedule_inv [OF assms(1)] s'(1) by simp
  have old: "seq t \<noteq> n" if "t \<in> set (heap s)" for t using sched_invD(4) [OF assms(1) that] s'(2) by simp
  have hp: "set (heap s') = insert \<lparr>at = now + d, seq = n, fn = Some f\<rparr> (set (heap s))"
    using schedule_heap [OF assms(1)] s' by simp
  have "sched_pend s n = None" using sched_pend_iff [OF assms(1), of n] old by (cases "sched_pend s n") auto
  moreover have "sched_pend s' m = ((sched_pend s)(n \<mapsto> f)) m" for m
  proof -
    have "sched_pend s' m = Some g \<longleftrightarrow> ((sched_pend s)(n \<mapsto> f)) m = Some g" for g
      using old sched_pend_iff [OF assms(1), of m g] hp unfolding sched_pend_iff [OF inv] by auto
    then show ?thesis by (rule option_eqI)
  qed
  ultimately show ?thesis using inv by blast
qed

lemma sched_stop:
  assumes "sched_inv s" and "unschedule n s = (b, s')"
  shows "sched_inv s' \<and> b = (sched_pend s n \<noteq> None) \<and> sched_pend s' = (sched_pend s)(n := None)"
proof -
  have inv: "sched_inv s'" using unschedule_inv [OF assms(1), of n] assms(2) by simp
  have b: "b = (n \<in> pending s)" using assms(2) by (auto simp: unschedule_def split: if_splits)
  have "sched_pend s' m = ((sched_pend s)(n := None)) m" for m
  proof (cases "n \<in> pending s")
    case True
    then have h: "heap s' = map (cancel n) (heap s)" using assms(2) by (auto simp: unschedule_def)
    have c: "seq (cancel n t) = m \<and> fn (cancel n t) = Some g \<longleftrightarrow> m \<noteq> n \<and> seq t = m \<and> fn t = Some g" for t g
      by (auto simp: cancel_def)
    have "(\<exists>t \<in> set (map (cancel n) (heap s)). seq t = m \<and> fn t = Some g) \<longleftrightarrow>
        m \<noteq> n \<and> (\<exists>t \<in> set (heap s). seq t = m \<and> fn t = Some g)" for g
      by (simp only: set_map bex_simps c)
    then have "sched_pend s' m = Some g \<longleftrightarrow> ((sched_pend s)(n := None)) m = Some g" for g
      unfolding sched_pend_iff [OF inv] h using sched_pend_iff [OF assms(1), of m g] by simp
    then show ?thesis by (rule option_eqI)
  next
    case False
    then show ?thesis using assms sched_pend_None [OF assms(1), of n] by (auto simp: unschedule_def)
  qed
  then have "sched_pend s' = (sched_pend s)(n := None)" by blast
  then show ?thesis using inv b sched_pend_None [OF assms(1), of n] by simp
qed

interpretation sched_timers: timer_service sched_inv sched_pend after unschedule
  by unfold_locales (rule sched_start sched_stop, assumption+)+

text \<open>The timers a pass collects are those of the entries that are due, one each.\<close>

lemma table_collected:
  assumes ok: "sched_timers.table_ok id tab s" and c: "collect now s = (ts, s')"
  shows "sched_timers.table_ok id (\<lambda>k. if Some k \<in> fn ` set ts then None else tab k) s' \<and>
    distinct (map fn ts) \<and> (\<forall>t \<in> set ts. fn t \<noteq> None)"
proof -
  have inv: "sched_inv s" using ok by (simp add: sched_timers.table_ok_def)
  note K = collect_spec [OF inv c]
  have ts: "t \<in> set ts \<longleftrightarrow> t \<in> set (heap s) \<and> fn t \<noteq> None \<and> at t \<le> now" for t
    using K by (auto simp: live_def)
  have s: "sched_inv s'" "set (heap s') = {t \<in> set (heap s). now < at t}" using K by auto
  have old: "tab k = Some n \<longleftrightarrow> (\<exists>t \<in> set (heap s). seq t = n \<and> fn t = Some k)" for k n
    using sched_timers.table_okD [OF ok, of k n] sched_pend_iff [OF inv] by simp
  have uniq: "t = u" if "t \<in> set (heap s)" "u \<in> set (heap s)" "fn t = Some k" "fn u = Some k" for t u k
  proof -
    have "tab k = Some (seq t)" "tab k = Some (seq u)" using old that by blast+
    then show ?thesis using that(1,2) sched_invD(2) [OF inv] by (auto simp: distinct_map dest: inj_onD)
  qed
  have "distinct ts"
    using K sched_invD(2) [OF inv] by (simp add: live_def distinct_map distinct_filter)
  moreover have "t = u" if "t \<in> set ts" "u \<in> set ts" "fn t = fn u" for t u
    using uniq [of t u] that ts by fastforce
  ultimately have d: "distinct (map fn ts)" by (auto simp: distinct_map inj_on_def)
  have "(if Some k \<in> fn ` set ts then None else tab k) = Some n \<longleftrightarrow> sched_pend s' n = Some k" for k n
  proof -
    have "sched_pend s' n = Some k \<longleftrightarrow> (\<exists>t \<in> set (heap s). now < at t \<and> seq t = n \<and> fn t = Some k)"
      unfolding sched_pend_iff [OF s(1)] s(2) by blast
    moreover have "Some k \<in> fn ` set ts \<longleftrightarrow> (\<exists>t \<in> set (heap s). at t \<le> now \<and> fn t = Some k)"
      using ts by force
    moreover have "now < at t \<longleftrightarrow> \<not> at t \<le> now" for t :: "'a timer" by linarith
    ultimately show ?thesis using old [of k n] uniq [of _ _ k] by (cases "Some k \<in> fn ` set ts") (simp, metis)+
  qed
  then show ?thesis using s(1) d ts by (simp add: sched_timers.table_ok_def)
qed

end
