(* ===== verification/Bus.thy ===== *)
theory Bus
  imports Go_Prelude
begin

text \<open>
  internal/bus/bus.go: the event bus. A handler is Go code that may change the state of its module,
  submit events itself, register hooks or drop a module; it is a program tree of these actions, which
  ends in a return code with an optional payload or in a panic. \<open>Submit\<close> runs with fuel, the depth to
  which events may be submitted from inside handlers; \<open>submit_total\<close> shows how much is enough. The
  logging of the source is left out, and so is the queue of \<open>Publish\<close> (a channel read by \<open>Run\<close>, which
  submits one event after the other).
\<close>

section \<open>Events\<close>

record sender =
  nick :: string
  user :: string
  host :: string
  user_id :: string

record raw_cmd =
  raw_prefix :: string
  raw_name :: string
  raw_params :: string

record event =
  ev_name :: string
  bot_nick :: string
  server :: string
  ev_sender :: sender
  sender_me :: bool
  channel :: string
  target_me :: bool
  query :: bool
  msg :: string
  raw :: raw_cmd
  target :: string
  reason :: string
  mode :: string
  topic :: string
  args :: "string list"
  net_split :: bool

definition no_event :: event where
  \<comment> \<open>the zero value of the struct\<close>
  "no_event = \<lparr>ev_name = [], bot_nick = [], server = [],
     ev_sender = \<lparr>nick = [], user = [], host = [], user_id = []\<rparr>, sender_me = False, channel = [],
     target_me = False, query = False, msg = [], raw = \<lparr>raw_prefix = [], raw_name = [], raw_params = []\<rparr>,
     target = [], reason = [], mode = [], topic = [], args = [], net_split = False\<rparr>"

section \<open>The bus\<close>

datatype handled = Handled_none | Replied | Stop

type_synonym hook_id = "string \<times> string"  \<comment> \<open>module, event\<close>

datatype ('s, 'p) prog =
    Ret handled "'p option"
  | Panic string
  | Access "'s \<Rightarrow> 's" "'s \<Rightarrow> ('s, 'p) prog"
  | Nested event "'p list \<Rightarrow> ('s, 'p) prog"
  | Add_hook string string "event \<Rightarrow> ('s, 'p) prog" "bool \<Rightarrow> ('s, 'p) prog"
  | Drop_module string "('s, 'p) prog"

type_synonym ('s, 'p) handler = "event \<Rightarrow> ('s, 'p) prog"

record call_stats =
  calls :: nat
  min_ns :: int
  max_ns :: int
  total_ns :: int

record ('s, 'p) bus =
  on_panic :: "string \<Rightarrow> string \<Rightarrow> string \<Rightarrow> 's \<Rightarrow> 's"
  events :: "(string \<times> (string \<times> ('s, 'p) handler) list) list"
  chain :: "hook_id set"
  stats :: "(hook_id \<times> call_stats) list"
  clock :: "nat \<Rightarrow> int"
  clock_reads :: nat
  world :: 's

definition bus_new :: "(nat \<Rightarrow> int) \<Rightarrow> (string \<Rightarrow> string \<Rightarrow> string \<Rightarrow> 's \<Rightarrow> 's) \<Rightarrow> 's \<Rightarrow> ('s, 'p) bus" where
  "bus_new c op w = \<lparr>on_panic = op, events = [], chain = {}, stats = [], clock = c, clock_reads = 0, world = w\<rparr>"

definition register_event :: "string \<Rightarrow> ('s, 'p) bus \<Rightarrow> ('s, 'p) bus" where
  "register_event name b =
     (if map_of (events b) name = None then b\<lparr>events := AList.update name [] (events b)\<rparr> else b)"

fun set_hook :: "string \<Rightarrow> 'h \<Rightarrow> (string \<times> 'h) list \<Rightarrow> (string \<times> 'h) list" where
  "set_hook m h [] = [(m, h)]"
| "set_hook m h ((m', h') # hs) = (if m' = m then (m, h) # hs else (m', h') # set_hook m h hs)"

definition register_hook :: "string \<Rightarrow> string \<Rightarrow> ('s, 'p) handler \<Rightarrow> ('s, 'p) bus \<Rightarrow> bool \<times> ('s, 'p) bus" where
  \<comment> \<open>False stands for the error, an undeclared event\<close>
  "register_hook m e h b =
     (case map_of (events b) e of
        None \<Rightarrow> (False, b)
      | Some hs \<Rightarrow> (True, b\<lparr>events := AList.update e (set_hook m h hs) (events b)\<rparr>))"

definition unregister_module :: "string \<Rightarrow> ('s, 'p) bus \<Rightarrow> ('s, 'p) bus" where
  "unregister_module m b =
     b\<lparr>events := map (\<lambda>(e, hs). (e, filter (\<lambda>(m', h). m' \<noteq> m) hs)) (events b)\<rparr>"

definition bus_modules :: "('s, 'p) bus \<Rightarrow> string list" where
  "bus_modules b = sort (remdups (concat (map (\<lambda>(e, hs). map fst hs) (events b))))"

definition add_call :: "int \<Rightarrow> call_stats \<Rightarrow> call_stats" where
  "add_call ns cs =
     \<lparr>calls = calls cs + 1, min_ns = (if calls cs = 0 \<or> ns < min_ns cs then ns else min_ns cs),
      max_ns = max (max_ns cs) ns, total_ns = total_ns cs + ns\<rparr>"

definition no_calls :: call_stats where
  "no_calls = \<lparr>calls = 0, min_ns = 0, max_ns = 0, total_ns = 0\<rparr>"

definition record_call :: "hook_id \<Rightarrow> int \<Rightarrow> ('s, 'p) bus \<Rightarrow> ('s, 'p) bus" where
  "record_call i ns b =
     (let cs = (case map_of (stats b) i of Some cs \<Rightarrow> cs | None \<Rightarrow> no_calls)
      in b\<lparr>stats := AList.update i (add_call ns cs) (stats b)\<rparr>)"

definition bus_now :: "('s, 'p) bus \<Rightarrow> int \<times> ('s, 'p) bus" where
  "bus_now b = (clock b (clock_reads b), b\<lparr>clock_reads := clock_reads b + 1\<rparr>)"

datatype 'p outcome = Returned handled "'p option" | Panicked string

text \<open>A handler's body; \<open>sub\<close> is what \<open>Submit\<close> does for the events it submits.\<close>

primrec run_prog :: "(event \<Rightarrow> ('s, 'p) bus \<Rightarrow> ('p list \<times> ('s, 'p) bus) option) \<Rightarrow> ('s, 'p) prog \<Rightarrow>
    ('s, 'p) bus \<Rightarrow> ('p outcome \<times> ('s, 'p) bus) option" where
  "run_prog sub (Ret c p) b = Some (Returned c p, b)"
| "run_prog sub (Panic v) b = Some (Panicked v, b)"
| "run_prog sub (Access f k) b = run_prog sub (k (world b)) (b\<lparr>world := f (world b)\<rparr>)"
| "run_prog sub (Nested ev k) b =
     (case sub ev b of None \<Rightarrow> None | Some (ps, b') \<Rightarrow> run_prog sub (k ps) b')"
| "run_prog sub (Add_hook m e h k) b =
     run_prog sub (k (fst (register_hook m e h b))) (snd (register_hook m e h b))"
| "run_prog sub (Drop_module m k) b = run_prog sub k (unregister_module m b)"

definition call_hook :: "(event \<Rightarrow> ('s, 'p) bus \<Rightarrow> ('p list \<times> ('s, 'p) bus) option) \<Rightarrow> hook_id \<Rightarrow>
    ('s, 'p) handler \<Rightarrow> event \<Rightarrow> ('s, 'p) bus \<Rightarrow> ('p outcome \<times> ('s, 'p) bus) option" where
  "call_hook sub i h ev b =
     (let (start, b0) = bus_now (b\<lparr>chain := insert i (chain b)\<rparr>)
      in case run_prog sub (h ev) b0 of
           None \<Rightarrow> None
         | Some (r, b1) \<Rightarrow>
             (let (stop, b2) = bus_now (b1\<lparr>chain := chain b1 - {i}\<rparr>);
                  b3 = record_call i (stop - start) b2
              in Some (r, (case r of
                    Panicked v \<Rightarrow>
                      (let b4 = unregister_module (fst i) b3
                       in b4\<lparr>world := on_panic b4 (fst i) (snd i) v (world b4)\<rparr>)
                  | _ \<Rightarrow> b3))))"

fun dispatch :: "(event \<Rightarrow> ('s, 'p) bus \<Rightarrow> ('p list \<times> ('s, 'p) bus) option) \<Rightarrow> event \<Rightarrow>
    (string \<times> ('s, 'p) handler) list \<Rightarrow> 'p list \<Rightarrow> ('s, 'p) bus \<Rightarrow> ('p list \<times> ('s, 'p) bus) option" where
  "dispatch sub ev [] acc b = Some (acc, b)"
| "dispatch sub ev ((m, h) # hs) acc b =
     (let i = (m, ev_name ev)
      in if i \<in> chain b then dispatch sub ev hs acc b
         else case call_hook sub i h ev b of
                None \<Rightarrow> None
              | Some (Panicked v, b') \<Rightarrow> dispatch sub ev hs acc b'
              | Some (Returned c p, b') \<Rightarrow>
                  (let acc' = (case p of Some x \<Rightarrow> acc @ [x] | None \<Rightarrow> acc)
                   in if c = Stop then Some (acc', b') else dispatch sub ev hs acc' b'))"

definition hooks_of :: "string \<Rightarrow> ('s, 'p) bus \<Rightarrow> (string \<times> ('s, 'p) handler) list" where
  "hooks_of e b = (case map_of (events b) e of Some hs \<Rightarrow> hs | None \<Rightarrow> [])"

fun submit :: "nat \<Rightarrow> event \<Rightarrow> ('s, 'p) bus \<Rightarrow> ('p list \<times> ('s, 'p) bus) option" where
  "submit 0 ev b = None"
| "submit (Suc n) ev b = dispatch (submit n) ev (hooks_of (ev_name ev) b) [] b"

text \<open>The loop of \<open>Run\<close> over the events the queue delivers until the context ends.\<close>

fun run_queue :: "nat \<Rightarrow> event list \<Rightarrow> ('s, 'p) bus \<Rightarrow> ('s, 'p) bus option" where
  "run_queue n [] b = Some b"
| "run_queue n (ev # evs) b = (case submit n ev b of None \<Rightarrow> None | Some (_, b') \<Rightarrow> run_queue n evs b')"

section \<open>The invariant\<close>

definition bus_inv :: "('s, 'p) bus \<Rightarrow> bool" where
  "bus_inv b \<longleftrightarrow> wf_map (events b) \<and> (\<forall>(e, hs) \<in> set (events b). distinct (map fst hs))"

lemma set_hook_fst: "set (map fst (set_hook m h hs)) = insert m (set (map fst hs))"
  by (induction m h hs rule: set_hook.induct) auto

lemma set_hook_distinct: "distinct (map fst hs) \<Longrightarrow> distinct (map fst (set_hook m h hs))"
proof (induction m h hs rule: set_hook.induct)
  case (2 m h m' h' hs)
  then show ?case using set_hook_fst [of m h hs] by auto
qed simp

lemma set_hook_set: "x \<in> set (set_hook m h hs) \<Longrightarrow> x = (m, h) \<or> x \<in> set hs"
  by (induction m h hs rule: set_hook.induct) (auto split: if_splits)

text \<open>
  The modules a handler may register hooks for, those of the handlers it registers included. What a
  program registers is a fixed list of modules; without such a bound each dispatch could register a
  new hook that submits the event again.
\<close>

primrec regs_in :: "string set \<Rightarrow> ('s, 'p) prog \<Rightarrow> bool" where
  "regs_in M (Ret c p) = True"
| "regs_in M (Panic v) = True"
| "regs_in M (Access f k) = (\<forall>s. regs_in M (k s))"
| "regs_in M (Nested ev k) = (\<forall>ps. regs_in M (k ps))"
| "regs_in M (Add_hook m e h k) = (m \<in> M \<and> (\<forall>ev. regs_in M (h ev)) \<and> (\<forall>b. regs_in M (k b)))"
| "regs_in M (Drop_module m k) = regs_in M k"

definition hooks_in :: "string set \<Rightarrow> ('s, 'p) bus \<Rightarrow> bool" where
  "hooks_in M b \<longleftrightarrow> (\<forall>(e, hs) \<in> set (events b). \<forall>(m, h) \<in> set hs. m \<in> M \<and> (\<forall>ev. regs_in M (h ev)))"

definition stats_ok :: "call_stats \<Rightarrow> bool" where
  "stats_ok cs \<longleftrightarrow> int (calls cs) * min_ns cs \<le> total_ns cs \<and> total_ns cs \<le> int (calls cs) * max_ns cs"

definition stats_inv :: "('s, 'p) bus \<Rightarrow> bool" where
  "stats_inv b \<longleftrightarrow> (\<forall>(i, cs) \<in> set (stats b). 0 < calls cs \<and> stats_ok cs)"

lemma add_call_ok:
  assumes "stats_ok cs"
  shows "stats_ok (add_call ns cs) \<and> 0 < calls (add_call ns cs)"
proof -
  let ?lo = "if calls cs = 0 \<or> ns < min_ns cs then ns else min_ns cs" and ?hi = "max (max_ns cs) ns"
  have "int (calls cs) * ?lo \<le> int (calls cs) * min_ns cs"
    by (cases "calls cs = 0") (auto intro: mult_left_mono)
  moreover have "int (calls cs) * max_ns cs \<le> int (calls cs) * ?hi"
    by (rule mult_left_mono) auto
  moreover have "?lo \<le> ns" "ns \<le> ?hi" by auto
  ultimately have "int (calls cs) * ?lo + ?lo \<le> total_ns cs + ns \<and> total_ns cs + ns \<le> int (calls cs) * ?hi + ?hi"
    using assms unfolding stats_ok_def by linarith
  then show ?thesis unfolding stats_ok_def add_call_def by (simp add: distrib_right add.commute)
qed

definition declared :: "('s, 'p) bus \<Rightarrow> string set" where
  "declared b = set (map fst (events b))"

text \<open>What every primitive keeps, for a set of modules and of declared events.\<close>

definition bus_ok :: "string set \<Rightarrow> string set \<Rightarrow> ('s, 'p) bus \<Rightarrow> bool" where
  "bus_ok M E b \<longleftrightarrow> bus_inv b \<and> hooks_in M b \<and> stats_inv b \<and> declared b = E"

lemma bus_ok_fields [simp]:
  "bus_ok M E (b\<lparr>world := w\<rparr>) = bus_ok M E b"
  "bus_ok M E (b\<lparr>chain := c\<rparr>) = bus_ok M E b"
  "bus_ok M E (b\<lparr>clock_reads := n\<rparr>) = bus_ok M E b"
  by (simp_all add: bus_ok_def bus_inv_def hooks_in_def stats_inv_def declared_def)

lemma register_hook_ok:
  assumes "bus_ok M E b" and "m \<in> M" and "\<forall>ev. regs_in M (h ev)"
  shows "bus_ok M E (snd (register_hook m e h b))"
proof (cases "map_of (events b) e")
  case None
  then show ?thesis using assms by (simp add: register_hook_def)
next
  case (Some hs)
  have ok: "bus_inv b" "hooks_in M b" "stats_inv b" "declared b = E" using assms(1) by (auto simp: bus_ok_def)
  have mem: "(e, hs) \<in> set (events b)" using Some ok(1) by (simp add: bus_inv_def map_of_some_iff)
  have upd: "set (AList.update e (set_hook m h hs) (events b)) \<subseteq> insert (e, set_hook m h hs) (set (events b))"
    by (rule set_update_subset)
  have d: "distinct (map fst (set_hook m h hs))"
    using set_hook_distinct mem ok(1) by (fastforce simp: bus_inv_def)
  let ?ev = "AList.update e (set_hook m h hs) (events b)"
  have "wf_map ?ev \<and> (\<forall>(e, hs) \<in> set ?ev. distinct (map fst hs))"
    using ok(1) d upd by (auto simp: bus_inv_def)
  moreover have "\<forall>(m', h') \<in> set (set_hook m h hs). m' \<in> M \<and> (\<forall>ev. regs_in M (h' ev))"
    using set_hook_set assms(2,3) ok(2) mem by (fastforce simp: hooks_in_def)
  then have "\<forall>(e, hs) \<in> set ?ev. \<forall>(m, h) \<in> set hs. m \<in> M \<and> (\<forall>ev. regs_in M (h ev))"
    using ok(2) upd unfolding hooks_in_def by blast
  moreover have "fst ` set ?ev = fst ` set (events b)"
    using mem by (force simp: dom_update [symmetric] image_iff keys_update)
  ultimately show ?thesis
    using Some ok(3,4) by (simp add: register_hook_def bus_ok_def bus_inv_def hooks_in_def stats_inv_def declared_def)
qed

lemma unregister_ok:
  assumes "bus_ok M E b"
  shows "bus_ok M E (unregister_module m b)"
proof -
  have ok: "bus_inv b" "hooks_in M b" "stats_inv b" "declared b = E" using assms by (auto simp: bus_ok_def)
  have f: "map fst (map (\<lambda>(e, hs). (e, filter (\<lambda>(m', h). m' \<noteq> m) hs)) (events b)) = map fst (events b)"
    by (induction "events b") auto
  have "bus_inv (unregister_module m b)"
    using ok(1) f by (auto simp: bus_inv_def unregister_module_def distinct_map_filter simp del: map_map)
  moreover have "hooks_in M (unregister_module m b)"
    using ok(2) by (fastforce simp: hooks_in_def unregister_module_def)
  moreover have "declared (unregister_module m b) = E"
    using ok(4) f by (simp add: declared_def unregister_module_def del: map_map set_map)
  ultimately show ?thesis
    using ok(3) by (simp add: bus_ok_def stats_inv_def unregister_module_def)
qed

lemma record_ok:
  assumes "bus_ok M E b"
  shows "bus_ok M E (record_call i ns b)"
proof -
  have ok: "stats_inv b" using assms by (simp add: bus_ok_def)
  let ?old = "case map_of (stats b) i of Some cs \<Rightarrow> cs | None \<Rightarrow> no_calls"
  have "stats_ok ?old"
    using ok by (auto simp: stats_inv_def no_calls_def stats_ok_def dest!: map_of_SomeD split: option.splits)
  note new = add_call_ok [OF this, of ns]
  have "set (AList.update i (add_call ns ?old) (stats b)) \<subseteq> insert (i, add_call ns ?old) (set (stats b))"
    by (rule set_update_subset)
  then have "stats_inv (record_call i ns b)"
    using new ok unfolding stats_inv_def record_call_def by (fastforce simp del: option.case)
  then show ?thesis
    using assms by (simp add: bus_ok_def bus_inv_def hooks_in_def declared_def record_call_def)
qed

section \<open>Submitting\<close>

definition cap :: "string set \<Rightarrow> string set \<Rightarrow> ('s, 'p) bus \<Rightarrow> nat" where
  "cap M E b = card (M \<times> E - chain b)"

definition sub_ok :: "string set \<Rightarrow> string set \<Rightarrow> hook_id set \<Rightarrow>
    (event \<Rightarrow> ('s, 'p) bus \<Rightarrow> ('p list \<times> ('s, 'p) bus) option) \<Rightarrow> bool" where
  "sub_ok M E C sub \<longleftrightarrow> (\<forall>ev b. bus_ok M E b \<longrightarrow> chain b = C \<longrightarrow>
     (\<exists>ps b'. sub ev b = Some (ps, b') \<and> bus_ok M E b' \<and> chain b' = C))"

lemma chain_kept [simp]:
  "chain (snd (register_hook m e h b)) = chain b" "chain (unregister_module m b) = chain b"
  "chain (record_call i ns b) = chain b"
  by (auto simp: register_hook_def unregister_module_def record_call_def split: option.splits)

lemma run_prog_total:
  assumes "sub_ok M E C sub"
  shows "regs_in M p \<Longrightarrow> bus_ok M E b \<Longrightarrow> chain b = C \<Longrightarrow>
    \<exists>r b'. run_prog sub p b = Some (r, b') \<and> bus_ok M E b' \<and> chain b' = C"
proof (induction p arbitrary: b)
  case (Nested ev k)
  then obtain ps b1 where s: "sub ev b = Some (ps, b1)" "bus_ok M E b1" "chain b1 = C"
    using assms unfolding sub_ok_def by blast
  have "regs_in M (k ps)" using Nested.prems by simp
  from Nested.IH [OF rangeI this s(2,3)] s(1) show ?case by simp
next
  case (Add_hook m e h k)
  let ?r = "register_hook m e h b"
  have "regs_in M (k (fst ?r))" "bus_ok M E (snd ?r)" "chain (snd ?r) = C"
    using Add_hook.prems register_hook_ok [of M E b m h e] by simp_all
  from Add_hook.IH(2) [OF rangeI this] show ?case by simp
next
  case (Access f k)
  have "regs_in M (k (world b))" "bus_ok M E (b\<lparr>world := f (world b)\<rparr>)" "chain (b\<lparr>world := f (world b)\<rparr>) = C"
    using Access.prems by simp_all
  from Access.IH [OF rangeI this] show ?case by simp
qed (simp_all add: unregister_ok)

lemma call_hook_total:
  assumes "sub_ok M E (insert i C) sub" and "\<forall>ev. regs_in M (h ev)"
    and "bus_ok M E b" and "chain b = C" and "i \<notin> C"
  shows "\<exists>r b'. call_hook sub i h ev b = Some (r, b') \<and> bus_ok M E b' \<and> chain b' = C"
proof -
  let ?b0 = "b\<lparr>chain := insert i (chain b), clock_reads := clock_reads b + 1\<rparr>"
  have "regs_in M (h ev)" "bus_ok M E ?b0" "chain ?b0 = insert i C" using assms by simp_all
  from run_prog_total [OF assms(1) this] obtain r b1
    where r: "run_prog sub (h ev) ?b0 = Some (r, b1)" "bus_ok M E b1" "chain b1 = insert i C" by blast
  let ?b2 = "b1\<lparr>chain := chain b1 - {i}, clock_reads := clock_reads b1 + 1\<rparr>"
  let ?t = "clock b1 (clock_reads b1) - clock b (clock_reads b)"
  have "bus_ok M E (record_call i ?t ?b2)" "chain (record_call i ?t ?b2) = C"
    using r assms(5) by (auto intro!: record_ok)
  then show ?thesis
    using r(1) by (cases r) (simp_all add: call_hook_def bus_now_def unregister_ok)
qed

lemma dispatch_total:
  assumes "\<And>i. i \<in> M \<times> E \<Longrightarrow> i \<notin> C \<Longrightarrow> sub_ok M E (insert i C) sub" and "ev_name ev \<in> E"
  shows "\<forall>(m, h) \<in> set hs. m \<in> M \<and> (\<forall>ev. regs_in M (h ev)) \<Longrightarrow> bus_ok M E b \<Longrightarrow> chain b = C \<Longrightarrow>
    \<exists>ps b'. dispatch sub ev hs acc b = Some (ps, b') \<and> bus_ok M E b' \<and> chain b' = C"
proof (induction hs arbitrary: acc b)
  case (Cons mh hs)
  obtain m h where mh: "mh = (m, h)" by (cases mh)
  show ?case
  proof (cases "(m, ev_name ev) \<in> C")
    case True
    then show ?thesis using Cons mh by simp
  next
    case False
    then have "sub_ok M E (insert (m, ev_name ev) C) sub" using Cons.prems(1) mh assms by auto
    from call_hook_total [OF this _ Cons.prems(2,3) False, of h ev] Cons.prems(1) mh
    obtain r b1 where "call_hook sub (m, ev_name ev) h ev b = Some (r, b1)" "bus_ok M E b1" "chain b1 = C"
      by auto
    then show ?thesis using Cons False mh by (cases r) auto
  qed
qed simp

lemma submit_ok:
  assumes "finite M" and "finite E"
  shows "card (M \<times> E - C) < n \<Longrightarrow> sub_ok M E C (submit n)"
proof (induction n arbitrary: C)
  case (Suc n)
  show ?case
    unfolding sub_ok_def
  proof (intro allI impI)
    fix ev and b :: "('a, 'b) bus"
    assume b: "bus_ok M E b" "chain b = C"
    show "\<exists>ps b'. submit (Suc n) ev b = Some (ps, b') \<and> bus_ok M E b' \<and> chain b' = C"
    proof (cases "map_of (events b) (ev_name ev)")
      case None
      then show ?thesis using b by (simp add: hooks_of_def)
    next
      case (Some hs)
      then have mem: "(ev_name ev, hs) \<in> set (events b)" by (rule map_of_SomeD)
      then have E: "ev_name ev \<in> E" using b(1) by (force simp: bus_ok_def declared_def)
      have hs: "\<forall>(m, h) \<in> set hs. m \<in> M \<and> (\<forall>ev. regs_in M (h ev))"
        using mem b(1) by (fastforce simp: bus_ok_def hooks_in_def)
      have "sub_ok M E (insert i C) (submit n :: event \<Rightarrow> ('a, 'b) bus \<Rightarrow> _)" if "i \<in> M \<times> E" "i \<notin> C" for i
      proof (rule Suc.IH)
        have "M \<times> E - insert i C \<subset> M \<times> E - C" using that by blast
        then have "card (M \<times> E - insert i C) < card (M \<times> E - C)"
          using assms by (intro psubset_card_mono) auto
        then show "card (M \<times> E - insert i C) < n" using Suc.prems by simp
      qed
      from dispatch_total [OF this E hs b] Some show ?thesis by (simp add: hooks_of_def)
    qed
  qed
qed simp

text \<open>
  C5. Dispatch ends. However handlers submit events, register hooks and drop modules while they run,
  an event submitted on the bus comes back: nesting deeper than the number of pairs of a module and a
  declared event is refused, so that many levels of fuel are enough. The call chain is then what it was,
  every event still has one hook per module, no event was added or lost, and in every entry of the call
  statistics the total lies between the count times the minimum and the count times the maximum.
\<close>

theorem submit_total:
  assumes "finite M" and "bus_inv b" and "hooks_in M b" and "stats_inv b"
  shows "\<exists>ps b'. submit (card M * length (events b) + 1) ev b = Some (ps, b') \<and>
    chain b' = chain b \<and> bus_inv b' \<and> declared b' = declared b \<and> stats_inv b' \<and> hooks_in M b'"
proof -
  have fin: "finite (declared b)" by (simp add: declared_def)
  have "card (declared b) = length (events b)"
    using assms(2) distinct_card [of "map fst (events b)"] by (simp add: declared_def bus_inv_def)
  moreover have "card (M \<times> declared b - chain b) \<le> card (M \<times> declared b)"
    using fin assms(1) by (intro card_mono) auto
  ultimately have "card (M \<times> declared b - chain b) < card M * length (events b) + 1"
    by (simp add: card_cartesian_product)
  from submit_ok [OF assms(1) fin this] show ?thesis
    using assms(2-4) unfolding sub_ok_def bus_ok_def by blast
qed

definition demo_handler :: "(nat, nat) handler" where
  "demo_handler ev = Access Suc (\<lambda>n. Nested ev (\<lambda>ps. Add_hook ''b'' ''PING'' (\<lambda>e. Ret Replied (Some 7))
     (\<lambda>ok. Ret Replied (Some (n + length ps)))))"

definition demo_bus :: "(nat, nat) bus" where
  "demo_bus = snd (register_hook ''a'' ''PING'' demo_handler
     (register_event ''PING'' (bus_new int (\<lambda>m e v s. s) 0)))"

lemma demo_bus_ok: "bus_inv demo_bus" "hooks_in {''a'', ''b''} demo_bus" "stats_inv demo_bus"
    "length (events demo_bus) = 1"
  by (simp_all add: demo_bus_def bus_new_def register_event_def register_hook_def bus_inv_def hooks_in_def
      stats_inv_def demo_handler_def)

lemma submit_total_witness:
  "\<exists>ps b'. submit 3 (no_event\<lparr>ev_name := ''PING''\<rparr>) demo_bus = Some (ps, b') \<and>
    chain b' = chain demo_bus \<and> bus_inv b' \<and> declared b' = declared demo_bus \<and> stats_inv b' \<and>
    hooks_in {''a'', ''b''} b'"
  using submit_total [OF _ demo_bus_ok(1-3), of "no_event\<lparr>ev_name := ''PING''\<rparr>"] demo_bus_ok(4)
  by (simp add: numeral_eq_Suc)

section \<open>What one dispatch does\<close>

text \<open>
  The reference for handlers that only answer or panic: the modules called, the payloads collected up
  to and including the first \<open>Stop\<close>, and the modules that panicked.
\<close>

fun leaf :: "('s, 'p) prog \<Rightarrow> bool" where
  "leaf (Ret c p) = True"
| "leaf (Panic v) = True"
| "leaf p = False"

fun called :: "(string \<times> ('s, 'p) prog) list \<Rightarrow> string list" where
  "called [] = []"
| "called ((m, p) # r) = m # (case p of Ret c x \<Rightarrow> if c = Stop then [] else called r | _ \<Rightarrow> called r)"

fun payloads :: "(string \<times> ('s, 'p) prog) list \<Rightarrow> 'p list" where
  "payloads [] = []"
| "payloads ((m, p) # r) =
     (case p of
        Ret c x \<Rightarrow> (case x of Some y \<Rightarrow> [y] | None \<Rightarrow> []) @ (if c = Stop then [] else payloads r)
      | _ \<Rightarrow> payloads r)"

fun panicked :: "(string \<times> ('s, 'p) prog) list \<Rightarrow> string list" where
  "panicked [] = []"
| "panicked ((m, p) # r) =
     (case p of Ret c x \<Rightarrow> if c = Stop then [] else panicked r | Panic v \<Rightarrow> m # panicked r | _ \<Rightarrow> panicked r)"

lemma hooks_of_unregister:
  "hooks_of e (unregister_module m b) = filter (\<lambda>(m', h). m' \<noteq> m) (hooks_of e b)"
  by (simp add: hooks_of_def unregister_module_def map_of_map_snd split: option.splits)

lemma hooks_of_fields [simp]:
  "hooks_of e (b\<lparr>chain := c\<rparr>) = hooks_of e b" "hooks_of e (b\<lparr>clock_reads := n\<rparr>) = hooks_of e b"
  "hooks_of e (b\<lparr>world := w\<rparr>) = hooks_of e b" "hooks_of e (record_call i t b) = hooks_of e b"
  by (simp_all add: hooks_of_def record_call_def)

lemma stats_keys [simp]:
  "fst ` set (stats (record_call i t b)) = insert i (fst ` set (stats b))"
  "stats (unregister_module m b) = stats b"
  by (simp_all add: record_call_def unregister_module_def)

lemma call_leaf:
  assumes "leaf (h ev)" and "i \<notin> chain b"
  shows "\<exists>r b'. call_hook sub i h ev b = Some (r, b') \<and> chain b' = chain b \<and>
    fst ` set (stats b') = insert i (fst ` set (stats b)) \<and>
    (case h ev of
       Panic v \<Rightarrow> r = Panicked v \<and> (\<forall>e. hooks_of e b' = filter (\<lambda>(m, h). m \<noteq> fst i) (hooks_of e b))
     | Ret c p \<Rightarrow> r = Returned c p \<and> (\<forall>e. hooks_of e b' = hooks_of e b) | _ \<Rightarrow> False)"
  using assms
  by (cases "h ev") (simp_all add: call_hook_def bus_now_def hooks_of_unregister insert_Diff_if)

lemma dispatch_leaf:
  "\<forall>(m, h) \<in> set hs. leaf (h ev) \<and> (m, ev_name ev) \<notin> chain b \<Longrightarrow>
   \<exists>b'. dispatch sub ev hs acc b = Some (acc @ payloads (map (\<lambda>(m, h). (m, h ev)) hs), b') \<and>
     chain b' = chain b \<and>
     fst ` set (stats b') = fst ` set (stats b) \<union> (\<lambda>m. (m, ev_name ev)) ` set (called (map (\<lambda>(m, h). (m, h ev)) hs)) \<and>
     (\<forall>e. hooks_of e b' = filter (\<lambda>(m, h). m \<notin> set (panicked (map (\<lambda>(m, h). (m, h ev)) hs))) (hooks_of e b))"
proof (induction hs arbitrary: acc b)
  case (Cons mh hs)
  obtain m h where mh: "mh = (m, h)" by (cases mh)
  let ?i = "(m, ev_name ev)"
  have l: "leaf (h ev)" "?i \<notin> chain b" using Cons.prems mh by auto
  from call_leaf [where h = h and ev = ev and i = ?i, OF this, of sub] obtain r b1 where
    c: "call_hook sub ?i h ev b = Some (r, b1)" "chain b1 = chain b"
       "fst ` set (stats b1) = insert ?i (fst ` set (stats b))" and
    k: "case h ev of
       Panic v \<Rightarrow> r = Panicked v \<and> (\<forall>e. hooks_of e b1 = filter (\<lambda>(m', h). m' \<noteq> fst ?i) (hooks_of e b))
     | Ret c p \<Rightarrow> r = Returned c p \<and> (\<forall>e. hooks_of e b1 = hooks_of e b) | _ \<Rightarrow> False" by blast
  have "\<forall>(m, h) \<in> set hs. leaf (h ev) \<and> (m, ev_name ev) \<notin> chain b1" using Cons.prems c(2) by auto
  note IH = Cons.IH [OF this]
  have ff: "filter (\<lambda>(m', h). m' \<notin> X) (filter (\<lambda>(m', h). m' \<noteq> m) hk) =
      filter (\<lambda>(m', h). m' \<noteq> m \<and> m' \<notin> X) hk" for X and hk :: "(string \<times> ('a, 'b) handler) list"
    by (auto intro!: filter_cong)
  show ?case
  proof (cases "h ev")
    case (Ret c p)
    then show ?thesis
      using IH [of "acc @ (case p of Some y \<Rightarrow> [y] | None \<Rightarrow> [])"] k c l(2) mh
      by (cases p; cases "c = Stop") auto
  next
    case (Panic v)
    then show ?thesis using IH [of acc] k c l(2) mh ff by auto
  qed (use l in auto)
qed auto


definition order_bus :: "(unit, string) bus" where
  "order_bus =
     (let b = register_event ''JOIN'' (register_event ''PART'' (bus_new int (\<lambda>m e v s. s) ()));
          add = (\<lambda>m e p b. snd (register_hook m e (\<lambda>ev. p) b))
      in add ''four'' ''JOIN'' (Ret Replied (Some ''late''))
        (add ''three'' ''JOIN'' (Ret Stop (Some ''stop''))
        (add ''two'' ''PART'' (Ret Replied None)
        (add ''two'' ''JOIN'' (Panic ''nil map'')
        (add ''one'' ''JOIN'' (Ret Replied (Some ''hi'')) b)))))"

lemma order_hooks:
  "hooks_of ''JOIN'' order_bus = [(''one'', \<lambda>ev. Ret Replied (Some ''hi'')), (''two'', \<lambda>ev. Panic ''nil map''),
     (''three'', \<lambda>ev. Ret Stop (Some ''stop'')), (''four'', \<lambda>ev. Ret Replied (Some ''late''))]"
  "hooks_of ''PART'' order_bus = [(''two'', \<lambda>ev. Ret Replied None)]" "chain order_bus = {}"
  by (simp_all add: order_bus_def bus_new_def register_event_def register_hook_def hooks_of_def)


text \<open>
  Re-entry is refused: an event submitted while all its hooks are on the call chain runs nothing,
  and in general the hooks on the chain are passed over as if they were not registered.
\<close>

theorem dispatch_skips_chain:
  assumes "finite M" and "bus_ok M E b" and "ev_name ev \<in> E"
    and "\<forall>(m, h) \<in> set hs. m \<in> M \<and> (\<forall>ev. regs_in M (h ev))" and "card (M \<times> E) < n"
  shows "dispatch (submit n) ev hs acc b =
    dispatch (submit n) ev (filter (\<lambda>(m, h). (m, ev_name ev) \<notin> chain b) hs) acc b"
  using assms(2,4)
proof (induction hs arbitrary: acc b)
  case (Cons mh hs)
  obtain m h where mh: "mh = (m, h)" by (cases mh)
  show ?case
  proof (cases "(m, ev_name ev) \<in> chain b")
    case True
    then show ?thesis using Cons mh by simp
  next
    case False
    have E: "finite E" using Cons.prems(1) by (auto simp: bus_ok_def declared_def)
    have "card (M \<times> E - C) < n" for C
      using assms(1,5) E card_mono [of "M \<times> E" "M \<times> E - C"] by auto
    from submit_ok [OF assms(1) E this]
    have "sub_ok M E (insert (m, ev_name ev) (chain b)) (submit n)" .
    from call_hook_total [OF this _ Cons.prems(1) refl False, of h ev] Cons.prems(2) mh
    obtain r b1 where "call_hook (submit n) (m, ev_name ev) h ev b = Some (r, b1)" "bus_ok M E b1" "chain b1 = chain b"
      by auto
    then show ?thesis using Cons False mh by (cases r) auto
  qed
qed simp

lemma dispatch_skips_chain_witness:
  "dispatch (submit 3) (no_event\<lparr>ev_name := ''PING''\<rparr>) (hooks_of ''PING'' demo_bus) []
     (demo_bus\<lparr>chain := {(''a'', ''PING'')}\<rparr>) = Some ([], demo_bus\<lparr>chain := {(''a'', ''PING'')}\<rparr>)"
proof -
  have d: "declared demo_bus = {''PING''}"
    by (simp add: demo_bus_def bus_new_def register_event_def register_hook_def declared_def)
  have h: "hooks_of ''PING'' demo_bus = [(''a'', demo_handler)]"
    by (simp add: demo_bus_def bus_new_def register_event_def register_hook_def hooks_of_def)
  have "bus_ok {''a'', ''b''} {''PING''} demo_bus" using demo_bus_ok d by (simp add: bus_ok_def)
  then have b: "bus_ok {''a'', ''b''} {''PING''} (demo_bus\<lparr>chain := {(''a'', ''PING'')}\<rparr>)" by simp
  from dispatch_skips_chain [OF _ b, of "no_event\<lparr>ev_name := ''PING''\<rparr>" "hooks_of ''PING'' demo_bus" 3 "[]"]
  show ?thesis by (simp add: h demo_handler_def)
qed

end
