(* ===== verification/Edit_Distance.thy ===== *)
theory Edit_Distance
  imports Go_Utf8
begin

text \<open>
  The function \<open>levenshtein\<close> of internal/irc/cmd/cmd.go: the two-row table over the runes of both
  strings, and the edit distance it computes, the least number of insertions, deletions and
  substitutions that turn one string into the other.
\<close>

section \<open>The two-row table\<close>

text \<open>The inner loop: the cells of the current row right of \<open>left\<close>, from the previous row.\<close>

fun row_cells :: "'a \<Rightarrow> 'a list \<Rightarrow> nat list \<Rightarrow> nat \<Rightarrow> nat list" where
  "row_cells ca (cb # bs) (p # q # ps) left =
     (let c = min (min (p + (if ca = cb then 0 else 1)) (q + 1)) (left + 1)
      in c # row_cells ca bs (q # ps) c)"
| "row_cells ca bs ps left = []"

text \<open>The outer loop: row \<open>i\<close> gives row \<open>i + 1\<close>, whose first cell is \<open>i + 1\<close>.\<close>

fun lev_rows :: "nat \<Rightarrow> 'a list \<Rightarrow> 'a list \<Rightarrow> nat list \<Rightarrow> nat list" where
  "lev_rows i [] rb prev = prev"
| "lev_rows i (ca # ra) rb prev = lev_rows (i + 1) ra rb ((i + 1) # row_cells ca rb prev (i + 1))"

definition lev_runes :: "'a list \<Rightarrow> 'a list \<Rightarrow> nat" where
  "lev_runes ra rb = lev_rows 0 ra rb [0..<length rb + 1] ! length rb"

definition levenshtein :: "string \<Rightarrow> string \<Rightarrow> nat" where
  "levenshtein a b = lev_runes (runes a) (runes b)"

section \<open>Edit scripts\<close>

text \<open>\<open>edits a b n\<close>: some alignment of \<open>a\<close> with \<open>b\<close> costs \<open>n\<close>.\<close>

inductive edits :: "'a list \<Rightarrow> 'a list \<Rightarrow> nat \<Rightarrow> bool" where
  edits_none: "edits [] [] 0"
| edits_keep: "edits a b n \<Longrightarrow> edits (a @ [x]) (b @ [x]) n"
| edits_subst: "edits a b n \<Longrightarrow> edits (a @ [x]) (b @ [y]) (n + 1)"
| edits_delete: "edits a b n \<Longrightarrow> edits (a @ [x]) b (n + 1)"
| edits_insert: "edits a b n \<Longrightarrow> edits a (b @ [y]) (n + 1)"

inductive_cases edits_Nil_NilE: "edits [] [] n"

text \<open>The recursion behind the table, on reversed prefixes.\<close>

fun ed :: "'a list \<Rightarrow> 'a list \<Rightarrow> nat" where
  "ed [] ys = length ys"
| "ed xs [] = length xs"
| "ed (x # xs) (y # ys) =
     min (min (ed xs ys + (if x = y then 0 else 1)) (ed xs (y # ys) + 1)) (ed (x # xs) ys + 1)"

lemma ed_Nil2 [simp]: "ed xs [] = length xs"
  by (cases xs) auto

lemma ed_delete_le: "ed (x # xs) ys \<le> ed xs ys + 1"
  by (cases ys) auto

lemma ed_insert_le: "ed xs (y # ys) \<le> ed xs ys + 1"
  by (cases xs) auto

lemma ed_keep_le: "ed (x # xs) (x # ys) \<le> ed xs ys"
  by simp

lemma ed_subst_le: "ed (x # xs) (y # ys) \<le> ed xs ys + 1"
  by (auto simp: min_def)

lemma edits_ge_ed: "edits a b n \<Longrightarrow> ed (rev a) (rev b) \<le> n"
proof (induction rule: edits.induct)
  case (edits_keep a b n x)
  then show ?case using ed_keep_le [of x "rev a" "rev b"] by simp
next
  case (edits_subst a b n x y)
  then show ?case using ed_subst_le [of x "rev a" y "rev b"] by simp
next
  case (edits_delete a b n x)
  then show ?case using ed_delete_le [of x "rev a" "rev b"] by simp
next
  case (edits_insert a b n y)
  then show ?case using ed_insert_le [of "rev a" y "rev b"] by simp
qed simp

lemma min3_closed: "P a \<Longrightarrow> P b \<Longrightarrow> P c \<Longrightarrow> P (min (min a b) (c :: nat))"
  by (simp add: min_def)

lemma edits_ed: "edits (rev xs) (rev ys) (ed xs ys)"
proof (induction xs ys rule: ed.induct)
  case (1 ys)
  show ?case
    by (induction ys) (auto intro: edits_none edits_insert [of "[]", simplified])
next
  case (2 x xs)
  have "edits (rev zs) [] (length zs)" for zs :: "'a list"
    by (induction zs) (auto intro: edits_none edits_delete [of _ "[]", simplified])
  from this [of "x # xs"] show ?case by simp
next
  case (3 x xs y ys)
  let ?a = "ed xs ys + (if x = y then 0 else 1)" and ?b = "ed xs (y # ys) + 1" and ?c = "ed (x # xs) ys + 1"
  have "edits (rev (x # xs)) (rev (y # ys)) ?a"
    using edits_keep [OF "3.IH"(1), of x] edits_subst [OF "3.IH"(1), of x y] by (cases "x = y") auto
  moreover have "edits (rev (x # xs)) (rev (y # ys)) ?b" using edits_delete [OF "3.IH"(2), of x] by simp
  moreover have "edits (rev (x # xs)) (rev (y # ys)) ?c" using edits_insert [OF "3.IH"(3), of y] by simp
  ultimately show ?case unfolding ed.simps(3) by (rule min3_closed)
qed

section \<open>The table computes the recursion\<close>

lemma row_cells_ed:
  assumes "prev = map (\<lambda>j. ed A (rev (pre @ take j bs))) [0..<length bs + 1]" and "left = ed (ca # A) (rev pre)"
  shows "row_cells ca bs prev left = map (\<lambda>j. ed (ca # A) (rev (pre @ take j bs))) [1..<length bs + 1]"
  using assms
proof (induction bs arbitrary: pre prev left)
  case (Cons cb bs)
  let ?g = "\<lambda>j. ed A (rev ((pre @ [cb]) @ take j bs))"
  have shift: "map f [1..<length (cb # bs) + 1] = map (\<lambda>j. f (Suc j)) [0..<length bs + 1]" for f :: "nat \<Rightarrow> nat"
    by (rule nth_equalityI) (simp_all del: upt_Suc)
  have "prev = ed A (rev pre) # map ?g [0..<length bs + 1]"
    using Cons.prems(1) shift [of "\<lambda>j. ed A (rev (pre @ take j (cb # bs)))"]
    by (subst (asm) upt_conv_Cons) (simp_all del: upt_Suc)
  moreover have g: "map ?g [0..<length bs + 1] = ed A (rev (pre @ [cb])) # map ?g [1..<length bs + 1]"
    by (subst upt_conv_Cons) (simp_all del: upt_Suc)
  ultimately have prev: "prev = ed A (rev pre) # ed A (rev (pre @ [cb])) # map ?g [1..<length bs + 1]" by simp
  let ?c = "min (min (ed A (rev pre) + (if ca = cb then 0 else 1)) (ed A (rev (pre @ [cb])) + 1)) (left + 1)"
  have c: "?c = ed (ca # A) (rev (pre @ [cb]))" using Cons.prems(2) by simp
  have "row_cells ca (cb # bs) prev left = ?c # row_cells ca bs (map ?g [0..<length bs + 1]) ?c"
    unfolding prev g by simp
  also have "row_cells ca bs (map ?g [0..<length bs + 1]) ?c =
      map (\<lambda>j. ed (ca # A) (rev ((pre @ [cb]) @ take j bs))) [1..<length bs + 1]"
    by (rule Cons.IH [OF refl c])
  finally have "row_cells ca (cb # bs) prev left =
      map (\<lambda>j. ed (ca # A) (rev ((pre @ [cb]) @ take j bs))) [0..<length bs + 1]"
    unfolding c upt_conv_Cons [of 0 "length bs + 1", OF add_gr_0 [THEN iffD2, OF disjI2 [OF zero_less_one]]]
    by (simp del: upt_Suc)
  then show ?case
    by (simp only: shift take_Suc_Cons append_Cons append_Nil append_assoc)
qed simp

lemma lev_rows_ed:
  "prev = map (\<lambda>j. ed (rev A) (rev (take j rb))) [0..<length rb + 1] \<Longrightarrow> i = length A \<Longrightarrow>
   lev_rows i ra rb prev = map (\<lambda>j. ed (rev (A @ ra)) (rev (take j rb))) [0..<length rb + 1]"
proof (induction ra arbitrary: A prev i)
  case (Cons ca ra)
  have "row_cells ca rb prev (i + 1) = map (\<lambda>j. ed (ca # rev A) (rev (take j rb))) [1..<length rb + 1]"
    using row_cells_ed [of prev "rev A" "[]" rb "i + 1" ca] Cons.prems by simp
  then have "(i + 1) # row_cells ca rb prev (i + 1) =
      map (\<lambda>j. ed (rev (A @ [ca])) (rev (take j rb))) [0..<length rb + 1]"
    using Cons.prems(2) by (subst upt_conv_Cons) (simp_all del: upt_Suc)
  from Cons.IH [OF this] Cons.prems(2) show ?case by simp
qed simp

lemma lev_runes_ed: "lev_runes ra rb = ed (rev ra) (rev rb)"
proof -
  have "ed [] (rev (take j rb)) = j" if "j < length rb + 1" for j using that by simp
  then have "[0..<length rb + 1] = map (\<lambda>j. ed (rev []) (rev (take j rb))) [0..<length rb + 1]"
    by (intro map_idI [symmetric]) auto
  from lev_rows_ed [OF this refl, of ra] show ?thesis
    unfolding lev_runes_def by (simp del: upt_Suc)
qed

text \<open>
  C22. The distance is the edit distance: some script of insertions, deletions and substitutions of
  that cost turns the runes of one word into those of the other, and none costs less.
\<close>

theorem levenshtein_optimal:
  "edits (runes a) (runes b) (levenshtein a b) \<and>
   (\<nexists>n. edits (runes a) (runes b) n \<and> n < levenshtein a b)"
  using edits_ed [of "rev (runes a)" "rev (runes b)"] edits_ge_ed
  by (auto simp: levenshtein_def lev_runes_ed not_less)

end
