(* ===== verification/Cmd.thy ===== *)
theory Cmd
  imports Bus Edit_Distance "HOL-Library.Product_Lexorder"
begin

text \<open>
  internal/irc/cmd/cmd.go: the dispatcher of ! commands. A handler is a value of the type \<open>'h\<close> that the
  argument \<open>exec\<close> runs on the rest of the program, \<open>'w\<close>; it answers or panics. Handlers that change the
  registry while it dispatches are not modelled. \<open>Reply\<close> and \<open>Rand\<close> act on the rest of the program
  too, and \<open>None\<close> is a \<open>Reply\<close> that is not set.
\<close>

section \<open>The registry\<close>

record cmd_data =
  command :: string
  data :: string
  cmd_event :: event

datatype handler_result = Answered bool | Paniced

record 'h default_cmd =
  d_module :: string
  priority :: int
  cont :: bool
  d_fn :: 'h
  dead :: bool

record 'h registry =
  commands :: "(string \<times> (string \<times> 'h) list) list"
  defaults :: "'h default_cmd list"

record ('h, 'w) cmd_env =
  exec :: "'h \<Rightarrow> cmd_data \<Rightarrow> 'w \<Rightarrow> handler_result \<times> 'w"
  reply :: "(event \<Rightarrow> string \<Rightarrow> 'w \<Rightarrow> 'w) option"
  rand :: "nat \<Rightarrow> 'w \<Rightarrow> nat \<times> 'w"

definition annoy :: "string list" where
  "annoy = [''..derpdurpderp..'', '';)'', ''?????'', ''Orrr..'', ''(:'']"

definition reg_new :: "'h registry" where
  "reg_new = \<lparr>commands = [], defaults = []\<rparr>"

definition regs_of :: "'h registry \<Rightarrow> string \<Rightarrow> (string \<times> 'h) list" where
  "regs_of r word = (case map_of (commands r) word of Some regs \<Rightarrow> regs | None \<Rightarrow> [])"

definition register :: "string \<Rightarrow> string \<Rightarrow> 'h \<Rightarrow> 'h registry \<Rightarrow> 'h registry" where
  "register m word h r =
     r\<lparr>commands := AList.update word (set_hook m h (regs_of r word)) (commands r)\<rparr>"

definition register_default :: "string \<Rightarrow> int \<Rightarrow> bool \<Rightarrow> 'h \<Rightarrow> 'h registry \<Rightarrow> 'h registry" where
  "register_default m p c h r =
     r\<lparr>defaults := sort_key (\<lambda>d. - priority d)
        (defaults r @ [\<lparr>d_module = m, priority = p, cont = c, d_fn = h, dead = False\<rparr>])\<rparr>"

definition drop_regs :: "string \<Rightarrow> (string \<times> 'h) list \<Rightarrow> (string \<times> 'h) list" where
  "drop_regs m regs = filter (\<lambda>(m', h). m' \<noteq> m) regs"

definition unregister_cmds :: "string \<Rightarrow> 'h registry \<Rightarrow> 'h registry" where
  "unregister_cmds m r =
     r\<lparr>commands := filter (\<lambda>(w, regs). regs \<noteq> []) (map (\<lambda>(w, regs). (w, drop_regs m regs)) (commands r)),
       defaults := filter (\<lambda>d. d_module d \<noteq> m) (defaults r)\<rparr>"

definition has_cmd :: "'h registry \<Rightarrow> string \<Rightarrow> bool" where
  "has_cmd r word = (map_of (commands r) word \<noteq> None)"

definition command_words :: "'h registry \<Rightarrow> string list" where
  "command_words r = sort (map fst (commands r))"

definition remove_command :: "string \<Rightarrow> string \<Rightarrow> 'h registry \<Rightarrow> 'h registry" where
  "remove_command word m r =
     (let regs = drop_regs m (regs_of r word)
      in if regs = [] then r\<lparr>commands := AList.delete word (commands r)\<rparr>
         else r\<lparr>commands := AList.update word regs (commands r)\<rparr>)"

section \<open>Dispatch\<close>

text \<open>
  The expression \<open>^!(\w+)(?:\s+(.*?))?$\<close>: the word is the longest run of word characters, and after it
  the text ends or blanks follow, and after all of them no newline.
\<close>

definition match_cmd_line :: "string \<Rightarrow> (string \<times> string) option" where
  "match_cmd_line s =
     (if \<not> has_prefix ''!'' s then None
      else (let word = takeWhile is_word (drop 1 s); rest = dropWhile is_word (drop 1 s);
                text = dropWhile is_ws rest
            in if word = [] then None
               else if rest = [] then Some (word, [])
               else if is_ws (hd rest) \<and> CHR 0x0A \<notin> set text then Some (word, text) else None))"

text \<open>The loop over the registrations of a word; the result lists the modules that panicked.\<close>

fun run_regs :: "('h, 'w) cmd_env \<Rightarrow> cmd_data \<Rightarrow> (string \<times> 'h) list \<Rightarrow> 'w \<Rightarrow> string list \<times> 'w" where
  "run_regs env d [] w = ([], w)"
| "run_regs env d ((m, h) # regs) w =
     (case exec env h d w of
        (Paniced, w') \<Rightarrow> (let (dead, w'') = run_regs env d regs w' in (m # dead, w''))
      | (Answered _, w') \<Rightarrow> run_regs env d regs w')"

text \<open>The loop of \<open>runDefaults\<close>, with the handler marked dead and \<open>handled\<close> as it stands.\<close>

fun defaults_loop :: "('h, 'w) cmd_env \<Rightarrow> cmd_data \<Rightarrow> bool \<Rightarrow> 'h default_cmd list \<Rightarrow> bool \<Rightarrow> 'w \<Rightarrow>
    'h default_cmd list \<times> bool \<times> 'w" where
  "defaults_loop env d c [] handled w = ([], handled, w)"
| "defaults_loop env d c (dc # ds) handled w =
     (if cont dc \<noteq> c \<or> dead dc then
        (let (ds', r) = defaults_loop env d c ds handled w in (dc # ds', r))
      else
        case exec env (d_fn dc) d w of
          (Paniced, w') \<Rightarrow>
            (let (ds', r) = defaults_loop env d c ds handled w' in (dc\<lparr>dead := True\<rparr> # ds', r))
        | (Answered h, w') \<Rightarrow>
            if \<not> c \<and> h then (dc # ds, h, w')
            else (let (ds', r) = defaults_loop env d c ds h w' in (dc # ds', r)))"

definition run_defaults :: "('h, 'w) cmd_env \<Rightarrow> cmd_data \<Rightarrow> bool \<Rightarrow> 'h registry \<Rightarrow> 'w \<Rightarrow> bool \<times> 'h registry \<times> 'w" where
  "run_defaults env d c r w =
     (let (ds, handled, w') = defaults_loop env d c (defaults r) False w
      in (handled, r\<lparr>defaults := filter (\<lambda>dc. \<not> dead dc) ds\<rparr>, w'))"

definition max_dist :: "string \<Rightarrow> nat" where
  "max_dist word = (if length word \<le> 3 then 1 else 2)"

definition possible_words :: "'h registry \<Rightarrow> string \<Rightarrow> (nat \<times> string) list" where
  "possible_words r word =
     sort_key fst (filter (\<lambda>p. fst p \<le> max_dist word)
       (map (\<lambda>w. (levenshtein w word, w)) (command_words r)))"

definition suggestion :: "string list \<Rightarrow> string" where
  "suggestion words =
     ''Maybe you meant'' @ (if length words > 1 then '' any of'' else []) @ '': {W}'' @
     join ''{/}, {W}'' words @ ''{/}?''"

definition suggest :: "('h, 'w) cmd_env \<Rightarrow> 'h registry \<Rightarrow> event \<Rightarrow> string \<Rightarrow> 'w \<Rightarrow> 'w" where
  "suggest env r ev word w =
     (case reply env of
        None \<Rightarrow> w
      | Some send \<Rightarrow>
          (let ps = possible_words r word
           in if ps = [] then w
              else (let text = suggestion (map snd ps);
                        (x, w1) = rand env 6 w;
                        (text', w2) =
                          (if x = 1 then (let (y, w2) = rand env (length annoy) w1
                                          in (text @ '' '' @ annoy ! y, w2))
                           else (text, w1))
                    in send ev (nick (ev_sender ev) @ '': '' @ text') w2)))"

definition handle_cmd :: "('h, 'w) cmd_env \<Rightarrow> event \<Rightarrow> 'h registry \<Rightarrow> 'w \<Rightarrow> bool \<times> 'h registry \<times> 'w" where
  "handle_cmd env ev r w =
     (case match_cmd_line (msg ev) of
        None \<Rightarrow> (False, r, w)
      | Some (word, rest) \<Rightarrow>
          if has_cmd r word then
            (let d = \<lparr>command = word, data = trim_space rest, cmd_event = ev\<rparr>;
                 (dead, w') = run_regs env d (regs_of r word) w
             in (True, fold (\<lambda>m r. remove_command word m r) dead r, w'))
          else
            (let d = \<lparr>command = [], data = trim_space (word @ '' '' @ rest), cmd_event = ev\<rparr>;
                 (handled, r1, w1) = run_defaults env d False r w
             in if handled then (True, r1, w1)
                else (let w2 = suggest env r1 ev word w1; (_, r3, w3) = run_defaults env d True r1 w2
                      in (True, r3, w3))))"

section \<open>The invariant of the registry\<close>

definition regs_ok :: "string \<times> (string \<times> 'h) list \<Rightarrow> bool" where
  "regs_ok e = (snd e \<noteq> [] \<and> distinct (map fst (snd e)))"

definition reg_inv :: "'h registry \<Rightarrow> bool" where
  "reg_inv r \<longleftrightarrow> wf_map (commands r) \<and>
     (\<forall>e \<in> set (commands r). regs_ok e) \<and>
     sorted (map (\<lambda>d. - priority d) (defaults r)) \<and> (\<forall>d \<in> set (defaults r). \<not> dead d)"

lemma reg_invD:
  assumes "reg_inv r"
  shows "wf_map (commands r)" and "(w, regs) \<in> set (commands r) \<Longrightarrow> regs \<noteq> [] \<and> distinct (map fst regs)"
    and "sorted (map (\<lambda>d. - priority d) (defaults r))" and "d \<in> set (defaults r) \<Longrightarrow> \<not> dead d"
  using assms by (auto simp: reg_inv_def regs_ok_def)

lemma regs_of_distinct: "reg_inv r \<Longrightarrow> distinct (map fst (regs_of r w))"
  by (auto simp: regs_of_def dest: map_of_SomeD reg_invD(2) split: option.splits)

lemma set_hook_not_Nil [simp]: "set_hook m h hs \<noteq> []"
  by (cases "(m, h, hs)" rule: set_hook.cases) auto

lemma register_inv: "reg_inv r \<Longrightarrow> reg_inv (register m w h r)"
  using set_hook_distinct [OF regs_of_distinct, of r m h w]
    update_all [of "commands r" regs_ok w "set_hook m h (regs_of r w)"]
  by (simp add: reg_inv_def register_def) (simp add: regs_ok_def)

lemma register_default_inv: "reg_inv r \<Longrightarrow> reg_inv (register_default m p c h r)"
  by (auto simp: reg_inv_def register_default_def)

lemma drop_regs_distinct: "distinct (map fst regs) \<Longrightarrow> distinct (map fst (drop_regs m regs))"
  by (simp add: drop_regs_def distinct_map_filter)

lemma sorted_filter_key: "sorted (map f xs) \<Longrightarrow> sorted (map f (filter P xs))"
  by (induction xs) auto

lemma unregister_cmds_inv:
  assumes "reg_inv r"
  shows "reg_inv (unregister_cmds m r)"
proof -
  have "wf_map (map (\<lambda>(w, regs). (w, drop_regs m regs)) (commands r))"
    using reg_invD(1) [OF assms] by (simp add: comp_def case_prod_beta')
  then show ?thesis
    using reg_invD [OF assms] drop_regs_distinct
    by (fastforce simp: reg_inv_def unregister_cmds_def sorted_filter_key regs_ok_def)
qed

lemma remove_command_inv:
  assumes "reg_inv r"
  shows "reg_inv (remove_command w m r)"
proof (cases "drop_regs m (regs_of r w) = []")
  case True
  then show ?thesis using reg_invD [OF assms] by (auto simp: remove_command_def reg_inv_def set_delete regs_ok_def)
next
  case False
  then show ?thesis
    using assms drop_regs_distinct [OF regs_of_distinct [OF assms]]
      update_all [of "commands r" regs_ok w "drop_regs m (regs_of r w)"]
    by (simp add: remove_command_def reg_inv_def) (simp add: regs_ok_def)
qed

lemma defaults_loop_shape:
  "defaults_loop env d c ds handled w = (ds', r) \<Longrightarrow>
   map (\<lambda>d. d\<lparr>dead := False\<rparr>) ds' = map (\<lambda>d. d\<lparr>dead := False\<rparr>) ds"
  by (induction ds arbitrary: ds' r handled w)
    (auto split: if_splits prod.splits handler_result.splits)

lemma run_defaults_fields:
  "run_defaults env d c r w = (b, r', w') \<Longrightarrow>
   b = fst (snd (defaults_loop env d c (defaults r) False w)) \<and>
   w' = snd (snd (defaults_loop env d c (defaults r) False w)) \<and> commands r' = commands r"
  by (auto simp: run_defaults_def split: prod.splits)

lemma run_defaults_inv:
  assumes "reg_inv r" and "run_defaults env d c r w = (b, r', w')"
  shows "reg_inv r'"
proof -
  obtain ds h w1 where l: "defaults_loop env d c (defaults r) False w = (ds, h, w1)" by (metis prod_cases3)
  have "map (\<lambda>d. - priority d) ds = map (\<lambda>d. - priority d) (map (\<lambda>d. d\<lparr>dead := False\<rparr>) ds)" by simp
  also have "\<dots> = map (\<lambda>d. - priority d) (defaults r)"
    unfolding defaults_loop_shape [OF l] by simp
  finally have "sorted (map (\<lambda>d. - priority d) ds)" using reg_invD(3) [OF assms(1)] by simp
  then show ?thesis
    using assms l by (auto simp: run_defaults_def reg_inv_def sorted_filter_key)
qed

section \<open>Properties\<close>

lemma map_of_drop:
  "wf_map (map (\<lambda>(w, regs). (w, f regs)) cs) \<Longrightarrow>
   map_of (filter (\<lambda>(w, regs). regs \<noteq> []) (map (\<lambda>(w, regs). (w, f regs)) cs)) w =
     (case map_of cs w of Some regs \<Rightarrow> if f regs = [] then None else Some (f regs) | None \<Rightarrow> None)"
proof (induction cs)
  case (Cons c cs)
  have "map_of (filter (\<lambda>(w, regs). regs \<noteq> []) (map (\<lambda>(w, regs). (w, f regs)) cs)) (fst c) = None"
    using Cons.prems by (cases c) (force simp: map_of_eq_None_iff)
  then show ?case using Cons by (cases c) auto
qed simp

text \<open>
  The registry keeps its shape: words are unique and never left without a handler, a module has at
  most one handler per word, the default handlers stay ordered by priority, equal priorities in the
  order of registration, whatever is registered or dropped; and a module that is unregistered has no
  handler left while every other registration is as before.
\<close>

theorem registry_kept:
  assumes "reg_inv r"
  shows "reg_inv (register m w h r) \<and> reg_inv (register_default m p c h r) \<and>
    reg_inv (unregister_cmds m r) \<and> reg_inv (remove_command w m r) \<and>
    (\<forall>w. regs_of (unregister_cmds m r) w = filter (\<lambda>(m', h). m' \<noteq> m) (regs_of r w)) \<and>
    defaults (unregister_cmds m r) = filter (\<lambda>d. d_module d \<noteq> m) (defaults r) \<and>
    filter (\<lambda>d. priority d = p) (defaults (register_default m p c h r)) =
      filter (\<lambda>d. priority d = p) (defaults r) @
        [\<lparr>d_module = m, priority = p, cont = c, d_fn = h, dead = False\<rparr>]"
proof -
  have "wf_map (map (\<lambda>(w, regs). (w, drop_regs m regs)) (commands r))"
    using reg_invD(1) [OF assms] by (simp add: comp_def case_prod_beta')
  from map_of_drop [OF this]
  have "regs_of (unregister_cmds m r) w = filter (\<lambda>(m', h). m' \<noteq> m) (regs_of r w)" for w
    by (auto simp: regs_of_def unregister_cmds_def drop_regs_def split: option.splits)
  moreover have "filter (\<lambda>d. priority d = p) (sort_key (\<lambda>d. - priority d) ds) = filter (\<lambda>d. priority d = p) ds"
    for ds :: "'a default_cmd list"
    using sort_key_stable_filter [of "\<lambda>d. - priority d" "- p" ds] by simp
  ultimately show ?thesis
    using assms register_inv register_default_inv unregister_cmds_inv remove_command_inv
    by (auto simp: unregister_cmds_def register_default_def)
qed

definition demo_reg :: "string registry" where
  "demo_reg =
     register_default ''markov'' 0 True ''chat'' (register_default ''ego'' 5 False ''ego''
       (register_default ''wiki'' 9 False ''wiki'' (register ''rvf'' ''rvf'' ''rvf''
         (register ''guard'' ''guard'' ''guard'' (register ''karma'' ''karma'' ''karma''
           (register ''stats'' ''karma'' ''stats'' reg_new))))))"

lemma demo_reg_inv [simp]: "reg_inv demo_reg"
  unfolding demo_reg_def
  by (intro register_inv register_default_inv) (simp add: reg_inv_def reg_new_def)

lemma registry_kept_witness:
  "reg_inv demo_reg \<and> reg_inv (unregister_cmds ''karma'' demo_reg) \<and>
   regs_of (unregister_cmds ''karma'' demo_reg) ''karma'' = [(''stats'', ''stats'')]"
proof -
  have "regs_of demo_reg ''karma'' = [(''stats'', ''stats''), (''karma'', ''karma'')]" by code_simp
  then show ?thesis using registry_kept [OF demo_reg_inv, of "''karma''" "[]" "[]" 0 False] by simp
qed

text \<open>What the handlers of a list answer when each runs on what the one before left.\<close>

fun answers :: "('h, 'w) cmd_env \<Rightarrow> cmd_data \<Rightarrow> 'h list \<Rightarrow> 'w \<Rightarrow> handler_result list" where
  "answers env d [] w = []"
| "answers env d (h # hs) w = (let (a, w') = exec env h d w in a # answers env d hs w')"

fun world_after :: "('h, 'w) cmd_env \<Rightarrow> cmd_data \<Rightarrow> 'h list \<Rightarrow> 'w \<Rightarrow> 'w" where
  "world_after env d [] w = w"
| "world_after env d (h # hs) w = world_after env d hs (snd (exec env h d w))"

lemma length_answers [simp]: "length (answers env d hs w) = length hs"
  by (induction env d hs w rule: answers.induct) (auto split: prod.splits)

lemma run_regs_answers:
  "run_regs env d regs w =
     (map (fst \<circ> fst) (filter (\<lambda>(r, a). a = Paniced) (zip regs (answers env d (map snd regs) w))),
      world_after env d (map snd regs) w)"
  by (induction env d regs w rule: run_regs.induct)
    (auto split: prod.splits handler_result.splits)

lemma regs_of_remove:
  "regs_of (remove_command w m r) w' = (if w' = w then drop_regs m (regs_of r w) else regs_of r w')"
  by (auto simp: remove_command_def regs_of_def)

lemma remove_command_fields [simp]: "defaults (remove_command w m r) = defaults r"
  by (simp add: remove_command_def)

lemma remove_fold:
  "reg_inv r \<Longrightarrow> reg_inv (fold (\<lambda>m r. remove_command w m r) ms r) \<and>
   defaults (fold (\<lambda>m r. remove_command w m r) ms r) = defaults r \<and>
   (\<forall>w'. regs_of (fold (\<lambda>m r. remove_command w m r) ms r) w' =
     (if w' = w then filter (\<lambda>(m', h). m' \<notin> set ms) (regs_of r w) else regs_of r w'))"
proof (induction ms arbitrary: r)
  case (Cons m ms)
  have "filter (\<lambda>(m', h). m' \<notin> set ms) (drop_regs m regs) = filter (\<lambda>(m', h). m' \<notin> set (m # ms)) regs"
    for regs :: "(string \<times> 'a) list"
    unfolding drop_regs_def filter_filter by (rule filter_cong) auto
  then show ?case using Cons.IH [OF remove_command_inv [OF Cons.prems]] by (simp add: regs_of_remove)
qed auto

text \<open>
  C24. A known command. Every module registered for the word runs, once and in the order of
  registration, with the trimmed text after the word, also when an earlier one panicked; no default
  handler runs and nothing is suggested; afterwards exactly the registrations of the modules that
  panicked are gone from that word.
\<close>

theorem handle_known:
  assumes "reg_inv r" and "match_cmd_line (msg ev) = Some (word, rest)" and "has_cmd r word"
  shows "\<exists>r'. let d = \<lparr>command = word, data = trim_space rest, cmd_event = ev\<rparr>; regs = regs_of r word;
      as = answers env d (map snd regs) w
    in handle_cmd env ev r w = (True, r', world_after env d (map snd regs) w) \<and>
       reg_inv r' \<and> defaults r' = defaults r \<and> (\<forall>w'. w' \<noteq> word \<longrightarrow> regs_of r' w' = regs_of r w') \<and>
       regs_of r' word =
         filter (\<lambda>(m, h). m \<notin> set (map (fst \<circ> fst) (filter (\<lambda>(g, a). a = Paniced) (zip regs as)))) regs"
proof -
  let ?d = "\<lparr>command = word, data = trim_space rest, cmd_event = ev\<rparr>"
  let ?dead = "map (fst \<circ> fst) (filter (\<lambda>(g, a). a = Paniced)
      (zip (regs_of r word) (answers env ?d (map snd (regs_of r word)) w)))"
  have "handle_cmd env ev r w =
      (True, fold (\<lambda>m r. remove_command word m r) ?dead r, world_after env ?d (map snd (regs_of r word)) w)"
    using assms(2,3) by (simp add: handle_cmd_def run_regs_answers)
  then show ?thesis using remove_fold [OF assms(1), of word ?dead] by (simp del: set_map)
qed

definition demo_env :: "(string, string list) cmd_env" where
  \<comment> \<open>every handler leaves its name; \<open>stats\<close> panics and \<open>ego\<close> takes what it is given\<close>
  "demo_env = \<lparr>exec = \<lambda>h d w. (if h = ''stats'' then Paniced else Answered (h = ''ego''), w @ [h]),
     reply = Some (\<lambda>ev s w. w @ [s]), rand = \<lambda>n w. (0, w)\<rparr>"

lemma handle_known_witness:
  "\<exists>r'. handle_cmd demo_env (no_event\<lparr>msg := ''!karma  foo''\<rparr>) demo_reg [] = (True, r', [''stats'', ''karma'']) \<and>
     regs_of r' ''karma'' = [(''karma'', ''karma'')]"
proof -
  have regs: "regs_of demo_reg ''karma'' = [(''stats'', ''stats''), (''karma'', ''karma'')]" by code_simp
  have m: "match_cmd_line (msg (no_event\<lparr>msg := ''!karma  foo''\<rparr>)) = Some (''karma'', ''foo'')" by code_simp
  have h: "has_cmd demo_reg ''karma''" by code_simp
  show ?thesis using handle_known [OF demo_reg_inv m h, of demo_env "[]"]
    by (elim ex_forward) (simp add: regs demo_env_def del: set_map set_filter)
qed

lemma defaults_loop_other:
  "defaults_loop env d c ds hnd w = (ds', r) \<Longrightarrow>
   filter (\<lambda>dc. cont dc \<noteq> c) ds' = filter (\<lambda>dc. cont dc \<noteq> c) ds"
  by (induction ds arbitrary: ds' r hnd w)
    (auto split: if_splits prod.splits handler_result.splits)

lemma defaults_loop_cont:
  "\<forall>dc \<in> set ds. \<not> dead dc \<Longrightarrow>
   snd (snd (defaults_loop env d True ds hnd w)) = world_after env d (map d_fn (filter cont ds)) w"
  by (induction ds arbitrary: hnd w) (simp_all add: case_prod_beta' split: handler_result.splits)

lemma defaults_loop_stop:
  "\<forall>dc \<in> set ds. \<not> dead dc \<Longrightarrow>
   (let fns = map d_fn (filter (\<lambda>dc. \<not> cont dc) ds); as = answers env d fns w;
        n = length (takeWhile (\<lambda>a. a \<noteq> Answered True) as)
    in fst (snd (defaults_loop env d False ds False w)) = (n < length as) \<and>
       snd (snd (defaults_loop env d False ds False w)) = world_after env d (take (Suc n) fns) w)"
  by (induction ds arbitrary: w) (simp_all add: case_prod_beta' split: handler_result.splits)

text \<open>
  An unknown command. The default handlers that do not continue run in the order of priority up to
  and including the first that takes the command, and then nothing else happens; when none takes it,
  the suggestion is made and after it every continuing handler runs. What a handler answers otherwise,
  a panic included, does not matter, and no command registration changes.
\<close>

theorem handle_unknown:
  assumes "reg_inv r" and "match_cmd_line (msg ev) = Some (word, rest)" and "\<not> has_cmd r word"
  shows "\<exists>r'. let d = \<lparr>command = [], data = trim_space (word @ '' '' @ rest), cmd_event = ev\<rparr>;
      fns = map d_fn (filter (\<lambda>dc. \<not> cont dc) (defaults r)); as = answers env d fns w;
      n = length (takeWhile (\<lambda>a. a \<noteq> Answered True) as)
    in reg_inv r' \<and> commands r' = commands r \<and> handle_cmd env ev r w = (True, r',
        if n < length as then world_after env d (take (Suc n) fns) w
        else world_after env d (map d_fn (filter cont (defaults r)))
               (suggest env r ev word (world_after env d fns w)))"
proof -
  let ?d = "\<lparr>command = [], data = trim_space (word @ '' '' @ rest), cmd_event = ev\<rparr>"
  obtain b r1 w1 where one: "run_defaults env ?d False r w = (b, r1, w1)" by (metis prod_cases3)
  obtain b' r2 w2 where two: "run_defaults env ?d True r1 (suggest env r1 ev word w1) = (b', r2, w2)"
    by (metis prod_cases3)
  have alive: "\<forall>dc \<in> set (defaults r). \<not> dead dc" using reg_invD(4) [OF assms(1)] by blast
  have inv: "reg_inv r1" "reg_inv r2"
    using run_defaults_inv [OF assms(1) one] run_defaults_inv [OF _ two] by auto
  have c: "commands r1 = commands r" "commands r2 = commands r1"
    using run_defaults_fields [OF one] run_defaults_fields [OF two] by simp_all
  have sug: "suggest env r1 = suggest env r"
  proof -
    have "possible_words r1 = possible_words r"
      by (simp add: fun_eq_iff possible_words_def command_words_def c)
    then show ?thesis by (intro ext) (simp only: suggest_def)
  qed
  have conts: "map d_fn (filter cont (defaults r1)) = map d_fn (filter cont (defaults r))"
  proof -
    obtain ds q where l: "defaults_loop env ?d False (defaults r) False w = (ds, q)"
      by (cases "defaults_loop env ?d False (defaults r) False w")
    have "filter cont (defaults r1) = filter (\<lambda>dc. \<not> dead dc) (filter cont ds)"
      using one l by (cases q) (auto simp: run_defaults_def conj_commute)
    also have "\<dots> = filter cont (defaults r)"
      using defaults_loop_other [OF l] alive by (auto intro!: filter_cong)
    finally show ?thesis by simp
  qed
  have alive1: "\<forall>dc \<in> set (defaults r1). \<not> dead dc" using reg_invD(4) [OF inv(1)] by blast
  have "handle_cmd env ev r w = (True, if b then r1 else r2, if b then w1 else w2)"
    using assms(2,3) one two by (simp add: handle_cmd_def)
  moreover have "w2 = world_after env ?d (map d_fn (filter cont (defaults r1))) (suggest env r1 ev word w1)"
    using run_defaults_fields [OF two] by (simp add: defaults_loop_cont [OF alive1])
  moreover note defaults_loop_stop [OF alive, of env ?d w]
  ultimately show ?thesis
    using run_defaults_fields [OF one] inv c conts sug
    by (intro exI [of _ "if b then r1 else r2"]) simp
qed


lemma handle_unknown_witness:
  "\<exists>r'. handle_cmd demo_env (no_event\<lparr>msg := ''!foo''\<rparr>) demo_reg [] = (True, r', [''wiki'', ''ego''])"
proof -
  have m: "match_cmd_line (msg (no_event\<lparr>msg := ''!foo''\<rparr>)) = Some (''foo'', [])" by code_simp
  have h: "\<not> has_cmd demo_reg ''foo''" by code_simp
  have d: "map d_fn (filter (\<lambda>dc. \<not> cont dc) (defaults demo_reg)) = [''wiki'', ''ego'']" by code_simp
  show ?thesis using handle_unknown [OF demo_reg_inv m h, of demo_env "[]"]
    by (elim ex_forward) (simp add: d demo_env_def)
qed

lemma sorted_by_parts:
  "sorted (map fst ps) \<Longrightarrow> (\<And>k. sorted (map snd (filter (\<lambda>p. fst p = k) ps))) \<Longrightarrow>
    sorted (ps :: ('a::linorder \<times> 'b::linorder) list)"
proof (induction ps)
  case (Cons p ps)
  have "p \<le> q" if "q \<in> set ps" for q
    using Cons.prems(1) Cons.prems(2) [of "fst p"] that
    by (cases q; cases "fst q = fst p") (auto simp: less_eq_prod_def order.strict_iff_order)
  moreover have "sorted (map snd (filter (\<lambda>p. fst p = k) ps))" for k
    using Cons.prems(2) [of k] by (auto split: if_splits)
  ultimately show ?case using Cons by simp
qed simp

text \<open>
  The suggestion. The words offered are exactly the registered commands within edit distance 2 of
  the word typed, or 1 when it has at most three bytes, each once, the nearest first and words of the
  same distance in alphabetical order; nothing is sent when there is none.
\<close>

theorem suggestion_words:
  assumes "reg_inv r"
  shows "set (map snd (possible_words r word)) =
      {w. has_cmd r w \<and> levenshtein w word \<le> (if length word \<le> 3 then 1 else 2)} \<and>
    distinct (map snd (possible_words r word)) \<and> sorted (possible_words r word) \<and>
    (possible_words r word = [] \<longrightarrow> suggest env r ev word s = s)"
proof -
  let ?ps = "filter (\<lambda>p. fst p \<le> max_dist word) (map (\<lambda>w. (levenshtein w word, w)) (command_words r))"
  have cw: "set (command_words r) = {w. has_cmd r w}" "distinct (command_words r)" "sorted (command_words r)"
    using reg_invD(1) [OF assms] by (auto simp: command_words_def has_cmd_def map_of_eq_None_iff image_iff)
  have dist: "distinct (map snd ?ps)" using cw(2) by (simp add: distinct_map_filter comp_def)
  have "sorted (map snd ?ps)"
    using cw(3) by (intro sorted_filter_key) (simp add: comp_def)
  then have srt: "sorted (map snd (filter (\<lambda>p. fst p = k) (sort_key fst ?ps)))" for k
    unfolding sort_key_stable_filter by (rule sorted_filter_key)
  have "sorted (sort_key fst ?ps)"
    by (rule sorted_by_parts) (simp, rule srt)
  moreover have "distinct (map snd (sort_key fst ?ps))"
    using dist by (simp add: distinct_map)
  moreover have "set (map snd (possible_words r word)) = {w. has_cmd r w \<and> levenshtein w word \<le> max_dist word}"
    using cw(1) by (auto simp: possible_words_def image_iff)
  moreover have "possible_words r word = [] \<longrightarrow> suggest env r ev word s = s"
    by (simp add: suggest_def split: option.splits)
  ultimately show ?thesis by (simp add: possible_words_def max_dist_def)
qed

lemma suggestion_words_witness:
  "possible_words demo_reg ''karna'' = [(1, ''karma'')] \<and> ''karma'' \<in> {w. has_cmd demo_reg w}"
proof -
  have p: "possible_words demo_reg ''karna'' = [(1, ''karma'')]" by code_simp
  show ?thesis using suggestion_words [OF demo_reg_inv, of "''karna''" demo_env no_event "[]"] p by auto
qed

end
