(* ===== verification/Pager.thy ===== *)
theory Pager
  imports Bus Go_Utf8 Timers "HOL-Library.Product_Lexorder"
begin

text \<open>
  internal/irc/pager/pager.go: replies of more lines than the budget are stashed per channel, nick and
  command, expire after 600 seconds and are paged out by \<open>More\<close>. The scheduler is the model of package
  sched; the callback of an expiry is the key whose stash it deletes. The value of \<open>MaxLines\<close>, read
  afresh by every call, is an argument (an int, since nothing in the source keeps it positive); what
  \<open>send\<close> is called with is the first component of a result. \<open>None\<close> is an index out of range, where Go
  panics. Lines reach the bot as valid UTF-8, on which \<open>strings.Map\<close> of ASCII characters is bytewise.
\<close>

type_synonym stash_key = "string \<times> string \<times> string"  \<comment> \<open>channel, nick, command\<close>

record stash =
  msgs :: "string list"
  displayed :: int
  expiry_tag :: nat

record pager =
  sched :: "stash_key sched"
  stashes :: "(stash_key \<times> stash) list"

definition expiry :: int where "expiry = 600 * 1000000000"

definition default_max_lines :: int where "default_max_lines = 4"

definition pager_new :: "stash_key sched \<Rightarrow> pager" where
  "pager_new s = \<lparr>sched = s, stashes = []\<rparr>"

definition channel_of :: "event \<Rightarrow> string" where
  "channel_of ev =
     filter (\<lambda>c. c \<notin> {CHR '':'', CHR '' '', CHR 0x09, CHR 0x0D, CHR 0x0A}) (channel ev)"

definition more_suffix :: "nat \<Rightarrow> string" where
  "more_suffix n = '' {W}(+'' @ nat_str n @ '')''"

definition reply_lines :: "string list \<Rightarrow> string list" where
  "reply_lines ms = filter (\<lambda>l. trim_space l \<noteq> []) (concat (map (split_on (CHR 0x0A)) ms))"

definition drop_stash :: "stash_key \<Rightarrow> pager \<Rightarrow> pager" where
  "drop_stash k p =
     (case map_of (stashes p) k of
        None \<Rightarrow> p
      | Some st \<Rightarrow> p\<lparr>sched := snd (unschedule (expiry_tag st) (sched p)), stashes := AList.delete k (stashes p)\<rparr>)"

text \<open>The callback of an expiry timer.\<close>

definition expire :: "stash_key \<Rightarrow> pager \<Rightarrow> pager" where
  "expire k p = p\<lparr>stashes := AList.delete k (stashes p)\<rparr>"

text \<open>The line shown at index \<open>i\<close> when the burst ends before \<open>stop\<close>: the last one says what is left.\<close>

definition shown_line :: "string list \<Rightarrow> int \<Rightarrow> nat \<Rightarrow> string" where
  "shown_line ls stop i =
     ls ! i @ (if int i + 1 = stop \<and> i + 1 < length ls then more_suffix (length ls - i - 1) else [])"

definition event_msg :: "int \<Rightarrow> int \<Rightarrow> event \<Rightarrow> string \<Rightarrow> string list \<Rightarrow> pager \<Rightarrow> (string \<times> string) list \<times> pager" where
  "event_msg now budget ev cmd ms p =
     (let ch = channel_of ev
      in if ch = [] then ([], p)
         else (let ls = reply_lines ms;
                   shown = nat (min (int (length ls)) budget);
                   out = map (\<lambda>i. (ch, shown_line ls (int shown) i)) [0..<shown];
                   ls' = map (shown_line ls (int shown)) [0..<shown] @ drop shown ls;
                   key = (ch, nick (ev_sender ev), cmd);
                   p1 = drop_stash key p
               in (out, if int (length ls) > budget then
                          (let (tag, s) = after now expiry key (sched p1)
                           in p1\<lparr>sched := s, stashes := AList.update key
                                \<lparr>msgs = ls', displayed = budget, expiry_tag = tag\<rparr> (stashes p1)\<rparr>)
                        else p1)))"

definition pending_commands :: "string \<Rightarrow> string \<Rightarrow> pager \<Rightarrow> string list" where
  "pending_commands ch nk p =
     sort (map (\<lambda>(k, st). snd (snd k)) (filter (\<lambda>(k, st). fst k = ch \<and> fst (snd k) = nk) (stashes p)))"

text \<open>The loop of \<open>More\<close>: \<open>i\<close> runs from \<open>displayed\<close> to \<open>stop\<close> or the end; a negative index panics.\<close>

definition page :: "string list \<Rightarrow> int \<Rightarrow> int \<Rightarrow> (string list \<times> string list) option" where
  "page ls from stop =
     (let k = nat (min stop (int (length ls)) - from)
      in if k = 0 then Some ([], ls)
         else if from < 0 then None
         else (let out = map (shown_line ls stop) [nat from..<nat from + k]
               in Some (out, take (nat from) ls @ out @ drop (nat from + k) ls)))"

definition nothing_more :: string where
  "nothing_more = ''There is nothing more to display for you.''"

definition more :: "int \<Rightarrow> event \<Rightarrow> string \<Rightarrow> pager \<Rightarrow> ((string \<times> string) list \<times> pager) option" where
  "more budget ev requested p =
     (let ch = channel_of ev; nk = nick (ev_sender ev); pend = pending_commands ch nk p
      in if ch = [] then Some ([], p)
         else if pend = [] then Some ([(ch, nothing_more)], p)
         else if requested = [] \<and> length pend > 1 then
           Some ([(ch, ''Multiple commands are waiting for you to display more. Use !more '' @
             join ''|'' pend @ '' (choose one) to specify for which one you want to see more!'')], p)
         else (let cmd = (if requested = [] then pend ! 0 else requested); key = (ch, nk, cmd)
               in case map_of (stashes p) key of
                    None \<Rightarrow> Some ([(ch, ''There is nothing (more) to display for '' @ cmd @ '' for you.'')], p)
                  | Some st \<Rightarrow>
                      (let stop = displayed st + budget
                       in case page (msgs st) (displayed st) stop of
                            None \<Rightarrow> None
                          | Some (out, ls') \<Rightarrow>
                              Some (map (\<lambda>l. (ch, l)) out,
                                if stop < int (length (msgs st)) then
                                  p\<lparr>stashes := AList.update key (st\<lparr>msgs := ls', displayed := stop\<rparr>) (stashes p)\<rparr>
                                else drop_stash key p))))"

section \<open>Stashes and their timers\<close>

definition tag_of :: "pager \<Rightarrow> stash_key \<Rightarrow> nat option" where
  "tag_of p k = map_option expiry_tag (map_of (stashes p) k)"

definition pager_inv :: "pager \<Rightarrow> bool" where
  "pager_inv p \<longleftrightarrow> wf_map (stashes p) \<and> sched_timers.table_ok id (tag_of p) (sched p)"

lemma pager_new_inv: "pager_inv (pager_new sched_new)"
  by (simp add: pager_inv_def pager_new_def sched_timers.table_ok_def tag_of_def)
    (simp add: sched_pend_def sched_new_def)

lemma drop_stash_inv:
  assumes "pager_inv p"
  shows "pager_inv (drop_stash k p) \<and> map_of (stashes (drop_stash k p)) = (map_of (stashes p))(k := None)"
proof (cases "map_of (stashes p) k")
  case None
  then show ?thesis using assms by (auto simp: drop_stash_def)
next
  case (Some st)
  have t: "sched_timers.table_ok id (tag_of p) (sched p)" "tag_of p k = Some (expiry_tag st)"
    using assms Some by (auto simp: pager_inv_def tag_of_def)
  obtain b s where u: "unschedule (expiry_tag st) (sched p) = (b, s)" by fastforce
  from sched_timers.table_stop [OF t u] have "sched_timers.table_ok id ((tag_of p)(k := None)) s" by simp
  moreover have "(tag_of p)(k := None) = tag_of (drop_stash k p)"
    using Some u by (auto simp: fun_eq_iff tag_of_def drop_stash_def)
  ultimately show ?thesis
    using assms Some u by (auto simp: pager_inv_def drop_stash_def fun_eq_iff)
qed

lemma event_msg_inv:
  assumes "pager_inv p"
  shows "pager_inv (snd (event_msg now budget ev cmd ms p))"
proof -
  let ?ls = "reply_lines ms" and ?key = "(channel_of ev, nick (ev_sender ev), cmd)"
  let ?p1 = "drop_stash ?key p"
  have p1: "pager_inv ?p1" "map_of (stashes ?p1) ?key = None" using drop_stash_inv [OF assms] by simp_all
  show ?thesis
  proof (cases "channel_of ev = [] \<or> int (length ?ls) \<le> budget")
    case True
    then show ?thesis using assms p1(1) by (auto simp: event_msg_def)
  next
    case False
    obtain tag s where a: "after now expiry ?key (sched ?p1) = (tag, s)" by fastforce
    let ?shown = "nat (min (int (length ?ls)) budget)"
    let ?st = "\<lparr>msgs = map (shown_line ?ls (int ?shown)) [0..<?shown] @ drop ?shown ?ls, displayed = budget, expiry_tag = tag\<rparr>"
    let ?p2 = "?p1\<lparr>sched := s, stashes := AList.update ?key ?st (stashes ?p1)\<rparr>"
    have "sched_timers.table_ok id (tag_of ?p1) (sched ?p1)" "tag_of ?p1 ?key = None"
      using p1 by (auto simp: pager_inv_def tag_of_def)
    from sched_timers.table_start [OF this, of now expiry tag s] a
    have "sched_timers.table_ok id ((tag_of ?p1)(?key \<mapsto> tag)) s" by simp
    moreover have "(tag_of ?p1)(?key \<mapsto> tag) = tag_of ?p2" by (auto simp: fun_eq_iff tag_of_def)
    ultimately have "pager_inv ?p2" using p1(1) by (simp add: pager_inv_def)
    moreover have "snd (event_msg now budget ev cmd ms p) = ?p2" using False a by (simp add: event_msg_def)
    ultimately show ?thesis by simp
  qed
qed

lemma more_inv:
  assumes "pager_inv p" and "more budget ev requested p = Some (out, p')"
  shows "pager_inv p'"
proof -
  have upd: "pager_inv (p\<lparr>stashes := AList.update k (st\<lparr>msgs := ls, displayed := d\<rparr>) (stashes p)\<rparr>)"
    if "map_of (stashes p) k = Some st" for k st ls d
  proof -
    have "tag_of (p\<lparr>stashes := AList.update k (st\<lparr>msgs := ls, displayed := d\<rparr>) (stashes p)\<rparr>) = tag_of p"
      using that by (auto simp: fun_eq_iff tag_of_def)
    then show ?thesis using assms(1) by (simp add: pager_inv_def)
  qed
  show ?thesis
    using assms(2) drop_stash_inv [OF assms(1)] assms(1) upd
    by (auto simp: more_def split: if_splits option.splits)
qed

section \<open>Paging\<close>

lemma page_from:
  assumes "0 < b"
  shows "page ls (int d) (int d + int b) =
    Some (map (shown_line ls (int (d + b))) [d..<min (d + b) (length ls)],
          take d ls @ map (shown_line ls (int (d + b))) [d..<min (d + b) (length ls)] @ drop (min (d + b) (length ls)) ls)"
proof (cases "length ls \<le> d")
  case True
  then show ?thesis by (simp add: page_def)
next
  case False
  then have "nat (min (int d + int b) (int (length ls)) - int d) = min (d + b) (length ls) - d" by linarith
  moreover have "d + (min (d + b) (length ls) - d) = min (d + b) (length ls)" using False by linarith
  ultimately show ?thesis using False assms by (simp add: page_def add.commute)
qed

text \<open>A stash of \<open>ls\<close> of which \<open>d\<close> lines were shown; those to come are as they were given.\<close>

definition stashed :: "stash_key \<Rightarrow> string list \<Rightarrow> nat \<Rightarrow> pager \<Rightarrow> bool" where
  "stashed key ls d p \<longleftrightarrow> (\<exists>st. map_of (stashes p) key = Some st \<and> displayed st = int d \<and>
     length (msgs st) = length ls \<and> drop d (msgs st) = drop d ls \<and> d < length ls)"

definition line_of :: "string list \<Rightarrow> nat \<Rightarrow> nat \<Rightarrow> string" where
  \<comment> \<open>line \<open>i\<close>, with the count of the lines left when it ends a burst of \<open>b\<close>\<close>
  "line_of ls b i = ls ! i @ (if Suc i mod b = 0 \<and> Suc i < length ls then more_suffix (length ls - Suc i) else [])"

lemma burst_line:
  assumes "0 < b" and "d mod b = 0" and "d \<le> i" and "i < d + b" and "i < length ls"
    and "length ms = length ls" and "drop d ms = drop d ls"
  shows "shown_line ms (int (d + b)) i = line_of ls b i"
proof -
  have "ms ! i = drop d ms ! (i - d)" "ls ! i = drop d ls ! (i - d)" using assms(3,5,6) by simp_all
  then have "ms ! i = ls ! i" using assms(7) by simp
  moreover have "Suc i mod b = 0 \<longleftrightarrow> Suc i = d + b"
  proof
    assume m: "Suc i mod b = 0"
    obtain q where q: "d = b * q" using assms(2) by auto
    obtain r where r: "Suc i = b * r" using m by auto
    have "b * q < b * r" using q r assms(3) by linarith
    then have "q < r" by simp
    moreover have "b * r < b * (q + 2)" using q r assms(1,4) unfolding add_mult_distrib2 by linarith
    then have "r < q + 2" by (rule mult_less_cancel1 [THEN iffD1, THEN conjunct2])
    ultimately have "r = q + 1" by simp
    then show "Suc i = d + b" using q r by simp
  qed (use assms(2) in \<open>simp add: mod_add_self2\<close>)
  ultimately show ?thesis
    using assms(6) by (auto simp: shown_line_def line_of_def)
qed

lemma pending_mem:
  assumes "map_of (stashes p) (ch, nk, cmd) = Some st"
  shows "cmd \<in> set (pending_commands ch nk p)"
proof -
  have "((ch, nk, cmd), st) \<in> set (stashes p)" using assms by (rule map_of_SomeD)
  then show ?thesis by (force simp: pending_commands_def image_iff)
qed

lemma more_step:
  assumes inv: "pager_inv p" and "channel_of ev \<noteq> []" and "cmd \<noteq> []" and "0 < b" and "d mod b = 0"
    and st: "stashed (channel_of ev, nick (ev_sender ev), cmd) ls d p"
  shows "\<exists>p'. more (int b) ev cmd p =
      Some (map (\<lambda>i. (channel_of ev, line_of ls b i)) [d..<min (d + b) (length ls)], p') \<and> pager_inv p' \<and>
    (if d + b < length ls then stashed (channel_of ev, nick (ev_sender ev), cmd) ls (d + b) p'
     else map_of (stashes p') (channel_of ev, nick (ev_sender ev), cmd) = None)"
proof -
  let ?key = "(channel_of ev, nick (ev_sender ev), cmd)" and ?e = "min (d + b) (length ls)"
  obtain s where s: "map_of (stashes p) ?key = Some s" "displayed s = int d" "length (msgs s) = length ls"
    "drop d (msgs s) = drop d ls" "d < length ls" using st by (auto simp: stashed_def)
  have ne: "pending_commands (channel_of ev) (nick (ev_sender ev)) p \<noteq> []" using pending_mem [OF s(1)] by auto
  let ?out = "map (shown_line (msgs s) (int (d + b))) [d..<?e]"
  let ?ls' = "take d (msgs s) @ ?out @ drop ?e (msgs s)"
  have out: "?out = map (line_of ls b) [d..<?e]"
    using burst_line [OF assms(4,5) _ _ _ s(3,4)] by auto
  let ?p' = "if d + b < length ls then p\<lparr>stashes := AList.update ?key (s\<lparr>msgs := ?ls', displayed := int (d + b)\<rparr>) (stashes p)\<rparr>
     else drop_stash ?key p"
  have m: "more (int b) ev cmd p = Some (map (\<lambda>i. (channel_of ev, line_of ls b i)) [d..<?e], ?p')"
    using assms(2,3) ne s page_from [OF assms(4), of "msgs s" d] out
    by (simp add: more_def comp_def del: upt_Suc)
  have "drop (d + b) ?ls' = drop (d + b) ls" "length ?ls' = length ls" if "d + b < length ls"
  proof -
    have "?e = d + b" using that by simp
    then show "length ?ls' = length ls" using s(3) that by simp
    have "drop (d + b) ?ls' = drop (d + b) (msgs s)" using \<open>?e = d + b\<close> that s(3) by simp
    also have "\<dots> = drop b (drop d (msgs s))" by (simp add: add.commute)
    also have "\<dots> = drop (d + b) ls" unfolding s(4) by (simp add: add.commute)
    finally show "drop (d + b) ?ls' = drop (d + b) ls" .
  qed
  then have "if d + b < length ls then stashed ?key ls (d + b) ?p' else map_of (stashes ?p') ?key = None"
    using drop_stash_inv [OF inv, of ?key] by (simp add: stashed_def)
  then show ?thesis using m more_inv [OF inv m] by blast
qed

lemma upt_split: "i \<le> j \<Longrightarrow> j \<le> k \<Longrightarrow> [i..<k] = [i..<j] @ [j..<k]"
  by (metis le_add_diff_inverse upt_add_eq_append)

fun more_times :: "nat \<Rightarrow> int \<Rightarrow> event \<Rightarrow> string \<Rightarrow> pager \<Rightarrow> ((string \<times> string) list list \<times> pager) option" where
  "more_times 0 b ev cmd p = Some ([], p)"
| "more_times (Suc n) b ev cmd p =
     (case more b ev cmd p of
        None \<Rightarrow> None
      | Some (out, p') \<Rightarrow>
          (case more_times n b ev cmd p' of None \<Rightarrow> None | Some (outs, p'') \<Rightarrow> Some (out # outs, p'')))"

lemma more_all:
  assumes "channel_of ev \<noteq> []" and "cmd \<noteq> []" and "0 < b"
  shows "pager_inv p \<Longrightarrow> d mod b = 0 \<Longrightarrow> stashed (channel_of ev, nick (ev_sender ev), cmd) ls d p \<Longrightarrow>
    n = (length ls - 1 - d) div b \<Longrightarrow>
    \<exists>outs p'. more_times (Suc n) (int b) ev cmd p = Some (outs, p') \<and> pager_inv p' \<and>
      concat outs = map (\<lambda>i. (channel_of ev, line_of ls b i)) [d..<length ls] \<and>
      (\<forall>o' \<in> set outs. length o' \<le> b) \<and> map_of (stashes p') (channel_of ev, nick (ev_sender ev), cmd) = None"
proof (induction n arbitrary: p d)
  case 0
  have d: "d < length ls" using "0.prems"(3) by (auto simp: stashed_def)
  have "length ls - 1 - d < b" using "0.prems"(4) assms(3) by (metis div_eq_0_iff less_not_refl)
  then have e: "\<not> d + b < length ls" "min (d + b) (length ls) = length ls" using d by linarith+
  from more_step [OF "0.prems"(1) assms "0.prems"(2,3)] e d show ?case by auto
next
  case (Suc n)
  have lt: "d + b < length ls"
  proof (rule ccontr)
    assume "\<not> d + b < length ls"
    then have "length ls - 1 - d < b" using assms(3) by linarith
    then show False using Suc.prems(4) by simp
  qed
  then have e: "min (d + b) (length ls) = d + b" by simp
  from more_step [OF Suc.prems(1) assms Suc.prems(2,3)] obtain p1 where
    m: "more (int b) ev cmd p =
      Some (map (\<lambda>i. (channel_of ev, line_of ls b i)) [d..<min (d + b) (length ls)], p1)" and
    p1: "pager_inv p1" and
    st: "if d + b < length ls then stashed (channel_of ev, nick (ev_sender ev), cmd) ls (d + b) p1
     else map_of (stashes p1) (channel_of ev, nick (ev_sender ev), cmd) = None"
    by (elim exE conjE) (rule that; assumption)
  have st: "stashed (channel_of ev, nick (ev_sender ev), cmd) ls (d + b) p1" using st lt by simp
  have "length ls - 1 - d = (length ls - 1 - (d + b)) + b" using lt by linarith
  with Suc.prems(4) have "Suc n = ((length ls - 1 - (d + b)) + b) div b" by (simp only:)
  also have "\<dots> = (length ls - 1 - (d + b)) div b + 1" using assms(3) by (rule div_add_self2 [OF less_not_refl2])
  finally have n: "n = (length ls - 1 - (d + b)) div b" by (simp only: Suc_eq_plus1 add_right_cancel)
  have "(d + b) mod b = 0" using Suc.prems(2) by simp
  from Suc.IH [OF p1 this st n] obtain outs p2 where
    IH: "more_times (Suc n) (int b) ev cmd p1 = Some (outs, p2)" "pager_inv p2"
      "concat outs = map (\<lambda>i. (channel_of ev, line_of ls b i)) [d + b..<length ls]"
      "\<forall>o' \<in> set outs. length o' \<le> b" "map_of (stashes p2) (channel_of ev, nick (ev_sender ev), cmd) = None"
    by (elim exE conjE) (rule that; assumption)
  let ?line = "\<lambda>i. (channel_of ev, line_of ls b i)"
  have "more_times (Suc (Suc n)) (int b) ev cmd p = Some (map ?line [d..<d + b] # outs, p2)"
    by (simp only: more_times.simps(2) [of "Suc n"] m IH(1) option.case prod.case e)
  moreover have "concat (map ?line [d..<d + b] # outs) = map ?line [d..<length ls]"
    using lt IH(3) upt_split [of d "d + b" "length ls"] by (simp only: concat.simps map_append)
  moreover have "\<forall>o' \<in> set (map ?line [d..<d + b] # outs). length o' \<le> b" using IH(4) by simp
  ultimately show ?case using IH(2,5) by blast
qed

text \<open>
  C19. Every line is shown. For a positive budget and a reply of any number of lines, the reply and the
  right number of \<open>!more\<close> for its command show all lines that are not blank, once, in order and
  unchanged but for the count of lines left that ends a burst; no burst is longer than the budget, and
  then the stash is gone.
\<close>

theorem paging_complete:
  assumes "pager_inv p" and "channel_of ev \<noteq> []" and "cmd \<noteq> []" and "0 < b"
  shows "\<exists>outs p'. more_times ((length (reply_lines ms) - 1) div b) (int b) ev cmd
        (snd (event_msg now (int b) ev cmd ms p)) = Some (outs, p') \<and>
    fst (event_msg now (int b) ev cmd ms p) @ concat outs =
      map (\<lambda>i. (channel_of ev, line_of (reply_lines ms) b i)) [0..<length (reply_lines ms)] \<and>
    (\<forall>o' \<in> set (fst (event_msg now (int b) ev cmd ms p) # outs). length o' \<le> b) \<and>
    map_of (stashes p') (channel_of ev, nick (ev_sender ev), cmd) = None"
proof -
  let ?ls = "reply_lines ms" and ?key = "(channel_of ev, nick (ev_sender ev), cmd)"
  let ?p1 = "drop_stash ?key p" and ?k = "min (length (reply_lines ms)) b"
  obtain out p2 where e: "event_msg now (int b) ev cmd ms p = (out, p2)" by fastforce
  have inv: "pager_inv p2" using event_msg_inv [OF assms(1), of now "int b" ev cmd ms] e by simp
  have k: "nat (min (int (length ?ls)) (int b)) = ?k" by simp
  have line: "shown_line ?ls (int ?k) i = line_of ?ls b i" if "i < ?k" for i
  proof (cases "length ?ls \<le> b")
    case True
    then have "Suc i mod b = 0 \<Longrightarrow> Suc i = length ?ls" using that assms(4)
      by (metis min.absorb1 Suc_leI dvd_eq_mod_eq_0 dvd_imp_le le_antisym order_trans zero_less_Suc)
    then show ?thesis using True by (auto simp: shown_line_def line_of_def)
  next
    case False
    then show ?thesis using burst_line [OF assms(4), of 0 i ?ls ?ls] that by simp
  qed
  then have out: "out = map (\<lambda>i. (channel_of ev, line_of ?ls b i)) [0..<?k]"
    using e assms(2) by (auto simp: event_msg_def k split: if_splits prod.splits)
  show ?thesis
  proof (cases "length ?ls \<le> b")
    case True
    then have "(length ?ls - 1) div b = 0" using assms(4) by simp
    moreover have "p2 = drop_stash ?key p" using e True assms(2) by (auto simp: event_msg_def)
    ultimately show ?thesis using out e True drop_stash_inv [OF assms(1), of ?key] by auto
  next
    case False
    have st: "stashed ?key ?ls b p2"
      using e False assms(2) by (auto simp: event_msg_def stashed_def k split: prod.splits)
    have "length ?ls - 1 = (length ?ls - 1 - b) + b" using False by linarith
    then have n: "(length ?ls - 1) div b = Suc ((length ?ls - 1 - b) div b)" using assms(4)
      by (metis Suc_eq_plus1 div_add_self2 not_less0)
    from more_all [OF assms(2-4) inv _ st refl] obtain outs p' where
      m: "more_times (Suc ((length ?ls - 1 - b) div b)) (int b) ev cmd p2 = Some (outs, p')"
      "concat outs = map (\<lambda>i. (channel_of ev, line_of ?ls b i)) [b..<length ?ls]"
      "\<forall>o' \<in> set outs. length o' \<le> b" "map_of (stashes p') ?key = None" by auto
    have "[0..<length ?ls] = [0..<b] @ [b..<length ?ls]"
      using False by (intro upt_split) auto
    then show ?thesis using m out e False n by auto
  qed
qed

definition demo_ev :: event where
  "demo_ev = no_event\<lparr>channel := '':#chan'', ev_sender := \<lparr>nick = ''ben'', user = [], host = [], user_id = []\<rparr>\<rparr>"

lemma demo_lines:
  "channel_of demo_ev = ''#chan''"
  "reply_lines [''a'' @ [CHR 0x0A] @ ''b'', ''c'', '' '', ''d'', ''e''] = [''a'', ''b'', ''c'', ''d'', ''e'']"
  "more_suffix 3 = '' {W}(+3)''" "more_suffix 1 = '' {W}(+1)''"
proof -
  show "channel_of demo_ev = ''#chan''" by (simp add: channel_of_def demo_ev_def no_event_def)
  show "reply_lines [''a'' @ [CHR 0x0A] @ ''b'', ''c'', '' '', ''d'', ''e''] = [''a'', ''b'', ''c'', ''d'', ''e'']"
    by (simp add: reply_lines_def trim_space_def segs_ascii seg_space_def seg_rune_def decode_ascii is_space_rune_def)
qed code_simp+

lemma paging_complete_witness:
  "\<exists>outs p'. more_times 2 2 demo_ev ''seen'' (snd (event_msg 0 2 demo_ev ''seen'' [''a'' @ [CHR 0x0A] @ ''b'', ''c'', '' '', ''d'', ''e'']
      (pager_new sched_new))) = Some (outs, p') \<and>
    concat outs = [(''#chan'', ''c''), (''#chan'', ''d {W}(+1)''), (''#chan'', ''e'')]"
proof -
  let ?ms = "[''a'' @ [CHR 0x0A] @ ''b'', ''c'', '' '', ''d'', ''e'']"
  have h: "channel_of demo_ev \<noteq> []" "''seen'' \<noteq> []" "0 < (2::nat)" by (simp_all add: demo_lines)
  have n: "(length [''a'', ''b'', ''c'', ''d'', ''e''] - 1) div 2 = 2" "length [''a'', ''b'', ''c'', ''d'', ''e''] = 5" by simp_all
  have upto5: "[0..<5] = [0, 1, 2, 3, 4 :: nat]" "[0..<2] = [0, 1 :: nat]" by code_simp+
  have l: "map (\<lambda>i. (channel_of demo_ev, line_of [''a'', ''b'', ''c'', ''d'', ''e''] 2 i)) [0..<5] =
      [(''#chan'', ''a''), (''#chan'', ''b {W}(+3)''), (''#chan'', ''c''), (''#chan'', ''d {W}(+1)''), (''#chan'', ''e'')]"
    by (simp add: demo_lines line_of_def upto5) (simp add: demo_lines flip: numeral_3_eq_3 One_nat_def)
  have f: "fst (event_msg 0 2 demo_ev ''seen'' ?ms (pager_new sched_new)) = [(''#chan'', ''a''), (''#chan'', ''b {W}(+3)'')]"
    unfolding event_msg_def demo_lines
    by (simp add: shown_line_def demo_lines upto5) (simp add: demo_lines flip: numeral_3_eq_3)
  from paging_complete [OF pager_new_inv h, of ?ms 0] show ?thesis
    unfolding demo_lines(2) n of_nat_numeral l f by (elim ex_forward) simp
qed

section \<open>Runs of the pager and its timers\<close>

text \<open>A pass of the scheduler in which the pager's own timers fire.\<close>

definition timer_pass :: "int \<Rightarrow> pager \<Rightarrow> pager" where
  "timer_pass now p =
     (let (ts, s) = collect now (sched p)
      in fold (\<lambda>t q. case fn t of Some k \<Rightarrow> expire k q | None \<Rightarrow> q) ts (p\<lparr>sched := s\<rparr>))"

datatype pager_op = P_msg int int event string "string list" | P_more int event string | P_pass int

fun pager_step :: "pager_op \<Rightarrow> pager \<Rightarrow> pager option" where
  "pager_step (P_msg now b ev cmd ms) p = Some (snd (event_msg now b ev cmd ms p))"
| "pager_step (P_more b ev req) p = map_option snd (more b ev req p)"
| "pager_step (P_pass now) p = Some (timer_pass now p)"

fun pager_run :: "pager_op list \<Rightarrow> pager \<Rightarrow> pager option" where
  "pager_run [] p = Some p"
| "pager_run (op # ops) p = (case pager_step op p of None \<Rightarrow> None | Some p' \<Rightarrow> pager_run ops p')"

lemma fold_expire:
  "sched (fold (\<lambda>t q. case fn t of Some k \<Rightarrow> expire k q | None \<Rightarrow> q) ts p) = sched p \<and>
   (wf_map (stashes p) \<longrightarrow> wf_map (stashes (fold (\<lambda>t q. case fn t of Some k \<Rightarrow> expire k q | None \<Rightarrow> q) ts p))) \<and>
   map_of (stashes (fold (\<lambda>t q. case fn t of Some k \<Rightarrow> expire k q | None \<Rightarrow> q) ts p)) k =
     (if \<exists>t \<in> set ts. fn t = Some k then None else map_of (stashes p) k)"
proof (induction ts arbitrary: p)
  case (Cons t ts)
  then show ?case by (cases "fn t") (auto simp: expire_def)
qed simp

lemma timer_pass_inv:
  assumes "pager_inv p"
  shows "pager_inv (timer_pass now p)"
proof -
  let ?P = "timer_pass now p"
  obtain ts s where c: "collect now (sched p) = (ts, s)" by fastforce
  have "sched_timers.table_ok id (tag_of p) (sched p)" using assms by (simp add: pager_inv_def)
  note K = table_collected [OF this c]
  have P: "sched ?P = s" "wf_map (stashes ?P)"
    "tag_of ?P k = (if \<exists>t \<in> set ts. fn t = Some k then None else tag_of p k)" for k
    using fold_expire [of ts "p\<lparr>sched := s\<rparr>"] c assms by (auto simp: timer_pass_def pager_inv_def tag_of_def)
  have "tag_of ?P = (\<lambda>k. if Some k \<in> fn ` set ts then None else tag_of p k)"
    unfolding P(3) by (force simp: image_iff eq_commute)
  then show ?thesis using P(1,2) K by (simp add: pager_inv_def)
qed

text \<open>
  Stashes and expiry timers match. After any run of replies, pages and timer passes from a new
  pager, the pending timers of the pager are exactly those named by the present stashes, each deleting
  the stash that names it; so the timer of a stash that was replaced or read to its end is gone, and no
  stash lives without one.
\<close>

theorem stash_timers:
  "case pager_run ops (pager_new sched_new) of
     None \<Rightarrow> True
   | Some p \<Rightarrow> wf_map (stashes p) \<and> (\<forall>k n. sched_pend (sched p) n = Some k \<longleftrightarrow>
       map_option expiry_tag (map_of (stashes p) k) = Some n)"
proof -
  have "pager_inv p'" if "pager_inv p" "pager_run ops p = Some p'" for p p'
    using that
  proof (induction ops arbitrary: p)
    case (Cons op ops)
    obtain q where "pager_step op p = Some q" "pager_run ops q = Some p'"
      using Cons.prems(2) by (auto split: option.splits)
    moreover have "pager_inv q"
      using \<open>pager_step op p = Some q\<close> Cons.prems(1)
      by (cases op) (auto simp: event_msg_inv timer_pass_inv intro: more_inv)
    ultimately show ?case using Cons.IH by blast
  qed simp
  note run = this [OF pager_new_inv]
  show ?thesis
  proof (cases "pager_run ops (pager_new sched_new)")
    case (Some p)
    have "wf_map (stashes p)" "sched_timers.table_ok id (tag_of p) (sched p)"
      using run [OF Some] by (simp_all add: pager_inv_def)
    then show ?thesis
      using sched_timers.table_okD [of id "tag_of p" "sched p"] unfolding Some tag_of_def option.case by simp
  qed simp
qed

text \<open>
  A negative budget poisons a stash. With \<open>anti_flood_max_lines\<close> below 0 any reply leaves a stash
  with a negative count of lines shown; once the setting is positive again, \<open>!more\<close> for it indexes the
  lines at that count, which panics.
\<close>

theorem negative_budget_panics:
  assumes "b < 0" and "0 < b'" and "channel_of ev \<noteq> []" and "cmd \<noteq> []"
  shows "more b' ev cmd (snd (event_msg now b ev cmd ms p)) = None"
proof -
  let ?p = "snd (event_msg now b ev cmd ms p)" and ?key = "(channel_of ev, nick (ev_sender ev), cmd)"
  obtain st where st: "map_of (stashes ?p) ?key = Some st" "displayed st = b"
    using assms(1,3) by (simp add: event_msg_def case_prod_beta')
  have ne: "pending_commands (channel_of ev) (nick (ev_sender ev)) ?p \<noteq> []" using pending_mem [OF st(1)] by auto
  have "page (msgs st) b (b + b') = None" using assms(1,2) by (auto simp: page_def)
  then show ?thesis using assms(3,4) st ne by (simp add: more_def)
qed

lemma negative_budget_panics_witness:
  "more 4 demo_ev ''seen'' (snd (event_msg 0 (-1) demo_ev ''seen'' [''x''] (pager_new sched_new))) = None"
proof -
  have "channel_of demo_ev \<noteq> []" by (simp add: demo_lines)
  then show ?thesis by (intro negative_budget_panics) simp_all
qed

end
