(* ===== verification/Storage.thy ===== *)
theory Storage
  imports Go_Prelude
begin

text \<open>
  internal/storage/storage.go, the interface \<open>Store\<close> and its in-memory backend, and saver.go, the batched
  writer. A value is what \<open>json.Marshal\<close> makes of it, a byte string, or \<open>None\<close> where it refuses; the
  reader's \<open>json.Unmarshal\<close> of the bytes is outside the store. The mutexes are left out (every method
  holds its lock throughout). Whether a \<open>PutMany\<close> fails is decided by the backend, an argument.
\<close>

section \<open>The in-memory store\<close>

type_synonym json = string
type_synonym memory = "(string \<times> (string \<times> json) list) list"  \<comment> \<open>namespace, name\<close>

definition ns_data :: "memory \<Rightarrow> string \<Rightarrow> (string \<times> json) list" where
  "ns_data m ns = (case map_of m ns of Some d \<Rightarrow> d | None \<Rightarrow> [])"

definition mem_new :: memory where
  "mem_new = []"

definition mem_get :: "string \<Rightarrow> string \<Rightarrow> memory \<Rightarrow> json option" where
  "mem_get ns name m = map_of (ns_data m ns) name"

definition mem_put :: "string \<Rightarrow> string \<Rightarrow> json option \<Rightarrow> memory \<Rightarrow> memory option" where
  \<comment> \<open>\<open>None\<close> is the error of a value that does not marshal\<close>
  "mem_put ns name v m =
     (case v of None \<Rightarrow> None | Some raw \<Rightarrow> Some (AList.update ns (AList.update name raw (ns_data m ns)) m))"

definition mem_delete :: "string \<Rightarrow> string \<Rightarrow> memory \<Rightarrow> memory" where
  "mem_delete ns name m =
     (case map_of m ns of None \<Rightarrow> m | Some d \<Rightarrow> AList.update ns (AList.delete name d) m)"

definition mem_names :: "string \<Rightarrow> memory \<Rightarrow> string list" where
  "mem_names ns m = sort (map fst (ns_data m ns))"

definition mem_get_all :: "string \<Rightarrow> memory \<Rightarrow> (string \<times> json) list" where
  "mem_get_all ns m = ns_data m ns"

definition mem_put_raws :: "string \<Rightarrow> (string \<times> json) list \<Rightarrow> memory \<Rightarrow> memory" where
  "mem_put_raws ns raws m = AList.update ns (fold (\<lambda>(k, v) d. AList.update k v d) raws (ns_data m ns)) m"

definition mem_put_many :: "string \<Rightarrow> (string \<times> json option) list \<Rightarrow> memory \<Rightarrow> memory option" where
  "mem_put_many ns vs m =
     (if \<exists>v \<in> set vs. snd v = None then None
      else Some (mem_put_raws ns (map (\<lambda>(k, v). (k, the v)) vs) m))"

definition mem_inv :: "memory \<Rightarrow> bool" where
  "mem_inv m \<longleftrightarrow> wf_map m \<and> (\<forall>e \<in> set m. wf_map (snd e))"

lemma mem_new_inv [simp]: "mem_inv mem_new"
  by (simp add: mem_inv_def mem_new_def)

lemma ns_data_wf: "mem_inv m \<Longrightarrow> wf_map (ns_data m ns)"
  by (fastforce simp: mem_inv_def ns_data_def dest: map_of_SomeD split: option.splits)

lemma ns_data_update [simp]: "ns_data (AList.update ns d m) ns' = (if ns' = ns then d else ns_data m ns')"
  by (simp add: ns_data_def)

lemma mem_inv_update: "mem_inv m \<Longrightarrow> wf_map d \<Longrightarrow> mem_inv (AList.update ns d m)"
  using update_all [of m "\<lambda>e. wf_map (snd e)" ns d] by (simp add: mem_inv_def)

text \<open>
  C29. The store is a map from namespace and name to values. A value put is read back, by \<open>Get\<close> and by
  \<open>GetAll\<close>, a name deleted is gone, \<open>PutMany\<close> is all of its puts and nothing when one value does not
  marshal, \<open>Names\<close> is the sorted list of the names present, and no operation touches another name.
\<close>

theorem memory_map:
  assumes "mem_inv m"
  shows "(case mem_put ns k v m of
       None \<Rightarrow> v = None
     | Some m' \<Rightarrow> mem_inv m' \<and> (\<forall>ns' k'. mem_get ns' k' m' = (if ns' = ns \<and> k' = k then v else mem_get ns' k' m))) \<and>
    mem_inv (mem_delete ns k m) \<and>
    (\<forall>ns' k'. mem_get ns' k' (mem_delete ns k m) = (if ns' = ns \<and> k' = k then None else mem_get ns' k' m)) \<and>
    set (mem_names ns m) = {k. mem_get ns k m \<noteq> None} \<and> sorted (mem_names ns m) \<and> distinct (mem_names ns m) \<and>
    map_of (mem_get_all ns m) = (\<lambda>k. mem_get ns k m) \<and>
    (wf_map vs \<longrightarrow> (case mem_put_many ns vs m of
       None \<Rightarrow> \<exists>v \<in> set vs. snd v = None
     | Some m' \<Rightarrow> mem_inv m' \<and> (\<forall>ns' k'. mem_get ns' k' m' =
         (case map_of vs k' of Some v \<Rightarrow> if ns' = ns then v else mem_get ns' k' m | None \<Rightarrow> mem_get ns' k' m))))"
proof -
  note wf = ns_data_wf [OF assms]
  have put: "case mem_put ns k v m of None \<Rightarrow> v = None
     | Some m' \<Rightarrow> mem_inv m' \<and> (\<forall>ns' k'. mem_get ns' k' m' = (if ns' = ns \<and> k' = k then v else mem_get ns' k' m))"
    using mem_inv_update [OF assms wf_map_update [OF wf]]
    by (auto simp: mem_put_def mem_get_def split: option.splits)
  have "mem_inv (AList.update ns (AList.delete k (ns_data m ns)) m)"
    by (rule mem_inv_update [OF assms wf_map_delete [OF wf]])
  then have del: "mem_inv (mem_delete ns k m)"
    "\<forall>ns' k'. mem_get ns' k' (mem_delete ns k m) = (if ns' = ns \<and> k' = k then None else mem_get ns' k' m)"
    using assms
    by (auto simp: mem_delete_def mem_get_def ns_data_def split: option.splits)
  have names: "set (mem_names ns m) = {k. mem_get ns k m \<noteq> None}" "distinct (mem_names ns m)"
    using wf by (auto simp: mem_names_def mem_get_def map_of_eq_None_iff)
  have "map_of (map (\<lambda>(k, v). (k, the v)) vs) k' = map_option the (map_of vs k')" for k'
    by (simp add: map_of_map_snd [of "\<lambda>k v. the v", simplified])
  moreover have "wf_map vs \<Longrightarrow> wf_map (map (\<lambda>(k, v). (k, the v)) vs)"
    by (simp add: comp_def case_prod_beta')
  moreover have "Some (the w) = w" if "map_of vs k' = Some w" "\<forall>v \<in> set vs. snd v \<noteq> None" for k' w
    using that by (force dest: map_of_SomeD)
  ultimately have many: "wf_map vs \<longrightarrow> (case mem_put_many ns vs m of
       None \<Rightarrow> \<exists>v \<in> set vs. snd v = None
     | Some m' \<Rightarrow> mem_inv m' \<and> (\<forall>ns' k'. mem_get ns' k' m' =
         (case map_of vs k' of Some v \<Rightarrow> if ns' = ns then v else mem_get ns' k' m | None \<Rightarrow> mem_get ns' k' m)))"
    using mem_inv_update [OF assms fold_update_wf [OF wf]]
    by (auto simp: mem_put_many_def mem_put_raws_def mem_get_def fold_update_map split: option.splits dest: map_of_SomeD)
  show ?thesis using put del names many by (simp add: mem_names_def mem_get_all_def mem_get_def)
qed

lemma memory_map_witness:
  "mem_inv [(''core'', [(''conf'', ''1'')])] \<and>
   map_of (mem_get_all ''core'' [(''core'', [(''conf'', ''1'')])]) = (\<lambda>k. mem_get ''core'' k [(''core'', [(''conf'', ''1'')])])"
proof -
  have i: "mem_inv [(''core'', [(''conf'', ''1'')])]" by (simp add: mem_inv_def)
  show ?thesis using memory_map [OF i, where ns = "''core''" and k = "''x''" and v = None and vs = "[]"] i by simp
qed

section \<open>The batched writer\<close>

text \<open>
  A key is a namespace and a name. A value function of the source is a closure over the module's data
  \<open>'m\<close>, together with the marshalling of its result; a write requeued by its bytes is a constant one.
\<close>

type_synonym skey = "string \<times> string"

record 'm saver =
  dirty :: "(skey \<times> ('m \<Rightarrow> json option)) list"
  inflight :: bool

definition saver_new :: "'m saver" where
  "saver_new = \<lparr>dirty = [], inflight = False\<rparr>"

definition mark :: "skey \<Rightarrow> ('m \<Rightarrow> json option) \<Rightarrow> 'm saver \<Rightarrow> 'm saver" where
  "mark k f s = s\<lparr>dirty := AList.update k f (dirty s)\<rparr>"

definition dirty_count :: "'m saver \<Rightarrow> nat" where
  "dirty_count s = length (dirty s)"

definition serialize :: "'m \<Rightarrow> 'm saver \<Rightarrow> (skey \<times> json) list \<times> 'm saver" where
  "serialize m s =
     (map (\<lambda>(k, f). (k, the (f m))) (filter (\<lambda>(k, f). f m \<noteq> None) (dirty s)), s\<lparr>dirty := []\<rparr>)"

text \<open>The write: one \<open>PutMany\<close> per namespace; \<open>bad\<close> says which the backend refuses.\<close>

definition ns_batch :: "string \<Rightarrow> (skey \<times> json) list \<Rightarrow> (string \<times> json) list" where
  "ns_batch ns raws = map (\<lambda>(k, v). (snd k, v)) (filter (\<lambda>(k, v). fst k = ns) raws)"

definition write_ns :: "(string \<Rightarrow> (string \<times> json) list \<Rightarrow> 'st \<Rightarrow> 'st) \<Rightarrow> (string \<Rightarrow> bool) \<Rightarrow> (skey \<times> json) list \<Rightarrow>
    string \<Rightarrow> string list \<times> 'st \<Rightarrow> string list \<times> 'st" where
  "write_ns put bad raws ns acc =
     (if bad ns then (fst acc @ [ns], snd acc) else (fst acc, put ns (ns_batch ns raws) (snd acc)))"

definition write_batches :: "(string \<Rightarrow> (string \<times> json) list \<Rightarrow> 'st \<Rightarrow> 'st) \<Rightarrow> (string \<Rightarrow> bool) \<Rightarrow> (skey \<times> json) list \<Rightarrow>
    'st \<Rightarrow> string list \<times> 'st" where
  "write_batches put bad raws st = fold (write_ns put bad raws) (remdups (map (fst \<circ> fst) raws)) ([], st)"

text \<open>\<open>Flush\<close>: what it hands to the writing goroutine, if it starts one.\<close>

definition flush :: "'m \<Rightarrow> 'm saver \<Rightarrow> (skey \<times> json) list option \<times> 'm saver" where
  "flush m s =
     (if inflight s \<or> dirty s = [] then (None, s)
      else (let (raws, s') = serialize m s in (Some raws, s'\<lparr>inflight := True\<rparr>)))"

text \<open>The completion that \<open>deliver\<close> runs on the dispatcher.\<close>

definition requeue :: "string list \<Rightarrow> skey \<times> json \<Rightarrow> (skey \<times> ('m \<Rightarrow> json option)) list \<Rightarrow>
    (skey \<times> ('m \<Rightarrow> json option)) list" where
  "requeue failed e d =
     (if fst (fst e) \<notin> set failed \<or> map_of d (fst e) \<noteq> None then d else AList.update (fst e) (\<lambda>m. Some (snd e)) d)"

definition complete :: "(skey \<times> json) list \<Rightarrow> string list \<Rightarrow> 'm saver \<Rightarrow> 'm saver" where
  "complete raws failed s = \<lparr>dirty = fold (requeue failed) raws (dirty s), inflight = False\<rparr>"

text \<open>\<open>FlushSync\<close>, after the wait; the number of namespaces that failed, 0 for no error.\<close>

definition flush_sync :: "(string \<Rightarrow> (string \<times> json) list \<Rightarrow> 'st \<Rightarrow> 'st) \<Rightarrow> (string \<Rightarrow> bool) \<Rightarrow> 'm \<Rightarrow> 'm saver \<Rightarrow>
    'st \<Rightarrow> nat \<times> 'm saver \<times> 'st" where
  "flush_sync put bad m s st =
     (if dirty s = [] then (0, s, st)
      else (let (raws, s') = serialize m s; (failed, st') = write_batches put bad raws st
            in (length failed, s'\<lparr>inflight := False\<rparr>, st')))"

section \<open>What the writer relies on\<close>

locale kv_store =
  fixes inv :: "'st \<Rightarrow> bool"
    and look :: "'st \<Rightarrow> skey \<Rightarrow> json option"
    and put :: "string \<Rightarrow> (string \<times> json) list \<Rightarrow> 'st \<Rightarrow> 'st"
  assumes put_law: "inv st \<Longrightarrow> wf_map vs \<Longrightarrow> inv (put ns vs st) \<and>
    look (put ns vs st) k = (case map_of vs (snd k) of
      Some v \<Rightarrow> if fst k = ns then Some v else look st k | None \<Rightarrow> look st k)"
begin

lemma ns_batch_wf: "wf_map raws \<Longrightarrow> wf_map (ns_batch ns raws)"
proof (induction raws)
  case (Cons e raws)
  then show ?case by (cases e) (force simp: ns_batch_def)
qed (simp add: ns_batch_def)

lemma ns_batch_of: "map_of (ns_batch ns raws) name = map_of raws (ns, name)"
  by (induction raws) (auto simp: ns_batch_def)

lemma write_fold:
  assumes "wf_map raws"
  shows "inv st \<Longrightarrow> fold (write_ns put bad raws) nss (failed, st) = (failed', st') \<Longrightarrow>
    inv st' \<and> failed' = failed @ filter bad nss \<and>
    look st' k = (if fst k \<in> set nss \<and> \<not> bad (fst k) then
      (case map_of raws k of Some v \<Rightarrow> Some v | None \<Rightarrow> look st k) else look st k)"
proof (induction nss arbitrary: failed st)
  case (Cons ns nss)
  note law = put_law [OF Cons.prems(1) ns_batch_wf [OF assms], of ns ns k, unfolded ns_batch_of]
  show ?case
  proof (cases "bad ns")
    case True
    then show ?thesis using Cons.IH [of st "failed @ [ns]"] Cons.prems by (auto simp: write_ns_def)
  next
    case False
    then show ?thesis
      using Cons.IH [of "put ns (ns_batch ns raws) st" failed] Cons.prems law
      by (cases k) (auto simp: write_ns_def split: option.splits)
  qed
qed simp

lemma write_spec:
  assumes "wf_map raws" and "inv st" and "write_batches put bad raws st = (failed, st')"
  shows "inv st' \<and> failed = filter bad (remdups (map (fst \<circ> fst) raws)) \<and>
    look st' k = (case map_of raws k of Some v \<Rightarrow> if bad (fst k) then look st k else Some v | None \<Rightarrow> look st k)"
proof -
  have "fst k \<in> set (remdups (map (fst \<circ> fst) raws))" if "map_of raws k = Some v" for v
    using map_of_SomeD [OF that] by force
  then show ?thesis
    using write_fold [OF assms(1,2) assms(3) [unfolded write_batches_def], of k] by (auto split: option.splits)
qed

end

definition mem_look :: "memory \<Rightarrow> skey \<Rightarrow> json option" where
  "mem_look m k = mem_get (fst k) (snd k) m"

interpretation mem_store: kv_store mem_inv mem_look mem_put_raws
proof
  fix st :: memory and vs :: "(string \<times> json) list" and ns and k :: skey
  assume a: "mem_inv st" "wf_map vs"
  show "mem_inv (mem_put_raws ns vs st) \<and> mem_look (mem_put_raws ns vs st) k =
      (case map_of vs (snd k) of Some v \<Rightarrow> if fst k = ns then Some v else mem_look st k | None \<Rightarrow> mem_look st k)"
    using mem_inv_update [OF a(1) fold_update_wf [OF ns_data_wf [OF a(1)]]]
    by (auto simp: mem_put_raws_def mem_look_def mem_get_def fold_update_map [OF a(2)] split: option.splits)
qed

section \<open>No mark is lost\<close>

text \<open>
  The writer in the program: module data changes and every key whose value changes is marked, the
  dispatcher flushes, the goroutine writes at any later time, with any namespaces failing, and later
  still the completion runs. \<open>val\<close> is the value function the modules pass for a key.
\<close>

datatype phase = Idle | Writing "(skey \<times> json) list" | Written "(skey \<times> json) list" "string list"

record 'm saver_state =
  saver :: "'m saver"
  phase :: phase
  store :: memory
  module_data :: 'm
  marked :: "skey set"

inductive saver_step :: "(skey \<Rightarrow> 'm \<Rightarrow> json option) \<Rightarrow> 'm saver_state \<Rightarrow> 'm saver_state \<Rightarrow> bool"
  for val where
  step_change: "(\<And>k. k \<notin> set ks \<Longrightarrow> val k m = val k (module_data x)) \<Longrightarrow>
    saver_step val x (x\<lparr>module_data := m, saver := fold (\<lambda>k. mark k (val k)) ks (saver x), marked := marked x \<union> set ks\<rparr>)"
| step_flush: "flush (module_data x) (saver x) = (Some raws, s) \<Longrightarrow>
    saver_step val x (x\<lparr>saver := s, phase := Writing raws\<rparr>)"
| step_flush_noop: "flush (module_data x) (saver x) = (None, s) \<Longrightarrow> saver_step val x (x\<lparr>saver := s\<rparr>)"
| step_write: "phase x = Writing raws \<Longrightarrow> write_batches mem_put_raws bad raws (store x) = (failed, st) \<Longrightarrow>
    saver_step val x (x\<lparr>store := st, phase := Written raws failed\<rparr>)"
| step_complete: "phase x = Written raws failed \<Longrightarrow>
    saver_step val x (x\<lparr>saver := complete raws failed (saver x), phase := Idle\<rparr>)"

inductive_cases saver_stepE: "saver_step val x y"

definition saver_init :: "'m \<Rightarrow> memory \<Rightarrow> 'm saver_state" where
  "saver_init m st = \<lparr>saver = saver_new, phase = Idle, store = st, module_data = m, marked = {}\<rparr>"

text \<open>What the write under way holds for a key: its bytes, once the outcome is known only a failure's.\<close>

definition outstanding :: "phase \<Rightarrow> skey \<Rightarrow> json option" where
  "outstanding p k =
     (case p of Idle \<Rightarrow> None | Writing raws \<Rightarrow> map_of raws k
      | Written raws failed \<Rightarrow> if fst k \<in> set failed then map_of raws k else None)"

definition accounted :: "(skey \<Rightarrow> 'm \<Rightarrow> json option) \<Rightarrow> 'm saver_state \<Rightarrow> skey \<Rightarrow> bool" where
  \<comment> \<open>a marshallable value of a marked key is queued to be written, under way or stored\<close>
  "accounted val x k \<longleftrightarrow>
     (case map_of (dirty (saver x)) k of
        Some f \<Rightarrow> f = val k \<or> (\<exists>v. f = (\<lambda>m. Some v) \<and> val k (module_data x) = Some v)
      | None \<Rightarrow> (case outstanding (phase x) k of
          Some w \<Rightarrow> val k (module_data x) = Some w
        | None \<Rightarrow> (case val k (module_data x) of None \<Rightarrow> True | Some v \<Rightarrow> mem_look (store x) k = Some v)))"

definition saver_inv :: "(skey \<Rightarrow> 'm \<Rightarrow> json option) \<Rightarrow> 'm saver_state \<Rightarrow> bool" where
  "saver_inv val x \<longleftrightarrow> mem_inv (store x) \<and> wf_map (dirty (saver x)) \<and>
     inflight (saver x) = (phase x \<noteq> Idle) \<and>
     (case phase x of
        Idle \<Rightarrow> True
      | Writing raws \<Rightarrow> wf_map raws \<and> fst ` set raws \<subseteq> marked x
      | Written raws failed \<Rightarrow> wf_map raws \<and> fst ` set raws \<subseteq> marked x) \<and>
     fst ` set (dirty (saver x)) \<subseteq> marked x \<and> (\<forall>k \<in> marked x. accounted val x k)"

lemma mark_fold:
  "map_of (dirty (fold (\<lambda>k. mark k (val k)) ks s)) k = (if k \<in> set ks then Some (val k) else map_of (dirty s) k) \<and>
   (wf_map (dirty s) \<longrightarrow> wf_map (dirty (fold (\<lambda>k. mark k (val k)) ks s))) \<and>
   inflight (fold (\<lambda>k. mark k (val k)) ks s) = inflight s \<and>
   fst ` set (dirty (fold (\<lambda>k. mark k (val k)) ks s)) = fst ` set (dirty s) \<union> set ks"
  by (induction ks arbitrary: s) (auto simp: mark_def)

lemma serialize_map:
  assumes "wf_map (dirty s)" and "serialize m s = (raws, s')"
  shows "wf_map raws \<and> s' = s\<lparr>dirty := []\<rparr> \<and>
    map_of raws k = (case map_of (dirty s) k of Some f \<Rightarrow> f m | None \<Rightarrow> None)"
proof -
  have raws: "raws = map (\<lambda>(k, f). (k, the (f m))) (filter (\<lambda>(k, f). f m \<noteq> None) (dirty s))" and s': "s' = s\<lparr>dirty := []\<rparr>"
    using assms(2) by (auto simp: serialize_def)
  have "wf_map raws \<and> map_of raws k = (case map_of (dirty s) k of Some f \<Rightarrow> f m | None \<Rightarrow> None)"
    using assms(1) unfolding raws
  proof (induction "dirty s" arbitrary: s)
    case (Cons e d)
    obtain k' f where e: "e = (k', f)" by (cases e)
    have "map_of d k' = None" "wf_map d" using Cons.prems Cons.hyps(2) [symmetric] e by (auto simp: map_of_eq_None_iff)
    moreover note Cons.hyps(1) [of "s\<lparr>dirty := d\<rparr>"]
    moreover have "k' \<notin> fst ` set (map (\<lambda>(k, f). (k, the (f m))) (filter (\<lambda>(k, f). f m \<noteq> None) d))"
      using \<open>map_of d k' = None\<close> by (force simp: map_of_eq_None_iff)
    ultimately show ?case using Cons.hyps(2) [symmetric] e by (auto split: option.splits)
  qed simp
  then show ?thesis using s' by simp
qed

lemma requeue_fold:
  assumes "wf_map raws"
  shows "wf_map d \<Longrightarrow> wf_map (fold (requeue failed) raws d) \<and>
    (map_of (fold (requeue failed) raws d) k =
     (case map_of d k of Some f \<Rightarrow> Some f
      | None \<Rightarrow> if fst k \<in> set failed then map_option (\<lambda>v m. Some v) (map_of raws k) else None)) \<and>
    fst ` set (fold (requeue failed) raws d) = fst ` set d \<union> {k \<in> fst ` set raws. fst k \<in> set failed}"
  using assms
proof (induction raws arbitrary: d)
  case (Cons e raws)
  obtain k' v where e: "e = (k', v)" by (cases e)
  have n: "map_of raws k' = None" "wf_map raws" using Cons.prems e by (auto simp: map_of_eq_None_iff)
  have r: "wf_map (requeue failed e d)" "fst ` set (requeue failed e d) = fst ` set d \<union> (if fst k' \<in> set failed then {k'} else {})"
    using Cons.prems e by (auto simp: requeue_def map_of_None_iff map_of_eq_None_iff)
  have m: "map_of (requeue failed e d) k = (case map_of d k of Some f \<Rightarrow> Some f
      | None \<Rightarrow> if k = k' \<and> fst k \<in> set failed then Some (\<lambda>m. Some v) else None)"
    using e by (auto simp: requeue_def split: option.splits)
  note IH = Cons.IH [OF r(1) n(2)]
  have "map_of (fold (requeue failed) (e # raws) d) k =
     (case map_of d k of Some f \<Rightarrow> Some f
      | None \<Rightarrow> if fst k \<in> set failed then map_option (\<lambda>v m. Some v) (map_of (e # raws) k) else None)"
    using IH m n(1) e by (auto split: option.splits)
  then show ?case using IH r(2) e by auto
qed (auto split: option.splits)

lemma saver_invD:
  assumes "saver_inv val x"
  shows "mem_inv (store x)" and "wf_map (dirty (saver x))" and "inflight (saver x) = (phase x \<noteq> Idle)"
    and "phase x = Writing raws \<Longrightarrow> wf_map raws \<and> fst ` set raws \<subseteq> marked x"
    and "phase x = Written raws failed \<Longrightarrow> wf_map raws \<and> fst ` set raws \<subseteq> marked x"
    and "fst ` set (dirty (saver x)) \<subseteq> marked x" and "k \<in> marked x \<Longrightarrow> accounted val x k"
  using assms by (auto simp: saver_inv_def)

lemma outstanding_simps [simp]:
  "outstanding Idle k = None" "outstanding (Writing raws) k = map_of raws k"
  "outstanding (Written raws failed) k = (if fst k \<in> set failed then map_of raws k else None)"
  by (simp_all add: outstanding_def)

lemma change_inv:
  assumes "saver_inv val x" and "\<And>k. k \<notin> set ks \<Longrightarrow> val k m = val k (module_data x)"
  shows "saver_inv val (x\<lparr>module_data := m, saver := fold (\<lambda>k. mark k (val k)) ks (saver x), marked := marked x \<union> set ks\<rparr>)"
    (is "saver_inv val ?y")
proof -
  have "accounted val ?y k" if k: "k \<in> marked x \<union> set ks" for k
  proof (cases "k \<in> set ks")
    case True
    then show ?thesis using mark_fold [of val ks "saver x" k] by (simp add: accounted_def)
  next
    case False
    then show ?thesis
      using k saver_invD(7) [OF assms(1), of k] assms(2) [OF False] mark_fold [of val ks "saver x" k]
      by (auto simp: accounted_def split: option.splits)
  qed
  moreover have "case phase x of Idle \<Rightarrow> True
      | Writing raws \<Rightarrow> wf_map raws \<and> fst ` set raws \<subseteq> marked x \<union> set ks
      | Written raws failed \<Rightarrow> wf_map raws \<and> fst ` set raws \<subseteq> marked x \<union> set ks"
    using saver_invD(4,5) [OF assms(1)] by (cases "phase x") (simp_all add: le_supI1)
  ultimately show ?thesis
    using saver_invD(1-3,6) [OF assms(1)] mark_fold [of val ks "saver x"]
    unfolding saver_inv_def by (simp add: le_supI1 cong: phase.case_cong)
qed

lemma flush_inv:
  assumes "saver_inv val x" and "flush (module_data x) (saver x) = (Some raws, s)"
  shows "saver_inv val (x\<lparr>saver := s, phase := Writing raws\<rparr>)" (is "saver_inv val ?y")
proof -
  obtain s' where sz: "serialize (module_data x) (saver x) = (raws, s')" and s: "s = s'\<lparr>inflight := True\<rparr>"
    and idle: "phase x = Idle"
    using assms(2) saver_invD(3) [OF assms(1)] by (auto simp: flush_def split: if_splits prod.splits)
  note S = serialize_map [OF saver_invD(2) [OF assms(1)] sz]
  have "accounted val ?y k" if k: "k \<in> marked x" for k
    using saver_invD(7) [OF assms(1) k] S [of k] idle s
    by (auto simp: accounted_def split: option.splits)
  moreover have "fst ` set raws \<subseteq> marked x"
  proof
    fix k assume "k \<in> fst ` set raws"
    then have "map_of raws k \<noteq> None" by (simp add: map_of_eq_None_iff)
    then have "map_of (dirty (saver x)) k \<noteq> None" using S [of k] by (auto split: option.splits)
    then show "k \<in> marked x" using saver_invD(6) [OF assms(1)] by (auto simp: map_of_eq_None_iff)
  qed
  ultimately show ?thesis using saver_invD(1) [OF assms(1)] S s unfolding saver_inv_def by auto
qed

lemma write_inv:
  assumes "saver_inv val x" and "phase x = Writing raws"
    and "write_batches mem_put_raws bad raws (store x) = (failed, st)"
  shows "saver_inv val (x\<lparr>store := st, phase := Written raws failed\<rparr>)" (is "saver_inv val ?y")
proof -
  have wf: "wf_map raws" and sub: "fst ` set raws \<subseteq> marked x" using saver_invD(4) [OF assms(1,2)] by auto
  note W = mem_store.write_spec [OF wf saver_invD(1) [OF assms(1)] assms(3)]
  have f: "fst k \<in> set failed \<longleftrightarrow> bad (fst k)" if "map_of raws k = Some v" for k v
    using W map_of_SomeD [OF that] by force
  have "accounted val ?y k" if k: "k \<in> marked x" for k
    using saver_invD(7) [OF assms(1) k] W [of k] f [of k] assms(2)
    by (auto simp: accounted_def split: option.splits)
  then show ?thesis using saver_invD(2,3,6) [OF assms(1)] W wf sub assms(2) unfolding saver_inv_def by auto
qed

lemma complete_inv:
  assumes "saver_inv val x" and "phase x = Written raws failed"
  shows "saver_inv val (x\<lparr>saver := complete raws failed (saver x), phase := Idle\<rparr>)" (is "saver_inv val ?y")
proof -
  have wf: "wf_map raws" and sub: "fst ` set raws \<subseteq> marked x" using saver_invD(5) [OF assms] by auto
  note R = requeue_fold [OF wf saver_invD(2) [OF assms(1)], of failed]
  have d: "dirty (saver ?y) = fold (requeue failed) raws (dirty (saver x))" by (simp add: complete_def)
  have "accounted val ?y k" if k: "k \<in> marked x" for k
    using saver_invD(7) [OF assms(1) k] R [of k] assms(2)
    by (auto simp: accounted_def complete_def split: option.splits if_splits)
  then show ?thesis
    using saver_invD(1,6) [OF assms(1)] R d sub unfolding saver_inv_def by (auto simp: complete_def)
qed

lemma saver_step_inv:
  assumes "saver_step val x y" and "saver_inv val x"
  shows "saver_inv val y"
  using assms
proof (cases rule: saver_step.cases)
  case (step_change ks m)
  then show ?thesis using change_inv [OF assms(2)] by blast
next
  case (step_flush raws s)
  then show ?thesis using flush_inv [OF assms(2)] by blast
next
  case (step_flush_noop s)
  then have "s = saver x" by (auto simp: flush_def split: if_splits prod.splits)
  then show ?thesis using step_flush_noop assms(2) by simp
next
  case (step_write raws bad failed st)
  then show ?thesis using write_inv [OF assms(2)] by blast
next
  case (step_complete raws failed)
  then show ?thesis using complete_inv [OF assms(2)] by blast
qed

lemma saver_init_inv: "mem_inv st \<Longrightarrow> saver_inv val (saver_init m st)"
  by (simp add: saver_inv_def saver_init_def saver_new_def)

lemma saver_reach_inv:
  assumes "mem_inv st" and "(saver_step val)\<^sup>*\<^sup>* (saver_init m st) x"
  shows "saver_inv val x"
  using assms(2) by (induction rule: rtranclp_induct) (auto simp: saver_init_inv [OF assms(1)] intro: saver_step_inv)

text \<open>
  C3. No mark is lost. However the module's changes, the flushes, the writes with any namespaces
  failing and the completions interleave, when nothing is dirty and no write or completion is
  outstanding the store holds the current value of every key ever marked (whose value marshals); and as
  long as something is outstanding, the key is dirty, in the write under way, or in its failed part.
\<close>

theorem saver_no_loss:
  assumes "mem_inv st" and "(saver_step val)\<^sup>*\<^sup>* (saver_init m st) x" and "k \<in> marked x"
    and "val k (module_data x) = Some v"
  shows "(dirty (saver x) = [] \<and> phase x = Idle \<longrightarrow> mem_look (store x) k = Some v) \<and>
    (mem_look (store x) k = Some v \<or> map_of (dirty (saver x)) k \<noteq> None \<or> outstanding (phase x) k = Some v) \<and>
    inflight (saver x) = (phase x \<noteq> Idle)"
  using saver_invD(7) [OF saver_reach_inv [OF assms(1,2)] assms(3)] saver_invD(3) [OF saver_reach_inv [OF assms(1,2)]]
    assms(4)
  by (auto simp: accounted_def split: option.splits)

text \<open>
  A final flush stores everything. From any state with no write outstanding, a \<open>FlushSync\<close> in which
  no namespace fails returns no error and leaves the current value of every marked key in the store.
\<close>

theorem flush_sync_stores:
  assumes "mem_inv st" and "(saver_step val)\<^sup>*\<^sup>* (saver_init m st) x" and "phase x = Idle"
  shows "case flush_sync mem_put_raws (\<lambda>ns. False) (module_data x) (saver x) (store x) of
    (n, s, st') \<Rightarrow> n = 0 \<and> dirty s = [] \<and>
      (\<forall>k \<in> marked x. val k (module_data x) = None \<or> mem_look st' k = val k (module_data x))"
proof (cases "dirty (saver x) = []")
  case True
  then show ?thesis
    using saver_invD(7) [OF saver_reach_inv [OF assms(1,2)]] assms(3)
    by (fastforce simp: flush_sync_def accounted_def split: option.splits)
next
  case False
  note inv = saver_reach_inv [OF assms(1,2)]
  obtain raws s where sz: "serialize (module_data x) (saver x) = (raws, s)" by fastforce
  obtain failed st' where w: "write_batches mem_put_raws (\<lambda>ns. False) raws (store x) = (failed, st')" by fastforce
  note S = serialize_map [OF saver_invD(2) [OF inv] sz]
  note W = mem_store.write_spec [OF _ saver_invD(1) [OF inv] w]
  have "val k (module_data x) = None \<or> mem_look st' k = val k (module_data x)" if k: "k \<in> marked x" for k
    using saver_invD(7) [OF inv k] S [of k] W [of k] assms(3)
    by (auto simp: accounted_def split: option.splits)
  then show ?thesis using False sz w S W by (simp add: flush_sync_def)
qed

text \<open>
  C30. A final flush can lose a failed write. When \<open>FlushSync\<close> finds a write in flight it waits for the
  write, not for its completion, which is what requeues the part that failed: a key whose write failed
  and that was not marked since is then in nothing that is flushed. With nothing else dirty the call
  returns no error although the store does not hold the value.
\<close>

theorem flush_sync_loses:
  assumes "mem_inv st" and "flush m s0 = (Some raws, s1)" and "wf_map (dirty s0)"
    and "map_of raws k = Some v" and "bad (fst k)" and "mem_look st k \<noteq> Some v"
  shows "case write_batches mem_put_raws bad raws st of
    (failed, st1) \<Rightarrow> fst k \<in> set failed \<and>
      flush_sync mem_put_raws bad' m s1 st1 = (0, s1, st1) \<and> dirty s1 = [] \<and> mem_look st1 k \<noteq> Some v"
proof -
  obtain s' where sz: "serialize m s0 = (raws, s')" and s1: "s1 = s'\<lparr>inflight := True\<rparr>"
    using assms(2) by (auto simp: flush_def split: if_splits prod.splits)
  note S = serialize_map [OF assms(3) sz]
  obtain failed st1 where w: "write_batches mem_put_raws bad raws st = (failed, st1)" by fastforce
  have wf: "wf_map raws" using S by blast
  note W = mem_store.write_spec [OF wf assms(1) w, of k]
  have "fst k \<in> set failed" using W assms(5) map_of_SomeD [OF assms(4)] by force
  then show ?thesis using w W S s1 assms(4-6) by (simp add: flush_sync_def)
qed

lemma flush_sync_loses_witness:
  "case write_batches mem_put_raws (\<lambda>ns. True) [((''karma'', ''tea''), ''2'')] mem_new of
    (failed, st1) \<Rightarrow> fst (''karma'', ''tea'') \<in> set failed \<and>
      flush_sync mem_put_raws (\<lambda>ns. False) () \<lparr>dirty = [], inflight = True\<rparr> st1 =
        (0, \<lparr>dirty = [], inflight = True\<rparr>, st1) \<and>
      dirty \<lparr>dirty = [] :: (skey \<times> (unit \<Rightarrow> json option)) list, inflight = True\<rparr> = [] \<and>
      mem_look st1 (''karma'', ''tea'') \<noteq> Some ''2''"
proof (rule flush_sync_loses)
  show "flush () \<lparr>dirty = [((''karma'', ''tea''), \<lambda>u. Some ''2'')], inflight = False\<rparr> =
      (Some [((''karma'', ''tea''), ''2'')], \<lparr>dirty = [], inflight = True\<rparr>)"
    by (simp add: flush_def serialize_def)
qed (simp_all add: mem_look_def mem_get_def ns_data_def, simp add: mem_new_def)

definition tea :: skey where "tea = (''karma'', ''tea'')"

definition demo_val :: "skey \<Rightarrow> nat \<Rightarrow> json option" where
  "demo_val k n = (if k = tea then Some (nat_str n) else None)"

definition demo_state :: "nat saver_state" where
  "demo_state = (saver_init 0 mem_new)\<lparr>module_data := 3, saver := mark tea (demo_val tea) saver_new, marked := {tea}\<rparr>"

lemma demo_reach: "(saver_step demo_val)\<^sup>*\<^sup>* (saver_init 0 mem_new) demo_state"
proof -
  have "demo_val k 3 = demo_val k (module_data (saver_init 0 mem_new))" if "k \<notin> set [tea]" for k
    using that by (simp add: demo_val_def)
  from step_change [of "[tea]" demo_val 3 "saver_init 0 mem_new", OF this]
  have "saver_step demo_val (saver_init 0 mem_new) demo_state"
    by (simp add: demo_state_def saver_init_def)
  then show ?thesis by (rule r_into_rtranclp)
qed

lemma saver_no_loss_witness:
  "\<exists>d. map_of (dirty (saver demo_state)) tea = Some d"
proof -
  have none: "mem_look (store demo_state) tea = None"
    by (simp add: demo_state_def saver_init_def mem_look_def mem_get_def ns_data_def mem_new_def)
  have k: "tea \<in> marked demo_state" "demo_val tea (module_data demo_state) = Some (nat_str 3)"
    "phase demo_state = Idle"
    by (simp_all add: demo_state_def demo_val_def saver_init_def)
  show ?thesis using saver_no_loss [OF mem_new_inv demo_reach k(1,2)] k(3) none by auto
qed

lemma flush_sync_stores_witness:
  "case flush_sync mem_put_raws (\<lambda>ns. False) (module_data demo_state) (saver demo_state) (store demo_state) of
    (n, s, st') \<Rightarrow> n = 0 \<and> dirty s = [] \<and> mem_look st' tea = Some (nat_str 3)"
proof -
  have k: "phase demo_state = Idle" "tea \<in> marked demo_state" "demo_val tea (module_data demo_state) = Some (nat_str 3)"
    by (simp_all add: demo_state_def demo_val_def saver_init_def)
  show ?thesis
    using flush_sync_stores [OF mem_new_inv demo_reach k(1)] k(2,3) by (auto split: prod.splits)
qed

end
