(* ===== verification/Go_Strconv.thy ===== *)
theory Go_Strconv
  imports Go_Prelude
begin

text \<open>
  Package strconv: \<open>Atoi\<close> with its 64-bit range, \<open>ParseBool\<close>, their printers, and that what is
  printed is read back.
\<close>

section \<open>Parsers\<close>

definition int_in_range :: "int \<Rightarrow> bool" where
  "int_in_range i = (- (2 ^ 63) \<le> i \<and> i < 2 ^ 63)"

definition parse_nat :: "string \<Rightarrow> nat option" where
  "parse_nat s = (if s \<noteq> [] \<and> list_all is_digit s then Some (digits_val s) else None)"

definition atoi :: "string \<Rightarrow> int option" where
  "atoi s =
     (case s of
        [] \<Rightarrow> None
      | c # t \<Rightarrow>
          (case (if c = CHR ''-'' then map_option (\<lambda>n. - int n) (parse_nat t)
                 else if c = CHR ''+'' then map_option int (parse_nat t)
                 else map_option int (parse_nat s)) of
             None \<Rightarrow> None
           | Some i \<Rightarrow> if int_in_range i then Some i else None))"

definition parse_bool :: "string \<Rightarrow> bool option" where
  "parse_bool s =
     (if s \<in> {''1'', ''t'', ''T'', ''TRUE'', ''true'', ''True''} then Some True
      else if s \<in> {''0'', ''f'', ''F'', ''FALSE'', ''false'', ''False''} then Some False else None)"

definition format_bool :: "bool \<Rightarrow> string" where
  "format_bool b = (if b then ''true'' else ''false'')"

section \<open>Printing and parsing integers\<close>

lemma nat_str_digits: "list_all is_digit (nat_str n) \<and> digits_val (nat_str n) = n"
proof (induction n rule: nat_str.induct)
  case (1 n)
  have d: "is_digit (char_of (48 + k)) \<and> of_char (char_of (48 + k)) - 48 = k" if "k < 10" for k :: nat
  proof -
    have "of_char (char_of (48 + k)) = (48 + k)" using that by simp
    then show ?thesis using that by (simp add: is_digit_def less_eq_char_def)
  qed
  show ?case
  proof (cases "n < 10")
    case True
    then show ?thesis using d [of n] by (subst (1 2) nat_str.simps) (simp add: digits_val_def)
  next
    case False
    have "digits_val (s @ [c]) = 10 * digits_val s + (of_char c - 48)" for s c
      by (simp add: digits_val_def)
    then show ?thesis using False 1 d [of "n mod 10"] by (subst (1 2) nat_str.simps) simp
  qed
qed

lemma parse_nat_str: "parse_nat (nat_str n) = Some n"
  using nat_str_digits [of n] by (simp add: parse_nat_def)

lemma atoi_int_str: "int_in_range i \<Longrightarrow> atoi (int_str i) = Some i"
proof (cases "i < 0")
  case True
  assume "int_in_range i"
  then show ?thesis using True by (simp add: atoi_def int_str_def parse_nat_str)
next
  case False
  assume r: "int_in_range i"
  obtain c t where ct: "nat_str (nat i) = c # t" by (cases "nat_str (nat i)") auto
  have "is_digit c" using nat_str_digits [of "nat i"] ct by simp
  then have "c \<noteq> CHR ''-''" "c \<noteq> CHR ''+''" by (auto simp: is_digit_def less_eq_char_def)
  then show ?thesis
    using False r ct parse_nat_str [of "nat i"] by (simp add: atoi_def int_str_def)
qed

lemma parse_format_bool: "parse_bool (format_bool b) = Some b"
  by (simp add: parse_bool_def format_bool_def)

end
