(* ===== verification/Conf.thy ===== *)
theory Conf
  imports Go_Strconv
begin

text \<open>
  internal/conf/conf.go: the typed settings registry. Values are kept in string form, read by
  \<open>strconv\<close>. Which strings \<open>strconv.ParseFloat\<close> accepts is the
  argument \<open>float_ok\<close>, and a float setting is read as its string. \<open>OnChange\<close> is the name a successful
  \<open>Set\<close> reports; \<open>None\<close> as the result of a read is the panic of a read that is a programming error.
\<close>

section \<open>The registry\<close>

datatype kind = Kind_int | Kind_float | Kind_string | Kind_bool

record setting =
  s_kind :: kind
  s_raw :: string

record conf =
  settings :: "(string \<times> setting) list"
  stored :: "(string \<times> string) list"
  overrides :: "(string \<times> string) list"

datatype conf_error = No_such_setting string | Not_valid string kind string

definition conf_new :: conf where
  "conf_new = \<lparr>settings = [], stored = [], overrides = []\<rparr>"

definition copy_into :: "(string \<times> string) list \<Rightarrow> (string \<times> string) list \<Rightarrow> (string \<times> string) list" where
  "copy_into dst src = fold (\<lambda>(k, v) d. AList.update k v d) src dst"

definition load_stored :: "(string \<times> string) list \<Rightarrow> conf \<Rightarrow> conf" where
  "load_stored vs c = c\<lparr>stored := copy_into (stored c) vs\<rparr>"

definition set_file_overrides :: "(string \<times> string) list \<Rightarrow> conf \<Rightarrow> conf" where
  "set_file_overrides vs c = c\<lparr>overrides := copy_into (overrides c) vs\<rparr>"

definition parse_ok :: "(string \<Rightarrow> bool) \<Rightarrow> kind \<Rightarrow> string \<Rightarrow> bool" where
  "parse_ok float_ok k raw =
     (case k of
        Kind_int \<Rightarrow> atoi raw \<noteq> None
      | Kind_float \<Rightarrow> float_ok raw
      | Kind_string \<Rightarrow> True
      | Kind_bool \<Rightarrow> parse_bool raw \<noteq> None)"

definition create :: "(string \<Rightarrow> bool) \<Rightarrow> string \<Rightarrow> kind \<Rightarrow> string \<Rightarrow> conf \<Rightarrow> conf" where
  "create float_ok name k def c =
     (if map_of (settings c) name \<noteq> None then c
      else (let raw = (case map_of (stored c) name of
                  Some v \<Rightarrow> if parse_ok float_ok k v then v else def
                | None \<Rightarrow> def)
            in c\<lparr>settings := AList.update name \<lparr>s_kind = k, s_raw = raw\<rparr> (settings c)\<rparr>))"

definition create_int :: "(string \<Rightarrow> bool) \<Rightarrow> string \<Rightarrow> int \<Rightarrow> conf \<Rightarrow> conf" where
  "create_int float_ok name def = create float_ok name Kind_int (int_str def)"

definition create_float :: "(string \<Rightarrow> bool) \<Rightarrow> string \<Rightarrow> string \<Rightarrow> conf \<Rightarrow> conf" where
  \<comment> \<open>the default as \<open>FormatFloat\<close> prints it\<close>
  "create_float float_ok name def = create float_ok name Kind_float def"

definition create_string :: "(string \<Rightarrow> bool) \<Rightarrow> string \<Rightarrow> string \<Rightarrow> conf \<Rightarrow> conf" where
  "create_string float_ok name def = create float_ok name Kind_string def"

definition create_bool :: "(string \<Rightarrow> bool) \<Rightarrow> string \<Rightarrow> bool \<Rightarrow> conf \<Rightarrow> conf" where
  "create_bool float_ok name def = create float_ok name Kind_bool (format_bool def)"

definition conf_set :: "(string \<Rightarrow> bool) \<Rightarrow> string \<Rightarrow> string \<Rightarrow> conf \<Rightarrow> conf_error + string \<times> conf" where
  "conf_set float_ok name raw c =
     (case map_of (settings c) name of
        None \<Rightarrow> Inl (No_such_setting name)
      | Some s \<Rightarrow>
          if \<not> parse_ok float_ok (s_kind s) raw then Inl (Not_valid raw (s_kind s) name)
          else Inr (name, c\<lparr>settings := AList.update name (s\<lparr>s_raw := raw\<rparr>) (settings c),
                             stored := AList.update name raw (stored c)\<rparr>))"

definition read :: "(string \<Rightarrow> bool) \<Rightarrow> conf \<Rightarrow> string \<Rightarrow> kind \<Rightarrow> string option" where
  "read float_ok c name k =
     (case map_of (settings c) name of
        None \<Rightarrow> None
      | Some s \<Rightarrow>
          if s_kind s \<noteq> k then None
          else (case map_of (overrides c) name of
                  Some ov \<Rightarrow> if parse_ok float_ok k ov then Some ov else Some (s_raw s)
                | None \<Rightarrow> Some (s_raw s)))"

text \<open>The typed reads drop the error of the parse and keep its value, 0 or false on an error.\<close>

definition conf_int :: "(string \<Rightarrow> bool) \<Rightarrow> conf \<Rightarrow> string \<Rightarrow> int option" where
  "conf_int float_ok c name =
     map_option (\<lambda>raw. case atoi raw of Some i \<Rightarrow> i | None \<Rightarrow> 0) (read float_ok c name Kind_int)"

definition conf_float :: "(string \<Rightarrow> bool) \<Rightarrow> conf \<Rightarrow> string \<Rightarrow> string option" where
  "conf_float float_ok c name = read float_ok c name Kind_float"

definition conf_string :: "(string \<Rightarrow> bool) \<Rightarrow> conf \<Rightarrow> string \<Rightarrow> string option" where
  "conf_string float_ok c name = read float_ok c name Kind_string"

definition conf_bool :: "(string \<Rightarrow> bool) \<Rightarrow> conf \<Rightarrow> string \<Rightarrow> bool option" where
  "conf_bool float_ok c name =
     map_option (\<lambda>raw. case parse_bool raw of Some b \<Rightarrow> b | None \<Rightarrow> False) (read float_ok c name Kind_bool)"

definition conf_dump :: "conf \<Rightarrow> (string \<times> string) list" where
  "conf_dump c = map (\<lambda>(name, s). (name, s_raw s)) (settings c)"

definition conf_list :: "conf \<Rightarrow> string list" where
  "conf_list c = sort (map fst (settings c))"

section \<open>Settings of a client\<close>

definition has_kind :: "conf \<Rightarrow> string \<Rightarrow> kind \<Rightarrow> bool" where
  "has_kind c name k = (case map_of (settings c) name of Some s \<Rightarrow> s_kind s = k | None \<Rightarrow> False)"

lemma setting_int: "has_kind c n Kind_int \<Longrightarrow> \<exists>i. conf_int fo c n = Some i"
  by (auto simp: has_kind_def conf_int_def read_def split: option.splits)

lemma setting_string: "has_kind c n Kind_string \<Longrightarrow> \<exists>i. conf_string fo c n = Some i"
  by (auto simp: has_kind_def conf_string_def read_def split: option.splits)

lemma setting_bool: "has_kind c n Kind_bool \<Longrightarrow> \<exists>i. conf_bool fo c n = Some i"
  by (auto simp: has_kind_def conf_bool_def read_def split: option.splits)

section \<open>Properties\<close>

text \<open>Every setting holds a value of its type.\<close>

definition setting_ok :: "(string \<Rightarrow> bool) \<Rightarrow> string \<times> setting \<Rightarrow> bool" where
  "setting_ok float_ok e = parse_ok float_ok (s_kind (snd e)) (s_raw (snd e))"

definition conf_inv :: "(string \<Rightarrow> bool) \<Rightarrow> conf \<Rightarrow> bool" where
  "conf_inv float_ok c \<longleftrightarrow> wf_map (settings c) \<and> wf_map (stored c) \<and> wf_map (overrides c) \<and> (\<forall>e \<in> set (settings c). setting_ok float_ok e)"

lemma create_inv:
  assumes "conf_inv fo c" and "parse_ok fo k def"
  shows "conf_inv fo (create fo name k def c)"
proof -
  let ?raw = "case map_of (stored c) name of Some v \<Rightarrow> if parse_ok fo k v then v else def | None \<Rightarrow> def"
  have "setting_ok fo (name, \<lparr>s_kind = k, s_raw = ?raw\<rparr>)"
    using assms(2) by (simp add: setting_ok_def split: option.split)
  with update_all [of "settings c" "setting_ok fo" name "\<lparr>s_kind = k, s_raw = ?raw\<rparr>"] assms(1)
  show ?thesis by (simp add: create_def conf_inv_def del: option.case)
qed

datatype conf_op =
    Load "(string \<times> string) list" | File "(string \<times> string) list"
  | New_int string int | New_string string string | New_bool string bool | Change string string

fun conf_step :: "(string \<Rightarrow> bool) \<Rightarrow> conf_op \<Rightarrow> conf \<Rightarrow> conf" where
  "conf_step fo (Load vs) c = load_stored vs c"
| "conf_step fo (File vs) c = set_file_overrides vs c"
| "conf_step fo (New_int n d) c = (if int_in_range d then create_int fo n d c else c)"
| "conf_step fo (New_string n d) c = create_string fo n d c"
| "conf_step fo (New_bool n d) c = create_bool fo n d c"
| "conf_step fo (Change n raw) c = (case conf_set fo n raw c of Inl e \<Rightarrow> c | Inr (_, c') \<Rightarrow> c')"

definition conf_run :: "(string \<Rightarrow> bool) \<Rightarrow> conf_op list \<Rightarrow> conf" where
  "conf_run fo ops = fold (conf_step fo) ops conf_new"

lemma conf_set_inv:
  assumes "conf_inv fo c" and "conf_set fo n raw c = Inr (n', c')"
  shows "conf_inv fo c'"
proof -
  obtain s where s: "map_of (settings c) n = Some s" "parse_ok fo (s_kind s) raw"
    "settings c' = AList.update n (s\<lparr>s_raw := raw\<rparr>) (settings c)"
    "stored c' = AList.update n raw (stored c)" "overrides c' = overrides c"
    using assms(2) by (auto simp: conf_set_def split: option.splits if_splits)
  have "setting_ok fo (n, s\<lparr>s_raw := raw\<rparr>)" using s(2) by (simp add: setting_ok_def)
  then show ?thesis using assms(1) s(3-5) update_all [of "settings c" "setting_ok fo" n] by (simp add: conf_inv_def)
qed

lemma conf_step_inv: "conf_inv fo c \<Longrightarrow> conf_inv fo (conf_step fo op c)"
proof (cases op)
  case (New_int n d)
  then show "conf_inv fo c \<Longrightarrow> ?thesis"
    by (simp add: create_int_def create_inv parse_ok_def atoi_int_str)
next
  case (New_bool n d)
  then show "conf_inv fo c \<Longrightarrow> ?thesis"
    by (simp add: create_bool_def create_inv parse_ok_def parse_format_bool)
next
  case (New_string n d)
  then show "conf_inv fo c \<Longrightarrow> ?thesis" by (simp add: create_string_def create_inv parse_ok_def)
next
  case (Change n raw)
  then show "conf_inv fo c \<Longrightarrow> ?thesis" by (auto simp: conf_set_inv split: sum.splits)
qed (simp_all add: conf_inv_def load_stored_def set_file_overrides_def copy_into_def fold_update_wf)

lemma conf_run_inv: "conf_inv fo (conf_run fo ops)"
proof -
  have "conf_inv fo (fold (conf_step fo) ops c)" if "conf_inv fo c" for c
    using that by (induction ops arbitrary: c) (simp_all add: conf_step_inv)
  from this [of conf_new] show ?thesis by (simp add: conf_run_def) (simp add: conf_inv_def conf_new_def)
qed

text \<open>
  C26. A typed read never falls back on the zero of a failed parse. After any run of loads, overrides,
  creations and changes, reading an int or bool setting gives the value its effective string stands
  for: the file override when there is one that parses, else the value set or stored, else the default.
\<close>

theorem conf_typed_read:
  "case map_of (settings (conf_run fo ops)) name of
     None \<Rightarrow> conf_int fo (conf_run fo ops) name = None \<and> conf_bool fo (conf_run fo ops) name = None
   | Some s \<Rightarrow>
       (let eff = (case map_of (overrides (conf_run fo ops)) name of
              Some ov \<Rightarrow> if parse_ok fo (s_kind s) ov then ov else s_raw s | None \<Rightarrow> s_raw s)
        in (case s_kind s of
              Kind_int \<Rightarrow> atoi eff \<noteq> None \<and> conf_int fo (conf_run fo ops) name = atoi eff
            | Kind_bool \<Rightarrow> parse_bool eff \<noteq> None \<and> conf_bool fo (conf_run fo ops) name = parse_bool eff
            | Kind_float \<Rightarrow> fo eff \<and> conf_float fo (conf_run fo ops) name = Some eff
            | Kind_string \<Rightarrow> conf_string fo (conf_run fo ops) name = Some eff))"
proof -
  note inv = conf_run_inv [of fo ops]
  show ?thesis
  proof (cases "map_of (settings (conf_run fo ops)) name")
    case (Some s)
    then have "parse_ok fo (s_kind s) (s_raw s)"
      using inv map_of_SomeD [OF Some] by (force simp: conf_inv_def setting_ok_def)
    then show ?thesis
      using Some
      by (cases "s_kind s")
        (auto simp: read_def conf_int_def conf_bool_def conf_float_def conf_string_def parse_ok_def split: option.splits)
  qed (simp add: conf_int_def conf_bool_def read_def)
qed

text \<open>
  A change survives a restart. A value that \<open>Set\<close> accepts is reported once and read back; the next
  run, which loads \<open>Stored\<close> and creates the setting with any default, reads the same value; every other
  setting is as it was. A value it refuses changes nothing.
\<close>

theorem conf_set_restart:
  "let c = conf_run fo ops
   in case conf_set fo name raw c of
     Inl e \<Rightarrow> (case map_of (settings c) name of None \<Rightarrow> e = No_such_setting name
        | Some s \<Rightarrow> e = Not_valid raw (s_kind s) name \<and> \<not> parse_ok fo (s_kind s) raw)
   | Inr (told, c') \<Rightarrow>
       told = name \<and> overrides c' = overrides c \<and>
       (\<forall>n k. n = name \<or> read fo c' n k = read fo c n k \<and> map_of (stored c') n = map_of (stored c) n) \<and>
       (case map_of (settings c) name of None \<Rightarrow> False
        | Some s \<Rightarrow> map_of (conf_dump c') name = Some raw \<and>
            read fo (create fo name (s_kind s) def (load_stored (stored c') conf_new)) name (s_kind s) = Some raw)"
proof (cases "map_of (settings (conf_run fo ops)) name")
  case (Some s)
  let ?c = "conf_run fo ops"
  show ?thesis
  proof (cases "parse_ok fo (s_kind s) raw")
    case True
    have "wf_map (AList.update name raw (stored ?c))" using conf_run_inv [of fo ops] by (simp add: conf_inv_def)
    from fold_update_map [OF this, of "[]" name]
    have l: "map_of (stored (load_stored (AList.update name raw (stored ?c)) conf_new)) name = Some raw"
      by (simp add: load_stored_def copy_into_def conf_new_def)
    have n: "map_of (settings (load_stored vs conf_new)) name = None"
      "map_of (overrides (load_stored vs conf_new)) name = None" for vs
      by (simp_all add: load_stored_def conf_new_def)
    define c' where "c' = ?c\<lparr>settings := AList.update name (s\<lparr>s_raw := raw\<rparr>) (settings ?c),
      stored := AList.update name raw (stored ?c)\<rparr>"
    then have c': "conf_set fo name raw ?c = Inr (name, c')"
      "settings c' = AList.update name (s\<lparr>s_raw := raw\<rparr>) (settings ?c)"
      "stored c' = AList.update name raw (stored ?c)" "overrides c' = overrides ?c"
      using Some True by (simp_all add: conf_set_def)
    have "map_of (conf_dump c') name = Some raw"
      unfolding conf_dump_def map_of_map_snd [of "\<lambda>k. s_raw"] using c'(2) by simp
    moreover have "n = name \<or> read fo c' n k = read fo ?c n k \<and> map_of (stored c') n = map_of (stored ?c) n" for n k
      unfolding read_def c'(2-4) by simp
    moreover have "read fo (create fo name (s_kind s) def (load_stored (stored c') conf_new)) name (s_kind s) = Some raw"
      using l n True c'(3) by (simp add: read_def create_def)
    ultimately show ?thesis
      using Some c'(1,4) by simp blast
  qed (simp add: conf_set_def Some)
qed (simp add: conf_set_def)

end
