(* ===== verification/Session.thy ===== *)
theory Session
  imports Irc_Parse Bus
begin

text \<open>
  internal/irc/session.go: the protocol state machine of one network and the reconnect ladder. What the
  machine does to the outside is a list of actions, in order: lines queued, events emitted, the welcome
  callback. An event is emitted in the last step of its handler (but for the QUIT after an ERROR), so
  what its hooks call on the session comes after the state change here too. A nil map of the source is
  the empty one. Logging is left out.
\<close>

section \<open>State\<close>

record channel_state =
  joined :: "int option"  \<comment> \<open>None: the zero time of a channel known only by its topic\<close>
  ch_topic :: string
  members :: "(string \<times> string) list"  \<comment> \<open>lower-case nick, display nick\<close>
  pending_names :: "(string \<times> string) list"

record session =
  user_name :: string
  real_name :: string
  network :: string
  s_nick :: string
  welcomed :: bool
  channels :: "(string \<times> channel_state) list"
  s_mode :: string
  motd :: string
  last_nick :: string
  last_user :: string
  last_host :: string

datatype action = Send string | Send_high string | Emit event | Welcome

definition new_session :: "string \<Rightarrow> string \<Rightarrow> session" where
  "new_session net nk =
     \<lparr>user_name = ''Botje'', real_name = ''BenV'' @ [CHR 0x27] @ ''s Test Bot'', network = net, s_nick = nk,
      welcomed = False, channels = [], s_mode = [], motd = [], last_nick = [], last_user = [], last_host = []\<rparr>"

definition channel_new :: "int option \<Rightarrow> string \<Rightarrow> channel_state" where
  "channel_new t tp = \<lparr>joined = t, ch_topic = tp, members = [], pending_names = []\<rparr>"

definition register_lines :: "session \<Rightarrow> action list" where
  "register_lines s =
     [Send (''NICK '' @ s_nick s), Send (''USER '' @ user_name s @ '' i * :'' @ real_name s)]"

fun join_channels :: "int \<Rightarrow> string list \<Rightarrow> session \<Rightarrow> action list \<times> session" where
  "join_channels now [] s = ([], s)"
| "join_channels now (ch # chs) s =
     (let s1 = (if map_of (channels s) ch = None
                then s\<lparr>channels := AList.update ch (channel_new (Some now) []) (channels s)\<rparr> else s);
          (acts, s2) = join_channels now chs s1
      in (Send (''JOIN '' @ ch) # Send (''NAMES '' @ ch) # acts, s2))"

definition add_member :: "string \<Rightarrow> channel_state \<Rightarrow> channel_state" where
  "add_member n st = st\<lparr>members := AList.update (to_lower n) n (members st)\<rparr>"

definition drop_member :: "string \<Rightarrow> channel_state \<Rightarrow> channel_state" where
  "drop_member n st = st\<lparr>members := AList.delete (to_lower n) (members st)\<rparr>"

definition in_channel_do :: "string \<Rightarrow> (channel_state \<Rightarrow> channel_state) \<Rightarrow> session \<Rightarrow> session" where
  "in_channel_do ch f s =
     (case map_of (channels s) ch of None \<Rightarrow> s | Some st \<Rightarrow> s\<lparr>channels := AList.update ch (f st) (channels s)\<rparr>)"

definition all_channels_do :: "(channel_state \<Rightarrow> channel_state) \<Rightarrow> session \<Rightarrow> session" where
  "all_channels_do f s = s\<lparr>channels := map (\<lambda>(ch, st). (ch, f st)) (channels s)\<rparr>"

section \<open>Handlers\<close>

definition on_error :: "event \<Rightarrow> string \<Rightarrow> session \<Rightarrow> action list \<times> session" where
  "on_error ev ps s =
     ([Emit (ev\<lparr>ev_name := ''IRC_ERROR'', msg := join '', '' (split_params ps)\<rparr>),
       Send (''QUIT :I can'' @ [CHR 0x27] @ ''t deal with ERRORs, Bye bye!'')], s)"

definition on_ping :: "string \<Rightarrow> session \<Rightarrow> action list \<times> session" where
  "on_ping ps s =
     (case split_params ps of
        m # _ \<Rightarrow>
          if m = [] then ([Send_high ''PONG''], s)
          else ([Send_high (''PONG '' @
                   (if \<exists>c \<in> set m. c \<in> {CHR '' '', CHR 0x09, CHR '':''} then CHR '':'' # m else m))], s)
      | [] \<Rightarrow> ([Send_high ''PONG''], s))"

definition on_privmsg :: "event \<Rightarrow> string \<Rightarrow> session \<Rightarrow> action list \<times> session" where
  "on_privmsg ev ps s =
     (case split_params ps of
        t # m # rest \<Rightarrow>
          if t = s_nick s then
            ([Emit (ev\<lparr>ev_name := ''IRC_PRIVMSG'', target_me := True, query := True,
                channel := nick (ev_sender ev), msg := m, args := rest\<rparr>)], s)
          else ([Emit (ev\<lparr>ev_name := ''IRC_PRIVMSG'', channel := t, msg := m, args := rest\<rparr>)], s)
      | _ \<Rightarrow> ([], s))"

definition on_notice :: "event \<Rightarrow> string \<Rightarrow> session \<Rightarrow> action list \<times> session" where
  "on_notice ev ps s =
     (case split_params ps of
        t # m # rest \<Rightarrow>
          ([Emit (ev\<lparr>ev_name := ''IRC_NOTICE'', channel := t, target_me := (t = s_nick s), msg := m\<rparr>)], s)
      | _ \<Rightarrow> ([], s))"

definition on_mode :: "event \<Rightarrow> string \<Rightarrow> session \<Rightarrow> action list \<times> session" where
  "on_mode ev ps s =
     (case split_params ps of
        t # m # rest \<Rightarrow>
          ([Emit (ev\<lparr>ev_name := ''IRC_MODE'', channel := t, target_me := (t = s_nick s), mode := m, args := rest\<rparr>)],
           if t = s_nick s then s\<lparr>s_mode := m\<rparr> else s)
      | _ \<Rightarrow> ([], s))"

definition on_join :: "int \<Rightarrow> event \<Rightarrow> string \<Rightarrow> session \<Rightarrow> action list \<times> session" where
  "on_join now ev ps s =
     (case split_params ps of
        [] \<Rightarrow> ([], s)
      | ch # _ \<Rightarrow>
          if sender_me ev then
            ([Emit (ev\<lparr>ev_name := ''IRC_JOIN'', target_me := True, channel := ch\<rparr>)],
             s\<lparr>channels := AList.update ch (channel_new (Some now) []) (channels s)\<rparr>)
          else ([Emit (ev\<lparr>ev_name := ''IRC_JOIN'', channel := ch\<rparr>)],
                in_channel_do ch (add_member (nick (ev_sender ev))) s))"

definition on_part :: "event \<Rightarrow> string \<Rightarrow> session \<Rightarrow> action list \<times> session" where
  "on_part ev ps s =
     (case split_params ps of
        [] \<Rightarrow> ([], s)
      | ch # _ \<Rightarrow>
          ([Emit (ev\<lparr>ev_name := ''IRC_PART'', channel := ch\<rparr>)],
           if sender_me ev then s\<lparr>channels := AList.delete ch (channels s)\<rparr>
           else in_channel_do ch (drop_member (nick (ev_sender ev))) s))"

definition on_kick :: "event \<Rightarrow> string \<Rightarrow> session \<Rightarrow> action list \<times> session" where
  "on_kick ev ps s =
     (case split_params ps of
        ch # t # rest \<Rightarrow>
          ([Emit (ev\<lparr>ev_name := ''IRC_KICK'', target_me := (t = s_nick s), channel := ch, target := t,
              reason := (case rest of [] \<Rightarrow> [] | r # _ \<Rightarrow> r)\<rparr>)],
           if t = s_nick s then s else in_channel_do ch (drop_member t) s)
      | _ \<Rightarrow> ([], s))"

definition on_invite :: "event \<Rightarrow> string \<Rightarrow> session \<Rightarrow> action list \<times> session" where
  "on_invite ev ps s =
     (case split_params ps of
        _ # ch # _ \<Rightarrow> ([Emit (ev\<lparr>ev_name := ''IRC_INVITE'', channel := ch, target_me := True\<rparr>)], s)
      | _ \<Rightarrow> ([], s))"

text \<open>The expression \<open>^\S+\s+.+\<close>: some word, blanks, and then a character that is not a newline.\<close>

definition netsplit_match :: "string \<Rightarrow> bool" where
  "netsplit_match m =
     (let w = takeWhile (\<lambda>c. \<not> is_ws c) m; r = dropWhile (\<lambda>c. \<not> is_ws c) m
      in w \<noteq> [] \<and> r \<noteq> [] \<and> (\<exists>k \<in> set [1..<Suc (length (takeWhile is_ws r))]. k < length r \<and> r ! k \<noteq> CHR 0x0A))"

definition quit_text :: "string \<Rightarrow> string \<times> bool" where
  "quit_text m =
     (let l = to_lower m
      in if has_prefix ''quit:'' l then (trim_left {CHR '' '', CHR 0x09} (drop 5 m), False)
         else if has_prefix ''ping timeout'' l then (take 12 m, False)
         else if has_prefix ''eof'' l then (m, False)
         else (m, netsplit_match m))"

definition on_quit :: "event \<Rightarrow> string \<Rightarrow> session \<Rightarrow> action list \<times> session" where
  "on_quit ev ps s =
     (let (text, split) = quit_text (trim_prefix '':'' ps)
      in ([Emit (ev\<lparr>ev_name := ''IRC_QUIT'', msg := text, net_split := split\<rparr>)],
          all_channels_do (drop_member (nick (ev_sender ev))) s))"

definition rename_member :: "string \<Rightarrow> string \<Rightarrow> channel_state \<Rightarrow> channel_state" where
  "rename_member old new st =
     (if map_of (members st) (to_lower old) = None then st else add_member new (drop_member old st))"

definition on_nick :: "event \<Rightarrow> string \<Rightarrow> session \<Rightarrow> action list \<times> session" where
  "on_nick ev ps s =
     (case split_params ps of
        [] \<Rightarrow> ([], s)
      | n # _ \<Rightarrow>
          if n = [] then ([], s)
          else ([], all_channels_do (rename_member (nick (ev_sender ev)) n)
                      (if sender_me ev then s\<lparr>s_nick := n\<rparr> else s)))"

definition set_topic :: "string \<Rightarrow> string \<Rightarrow> session \<Rightarrow> session" where
  "set_topic ch t s =
     (case map_of (channels s) ch of
        Some st \<Rightarrow> s\<lparr>channels := AList.update ch (st\<lparr>ch_topic := t\<rparr>) (channels s)\<rparr>
      | None \<Rightarrow> s\<lparr>channels := AList.update ch (channel_new None t) (channels s)\<rparr>)"

definition on_topic :: "event \<Rightarrow> string \<Rightarrow> session \<Rightarrow> action list \<times> session" where
  "on_topic ev ps s =
     (case split_params ps of
        ch # t # _ \<Rightarrow> ([Emit (ev\<lparr>ev_name := ''IRC_TOPIC'', channel := ch, topic := t\<rparr>)], set_topic ch t s)
      | _ \<Rightarrow> ([], s))"

definition on_rpl_topic :: "string \<Rightarrow> session \<Rightarrow> action list \<times> session" where
  "on_rpl_topic ps s =
     (case split_params ps of _ # ch # t # _ \<Rightarrow> ([], set_topic ch t s) | _ \<Rightarrow> ([], s))"

definition status_chars :: "char set" where
  "status_chars = {CHR ''~'', CHR ''&'', CHR ''@'', CHR ''%'', CHR ''+''}"

definition note_names :: "string \<Rightarrow> channel_state \<Rightarrow> channel_state" where
  "note_names names st =
     st\<lparr>pending_names :=
        fold (\<lambda>w ms. (let n = trim_left status_chars w in if n = [] then ms else AList.update (to_lower n) n ms))
          (go_fields names) (pending_names st)\<rparr>"

definition on_nam_reply :: "string \<Rightarrow> session \<Rightarrow> action list \<times> session" where
  "on_nam_reply ps s =
     (let p = split_params ps
      in if length p < 3 then ([], s) else ([], in_channel_do (p ! (length p - 2)) (note_names (last p)) s))"

definition swap_names :: "channel_state \<Rightarrow> channel_state" where
  "swap_names st = st\<lparr>members := pending_names st, pending_names := []\<rparr>"

definition on_end_of_names :: "string \<Rightarrow> session \<Rightarrow> action list \<times> session" where
  "on_end_of_names ps s =
     (case split_params ps of _ # ch # _ \<Rightarrow> ([], in_channel_do ch swap_names s) | _ \<Rightarrow> ([], s))"

definition on_welcome :: "session \<Rightarrow> action list \<times> session" where
  "on_welcome s = (if welcomed s then ([], s) else ([Welcome], s\<lparr>welcomed := True\<rparr>))"

definition on_motd :: "string \<Rightarrow> session \<Rightarrow> action list \<times> session" where
  "on_motd ps s =
     (let p = split_params ps in if p = [] then ([], s) else ([], s\<lparr>motd := motd s @ last p @ [CHR 0x0A]\<rparr>))"

definition dispatch_line :: "int \<Rightarrow> event \<Rightarrow> irc_line \<Rightarrow> session \<Rightarrow> action list \<times> session" where
  "dispatch_line now ev line s =
     (let n = l_name line; ps = l_params line
      in if n = ''ERROR'' then on_error ev ps s
         else if n = ''PING'' then on_ping ps s
         else if n = ''PRIVMSG'' then on_privmsg ev ps s
         else if n = ''NOTICE'' then on_notice ev ps s
         else if n = ''MODE'' then on_mode ev ps s
         else if n = ''JOIN'' then on_join now ev ps s
         else if n = ''PART'' then on_part ev ps s
         else if n = ''KICK'' then on_kick ev ps s
         else if n = ''INVITE'' then on_invite ev ps s
         else if n = ''QUIT'' then on_quit ev ps s
         else if n = ''NICK'' then on_nick ev ps s
         else if n = ''TOPIC'' then on_topic ev ps s
         else if n = ''RPL_TOPIC'' then on_rpl_topic ps s
         else if n = ''RPL_NAMREPLY'' then on_nam_reply ps s
         else if n = ''RPL_ENDOFNAMES'' then on_end_of_names ps s
         else if n = ''ERR_NICKNAMEINUSE'' then
           ([Send (''NICK '' @ s_nick s @ ''_'')], s\<lparr>s_nick := s_nick s @ ''_''\<rparr>)
         else if n = ''RPL_WELCOME'' \<or> n = ''ERR_ALREADYREGISTRED'' then on_welcome s
         else if n = ''RPL_MOTDSTART'' then ([], s\<lparr>motd := []\<rparr>)
         else if n = ''RPL_MOTD'' then on_motd ps s
         else ([], s))"

text \<open>Who sent the line: its prefix, or without one the last sender; parts left out keep the last ones.\<close>

definition sender_of :: "irc_line \<Rightarrow> session \<Rightarrow> (string \<times> string \<times> string) \<times> session" where
  "sender_of line s =
     (if l_prefix line = [] then ((last_nick s, last_user s, last_host s), s)
      else (let (n, u, h) = parse_prefix (l_prefix line)
            in ((n, u, h), s\<lparr>last_nick := n, last_user := (if u \<noteq> [] then u else last_user s),
                              last_host := (if h \<noteq> [] then h else last_host s)\<rparr>)))"

definition line_event :: "irc_line \<Rightarrow> string \<times> string \<times> string \<Rightarrow> session \<Rightarrow> event" where
  "line_event line from s =
     (case from of (n, u, h) \<Rightarrow>
        no_event\<lparr>bot_nick := s_nick s, server := network s, sender_me := (n = s_nick s),
          ev_sender := \<lparr>nick = n, user = u, host = h, user_id = []\<rparr>,
          raw := \<lparr>raw_prefix = l_prefix line, raw_name = l_name line, raw_params = l_params line\<rparr>\<rparr>)"

definition handle_line :: "int \<Rightarrow> string \<Rightarrow> session \<Rightarrow> action list \<times> session" where
  "handle_line now input s =
     (case parse_line input of
        None \<Rightarrow> ([], s)
      | Some line \<Rightarrow>
          (let (sender, s1) = sender_of line s in dispatch_line now (line_event line sender s) line s1))"

section \<open>Queries\<close>

definition members_of :: "string \<Rightarrow> session \<Rightarrow> string list" where
  "members_of ch s =
     (case map_of (channels s) ch of None \<Rightarrow> [] | Some st \<Rightarrow> sort (map snd (members st)))"

definition nick_in :: "string \<Rightarrow> string \<Rightarrow> session \<Rightarrow> bool" where
  "nick_in ch n s =
     (case map_of (channels s) ch of None \<Rightarrow> False | Some st \<Rightarrow> map_of (members st) (to_lower n) \<noteq> None)"

definition in_channel :: "string \<Rightarrow> session \<Rightarrow> bool" where
  "in_channel ch s = (map_of (channels s) ch \<noteq> None)"

definition session_channels :: "session \<Rightarrow> string list" where
  "session_channels s = sort (map fst (channels s))"

definition topic_of :: "string \<Rightarrow> session \<Rightarrow> string" where
  "topic_of ch s = (case map_of (channels s) ch of None \<Rightarrow> [] | Some st \<Rightarrow> ch_topic st)"

section \<open>The reconnect ladder\<close>

record backoff =
  bo_delay :: int
  bo_when :: "int option"  \<comment> \<open>None: the zero time\<close>

definition backoff_new :: backoff where
  "backoff_new = \<lparr>bo_delay = 0, bo_when = None\<rparr>"

definition seconds :: "int \<Rightarrow> int" where
  "seconds n = n * 1000000000"

definition ladder :: "int list" where
  "ladder = map seconds [3, 60, 180, 300]"

definition backoff_next :: "int \<Rightarrow> backoff \<Rightarrow> int \<times> backoff" where
  "backoff_next now b =
     (let d0 = (case bo_when b of
            Some w \<Rightarrow> if w + seconds 300 < now then 0 else bo_delay b
          | None \<Rightarrow> bo_delay b)
      in case find (\<lambda>d. d > d0) ladder of
           Some d \<Rightarrow> (d, \<lparr>bo_delay = d, bo_when = Some (now + d)\<rparr>)
         | None \<Rightarrow> (seconds 300, \<lparr>bo_delay = d0, bo_when = Some (now + seconds 300)\<rparr>))"

section \<open>Members\<close>

definition names_ok :: "(string \<times> string) list \<Rightarrow> bool" where
  "names_ok m \<longleftrightarrow> wf_map m \<and> (\<forall>e \<in> set m. fst e = to_lower (snd e))"

definition channel_ok :: "string \<times> channel_state \<Rightarrow> bool" where
  "channel_ok e \<longleftrightarrow> names_ok (members (snd e)) \<and> names_ok (pending_names (snd e))"

definition session_inv :: "session \<Rightarrow> bool" where
  "session_inv s \<longleftrightarrow> wf_map (channels s) \<and> (\<forall>e \<in> set (channels s). channel_ok e)"

lemma names_ok_simps [simp]:
  "names_ok []" "names_ok m \<Longrightarrow> names_ok (AList.update (to_lower n) n m)" "names_ok m \<Longrightarrow> names_ok (AList.delete k m)"
  using update_all [of m "\<lambda>e. fst e = to_lower (snd e)" "to_lower n" n] by (auto simp: names_ok_def set_delete)

lemma channel_ok_new [simp]: "channel_ok (ch, channel_new t tp)"
  by (simp add: channel_ok_def channel_new_def)

lemma channel_ok_member:
  "channel_ok (ch, st) \<Longrightarrow> channel_ok (ch, add_member n st)"
  "channel_ok (ch, st) \<Longrightarrow> channel_ok (ch, drop_member n st)"
  "channel_ok (ch, st) \<Longrightarrow> channel_ok (ch, rename_member n n' st)"
  "channel_ok (ch, st) \<Longrightarrow> channel_ok (ch, swap_names st)"
  by (simp_all add: channel_ok_def add_member_def drop_member_def rename_member_def swap_names_def)

lemma channel_ok_names: "channel_ok (ch, st) \<Longrightarrow> channel_ok (ch, note_names names st)"
proof -
  have "names_ok ms \<Longrightarrow> names_ok (fold (\<lambda>w ms. (let n = trim_left status_chars w in
      if n = [] then ms else AList.update (to_lower n) n ms)) ws ms)" for ws ms
    by (induction ws arbitrary: ms) auto
  then show "channel_ok (ch, st) \<Longrightarrow> ?thesis" by (simp add: channel_ok_def note_names_def)
qed

lemma session_update_ok:
  "session_inv s \<Longrightarrow> channel_ok (ch, st) \<Longrightarrow> session_inv (s\<lparr>channels := AList.update ch st (channels s)\<rparr>)"
  using update_all [of "channels s" channel_ok ch st] by (simp add: session_inv_def)

lemma session_channel: "session_inv s \<Longrightarrow> map_of (channels s) ch = Some st \<Longrightarrow> channel_ok (ch, st)"
  by (auto simp: session_inv_def dest: map_of_SomeD)

lemma in_channel_do_inv:
  "session_inv s \<Longrightarrow> (\<And>st. channel_ok (ch, st) \<Longrightarrow> channel_ok (ch, f st)) \<Longrightarrow> session_inv (in_channel_do ch f s)"
  by (auto simp: in_channel_do_def session_update_ok session_channel split: option.split)

lemma all_channels_do_inv:
  assumes "session_inv s" and "\<And>ch st. channel_ok (ch, st) \<Longrightarrow> channel_ok (ch, f st)"
  shows "session_inv (all_channels_do f s)"
proof -
  have "wf_map (map (\<lambda>(ch, st). (ch, f st)) (channels s))"
    using assms(1) by (simp add: session_inv_def comp_def case_prod_beta')
  then show ?thesis using assms by (auto simp: session_inv_def all_channels_do_def)
qed

lemma set_topic_inv: "session_inv s \<Longrightarrow> session_inv (set_topic ch t s)"
proof -
  have "channel_ok (ch, st) \<Longrightarrow> channel_ok (ch, st\<lparr>ch_topic := t\<rparr>)" for st by (simp add: channel_ok_def)
  then show "session_inv s \<Longrightarrow> ?thesis"
    by (auto simp: set_topic_def session_update_ok session_channel split: option.split)
qed

lemma delete_channel_inv: "session_inv s \<Longrightarrow> session_inv (s\<lparr>channels := AList.delete ch (channels s)\<rparr>)"
  by (auto simp: session_inv_def set_delete)

lemma session_inv_fields [simp]:
  "session_inv (s\<lparr>s_nick := n\<rparr>) = session_inv s" "session_inv (s\<lparr>s_mode := n\<rparr>) = session_inv s"
  "session_inv (s\<lparr>welcomed := b\<rparr>) = session_inv s" "session_inv (s\<lparr>motd := n\<rparr>) = session_inv s"
  "session_inv (s\<lparr>last_nick := n, last_user := u, last_host := h\<rparr>) = session_inv s"
  by (simp_all add: session_inv_def)

lemmas session_handlers = on_error_def on_ping_def on_privmsg_def on_notice_def on_mode_def on_join_def on_part_def
  on_kick_def on_invite_def on_quit_def on_nick_def on_topic_def on_rpl_topic_def on_nam_reply_def
  on_end_of_names_def on_welcome_def on_motd_def

lemmas session_kept = in_channel_do_inv all_channels_do_inv set_topic_inv delete_channel_inv session_update_ok
  channel_ok_member channel_ok_names

lemma dispatch_inv: "session_inv s \<Longrightarrow> session_inv (snd (dispatch_line now ev line s))"
  unfolding dispatch_line_def session_handlers
  by (auto simp: session_kept split: list.split prod.split)

lemma handle_line_inv: "session_inv s \<Longrightarrow> session_inv (snd (handle_line now input s))"
  by (auto simp: handle_line_def sender_of_def dispatch_inv split: option.split prod.split)

lemma join_channels_inv: "session_inv s \<Longrightarrow> session_inv (snd (join_channels now chs s))"
  by (induction now chs s rule: join_channels.induct) (auto simp: session_update_ok split: prod.split)

datatype session_op = Line int string | Join_all int "string list"

fun session_run :: "session_op list \<Rightarrow> session \<Rightarrow> action list \<times> session" where
  "session_run [] s = ([], s)"
| "session_run (op # ops) s =
     (let (a, s1) = (case op of Line now l \<Rightarrow> handle_line now l s | Join_all now chs \<Rightarrow> join_channels now chs s);
          (as, s2) = session_run ops s1
      in (a @ as, s2))"

lemma session_run_inv: "session_inv s \<Longrightarrow> session_inv (snd (session_run ops s))"
proof (induction ops arbitrary: s)
  case (Cons op ops)
  then show ?case
    using handle_line_inv join_channels_inv by (cases op) (simp_all add: case_prod_beta')
qed simp

lemma new_session_inv [simp]: "session_inv (new_session net nk)"
  by (simp add: session_inv_def new_session_def)

lemma distinct_map_sort: "distinct (map f xs) \<Longrightarrow> distinct (map f (sort xs))"
  by (simp add: distinct_map)

text \<open>
  C4. The two views of a channel agree. After any lines and joins, a nick is tracked in a channel, in
  whatever case it is asked for, exactly when the member list shows a nick that folds to the same; the
  list is sorted, and no two of its nicks fold to the same.
\<close>

theorem members_consistent:
  "let s = snd (session_run ops (new_session net nk)) in
   (nick_in ch n s \<longleftrightarrow> to_lower n \<in> to_lower ` set (members_of ch s)) \<and>
   sorted (members_of ch s) \<and> distinct (map to_lower (members_of ch s)) \<and>
   distinct (session_channels s) \<and> (in_channel ch s \<longleftrightarrow> ch \<in> set (session_channels s))"
proof -
  let ?s = "snd (session_run ops (new_session net nk))"
  have inv: "session_inv ?s" by (simp add: session_run_inv)
  have chans: "distinct (session_channels ?s)" "in_channel ch ?s \<longleftrightarrow> ch \<in> set (session_channels ?s)"
    using inv by (auto simp: session_channels_def session_inv_def in_channel_def map_of_eq_None_iff)
  show ?thesis
  proof (cases "map_of (channels ?s) ch")
    case None
    then show ?thesis using chans by (simp add: nick_in_def members_of_def)
  next
    case (Some st)
    have ok: "names_ok (members st)" using session_channel [OF inv Some] by (simp add: channel_ok_def)
    then have k: "map fst (members st) = map (to_lower \<circ> snd) (members st)" by (auto simp: names_ok_def)
    then have "map_of (members st) (to_lower n) \<noteq> None \<longleftrightarrow> to_lower n \<in> to_lower ` snd ` set (members st)"
      by (metis image_comp list.set_map map_of_None_iff)
    moreover have "distinct (map to_lower (map snd (members st)))" using ok k by (simp add: names_ok_def)
    then have "distinct (map to_lower (sort (map snd (members st))))" by (rule distinct_map_sort)
    ultimately show ?thesis using Some chans by (simp add: nick_in_def members_of_def)
  qed
qed

section \<open>What the handlers do to the members\<close>

lemma nick_in_do:
  "nick_in ch' n (in_channel_do ch f s) =
     (if ch' = ch \<and> in_channel ch s then
        (case map_of (channels s) ch of Some st \<Rightarrow> map_of (members (f st)) (to_lower n) \<noteq> None | None \<Rightarrow> False)
      else nick_in ch' n s)"
  by (auto simp: nick_in_def in_channel_do_def in_channel_def split: option.split)

lemma nick_in_all:
  "nick_in ch n (all_channels_do f s) =
     (case map_of (channels s) ch of Some st \<Rightarrow> map_of (members (f st)) (to_lower n) \<noteq> None | None \<Rightarrow> False)"
  by (simp add: nick_in_def all_channels_do_def map_of_map_snd [of "\<lambda>k. f"] split: option.split)

lemma members_simps [simp]:
  "members (add_member n st) = AList.update (to_lower n) n (members st)"
  "members (drop_member n st) = AList.delete (to_lower n) (members st)"
  by (simp_all add: add_member_def drop_member_def)

text \<open>
  C25. Joins, parts, kicks, quits and renames of others move exactly that nick, compared without case:
  a join adds it to the channel when the bot sits there, a part or a kick takes it off that channel, a
  quit off all of them, and a rename replaces the old nick by the new one wherever the old one was.
\<close>

theorem membership_changes:
  "let who = to_lower (nick (ev_sender ev)) in
   (case split_params ps of [] \<Rightarrow> True | ch # r \<Rightarrow>
      (sender_me ev \<or>
        nick_in ch' n (snd (on_join now ev ps s)) =
          (nick_in ch' n s \<or> (ch' = ch \<and> in_channel ch s \<and> to_lower n = who)) \<and>
        nick_in ch' n (snd (on_part ev ps s)) = (nick_in ch' n s \<and> \<not> (ch' = ch \<and> to_lower n = who))) \<and>
      (case r of [] \<Rightarrow> True | t # r' \<Rightarrow>
        nick_in ch' n (snd (on_kick ev ps s)) =
          (nick_in ch' n s \<and> \<not> (ch' = ch \<and> t \<noteq> s_nick s \<and> to_lower n = to_lower t))) \<and>
      (ch = [] \<or>
        nick_in ch' n (snd (on_nick ev ps s)) =
          (if nick_in ch' (nick (ev_sender ev)) s then
             to_lower n = to_lower ch \<or> (nick_in ch' n s \<and> to_lower n \<noteq> who)
           else nick_in ch' n s))) \<and>
   nick_in ch' n (snd (on_quit ev ps s)) = (nick_in ch' n s \<and> to_lower n \<noteq> who)"
proof -
  have q: "nick_in ch' n (snd (on_quit ev ps s)) = (nick_in ch' n s \<and> to_lower n \<noteq> to_lower (nick (ev_sender ev)))"
    by (simp add: on_quit_def nick_in_all case_prod_beta') (auto simp: nick_in_def split: option.split)
  show ?thesis
  proof (cases "split_params ps")
    case Nil
    then show ?thesis using q by simp
  next
    case (Cons ch r)
    have j: "sender_me ev \<or> nick_in ch' n (snd (on_join now ev ps s)) =
        (nick_in ch' n s \<or> (ch' = ch \<and> in_channel ch s \<and> to_lower n = to_lower (nick (ev_sender ev))))"
      using Cons by (simp add: on_join_def nick_in_do) (auto simp: nick_in_def in_channel_def split: option.split)
    have p: "sender_me ev \<or> nick_in ch' n (snd (on_part ev ps s)) =
        (nick_in ch' n s \<and> \<not> (ch' = ch \<and> to_lower n = to_lower (nick (ev_sender ev))))"
      using Cons by (simp add: on_part_def nick_in_do) (auto simp: nick_in_def in_channel_def split: option.split)
    have k: "case r of [] \<Rightarrow> True | t # r' \<Rightarrow> nick_in ch' n (snd (on_kick ev ps s)) =
        (nick_in ch' n s \<and> \<not> (ch' = ch \<and> t \<noteq> s_nick s \<and> to_lower n = to_lower t))"
      using Cons by (cases r) (simp_all add: on_kick_def nick_in_do, auto simp: nick_in_def in_channel_def split: option.split)
    have r: "ch = [] \<or> nick_in ch' n (snd (on_nick ev ps s)) =
        (if nick_in ch' (nick (ev_sender ev)) s then
           to_lower n = to_lower ch \<or> (nick_in ch' n s \<and> to_lower n \<noteq> to_lower (nick (ev_sender ev)))
         else nick_in ch' n s)"
      using Cons by (simp add: on_nick_def nick_in_all) (auto simp: rename_member_def nick_in_def split: option.split)
    from j p have jp: "sender_me ev \<or> nick_in ch' n (snd (on_join now ev ps s)) =
        (nick_in ch' n s \<or> (ch' = ch \<and> in_channel ch s \<and> to_lower n = to_lower (nick (ev_sender ev)))) \<and>
      nick_in ch' n (snd (on_part ev ps s)) =
        (nick_in ch' n s \<and> \<not> (ch' = ch \<and> to_lower n = to_lower (nick (ev_sender ev))))" by blast
    show ?thesis unfolding Cons Let_def list.case using q jp k r by blast
  qed
qed

text \<open>The nicks a NAMES burst lists, with their status characters taken off.\<close>

definition listed :: "string list \<Rightarrow> string set" where
  "listed pss = {m. \<exists>ps \<in> set pss. \<exists>w \<in> set (go_fields (last (split_params ps))). m = trim_left status_chars w \<and> m \<noteq> []}"

lemma note_fold:
  "fst ` set (fold (\<lambda>w ms. (let n = trim_left status_chars w in if n = [] then ms else AList.update (to_lower n) n ms)) ws ms) =
   fst ` set ms \<union> to_lower ` {m. \<exists>w \<in> set ws. m = trim_left status_chars w \<and> m \<noteq> []}"
  by (induction ws arbitrary: ms) auto

lemma nam_reply_fold:
  assumes "\<forall>ps \<in> set pss. 3 \<le> length (split_params ps) \<and> split_params ps ! (length (split_params ps) - 2) = ch"
  shows "map_of (channels s) ch = Some st \<Longrightarrow>
    \<exists>st'. map_of (channels (fold (\<lambda>ps s. snd (on_nam_reply ps s)) pss s)) ch = Some st' \<and> members st' = members st \<and>
      fst ` set (pending_names st') = fst ` set (pending_names st) \<union> to_lower ` listed pss \<and>
      (\<forall>ch'. ch' = ch \<or> map_of (channels (fold (\<lambda>ps s. snd (on_nam_reply ps s)) pss s)) ch' = map_of (channels s) ch')"
  using assms
proof (induction pss arbitrary: s st)
  case (Cons ps pss)
  let ?s = "snd (on_nam_reply ps s)" and ?st = "note_names (last (split_params ps)) st"
  have s: "map_of (channels ?s) ch = Some ?st" "\<forall>ch'. ch' = ch \<or> map_of (channels ?s) ch' = map_of (channels s) ch'"
    using Cons.prems by (auto simp: on_nam_reply_def in_channel_do_def)
  have m: "members ?st = members st" by (simp add: note_names_def)
  have p: "fst ` set (pending_names ?st) = fst ` set (pending_names st) \<union>
      to_lower ` {m. \<exists>w \<in> set (go_fields (last (split_params ps))). m = trim_left status_chars w \<and> m \<noteq> []}"
    by (simp add: note_names_def note_fold [simplified])
  have li: "listed (ps # pss) = {m. \<exists>w \<in> set (go_fields (last (split_params ps))). m = trim_left status_chars w \<and> m \<noteq> []} \<union> listed pss"
    by (auto simp: listed_def)
  have pr: "\<forall>ps \<in> set pss. 3 \<le> length (split_params ps) \<and> split_params ps ! (length (split_params ps) - 2) = ch"
    using Cons.prems(2) by simp
  from Cons.IH [OF s(1) pr] obtain st' where IH: "map_of (channels (fold (\<lambda>ps s. snd (on_nam_reply ps s)) pss ?s)) ch = Some st'"
    "members st' = members ?st" "fst ` set (pending_names st') = fst ` set (pending_names ?st) \<union> to_lower ` listed pss"
    "\<forall>ch'. ch' = ch \<or> map_of (channels (fold (\<lambda>ps s. snd (on_nam_reply ps s)) pss ?s)) ch' = map_of (channels ?s) ch'"
    by blast
  have "fst ` set (pending_names st') = fst ` set (pending_names st) \<union> to_lower ` listed (ps # pss)"
    unfolding IH(3) p li image_Un Un_assoc ..
  moreover have "\<forall>ch'. ch' = ch \<or> map_of (channels (fold (\<lambda>ps s. snd (on_nam_reply ps s)) pss ?s)) ch' = map_of (channels s) ch'"
    using IH(4) s(2) by metis
  ultimately show ?case using IH(1,2) m by (intro exI [of _ st']) simp
qed (simp add: listed_def)

text \<open>
  A NAMES burst replaces the member list. After any number of name lines for a channel and the end
  line, exactly the listed nicks are tracked there, whoever was before; no other channel changes.
\<close>

theorem names_burst:
  assumes "map_of (channels s) ch = Some st" and "pending_names st = []"
    and "\<forall>ps \<in> set pss. 3 \<le> length (split_params ps) \<and> split_params ps ! (length (split_params ps) - 2) = ch"
    and "split_params eps = me # ch # r"
  shows "nick_in ch' n (snd (on_end_of_names eps (fold (\<lambda>ps s. snd (on_nam_reply ps s)) pss s))) =
    (if ch' = ch then to_lower n \<in> to_lower ` listed pss else nick_in ch' n s)"
proof -
  let ?s = "fold (\<lambda>ps s. snd (on_nam_reply ps s)) pss s"
  obtain st' where st': "map_of (channels ?s) ch = Some st'" "fst ` set (pending_names st') = to_lower ` listed pss"
    "\<forall>ch'. ch' = ch \<or> map_of (channels ?s) ch' = map_of (channels s) ch'"
    using nam_reply_fold [OF assms(3,1)] assms(2) by auto
  have "map_of (pending_names st') (to_lower n) \<noteq> None \<longleftrightarrow> to_lower n \<in> to_lower ` listed pss"
    unfolding st'(2) [symmetric] by (simp add: map_of_eq_None_iff)
  then show ?thesis
    using assms(4) st'(1,3) by (auto simp: on_end_of_names_def nick_in_def in_channel_do_def swap_names_def)
qed

definition demo_session :: session where
  "demo_session = (new_session ''net'' ''botje'')\<lparr>channels :=
     [(''#a'', (channel_new (Some 0) [])\<lparr>members := [(''old'', ''old'')]\<rparr>)]\<rparr>"

lemma names_burst_witness:
  "nick_in ''#a'' ''BEN'' (snd (on_end_of_names ''botje #a :End'' (fold (\<lambda>ps s. snd (on_nam_reply ps s))
     [''botje = #a :@Ben +bot''] demo_session))) \<and>
   \<not> nick_in ''#a'' ''old'' (snd (on_end_of_names ''botje #a :End'' (fold (\<lambda>ps s. snd (on_nam_reply ps s))
     [''botje = #a :@Ben +bot''] demo_session)))"
proof -
  let ?ps = "''botje = #a :@Ben +bot''" and ?st = "(channel_new (Some 0) [])\<lparr>members := [(''old'', ''old'')]\<rparr>"
  have sp: "split_params ?ps = [''botje'', ''='', ''#a'', ''@Ben +bot'']" "split_params ''botje #a :End'' = [''botje'', ''#a'', ''End'']"
    by code_simp+
  have f: "go_fields ''@Ben +bot'' = [''@Ben'', ''+bot'']"
    by (simp add: go_fields_def segs_ascii fields_func_def seg_space_def seg_rune_def decode_ascii is_space_rune_def)
  have tl: "trim_left status_chars ''@Ben'' = ''Ben''" "trim_left status_chars ''+bot'' = ''bot''"
    by (simp_all add: trim_left_def status_chars_def)
  have li: "listed [?ps] = {''Ben'', ''bot''}" by (auto simp: listed_def sp(1) f tl)
  have lo: "to_lower ''BEN'' = ''ben''" "to_lower ''Ben'' = ''ben''" "to_lower ''old'' = ''old''" "to_lower ''bot'' = ''bot''"
    by code_simp+
  have m: "map_of (channels demo_session) ''#a'' = Some ?st" "pending_names ?st = []"
    by (simp_all add: demo_session_def channel_new_def)
  have "\<forall>ps \<in> set [?ps]. 3 \<le> length (split_params ps) \<and> split_params ps ! (length (split_params ps) - 2) = ''#a''"
    by (simp add: sp)
  note B = names_burst [OF m this sp(2)]
  show ?thesis unfolding B li by (simp add: lo)
qed

section \<open>Registration\<close>

definition welcomes :: "action list \<Rightarrow> nat" where
  "welcomes as = length (filter (\<lambda>a. a = Welcome) as)"

lemma welcomes_append [simp]: "welcomes [] = 0" "welcomes (as @ bs) = welcomes as + welcomes bs"
  "welcomes (a # as) = (if a = Welcome then 1 else 0) + welcomes as"
  by (simp_all add: welcomes_def)

lemma welcomed_do [simp]: "welcomed (in_channel_do ch f s) = welcomed s" "welcomed (all_channels_do f s) = welcomed s"
  "welcomed (set_topic ch t s) = welcomed s"
  by (simp_all add: in_channel_do_def all_channels_do_def set_topic_def split: option.split)

lemma dispatch_welcome:
  "welcomes (fst (dispatch_line now ev line s)) + (if welcomed s then 1 else 0) =
   (if welcomed (snd (dispatch_line now ev line s)) then 1 else 0)"
  unfolding dispatch_line_def session_handlers
  by (auto split: list.split prod.split)

lemma handle_line_welcome:
  "welcomes (fst (handle_line now input s)) + (if welcomed s then 1 else 0) =
   (if welcomed (snd (handle_line now input s)) then 1 else 0)"
proof (cases "parse_line input")
  case (Some line)
  have "welcomed (snd (sender_of line s)) = welcomed s" by (simp add: sender_of_def case_prod_beta')
  then show ?thesis
    using Some dispatch_welcome [of now "line_event line (fst (sender_of line s)) s" line "snd (sender_of line s)"]
    by (simp add: handle_line_def case_prod_beta')
qed (simp add: handle_line_def)

lemma join_channels_welcome:
  "welcomes (fst (join_channels now chs s)) = 0 \<and> welcomed (snd (join_channels now chs s)) = welcomed s"
  by (induction now chs s rule: join_channels.induct) (auto simp: case_prod_beta')

text \<open>
  The welcome callback, in which the owner joins its channels, runs at most once in the life of a
  session, and it has run exactly when the session reports that it is welcomed, however many 001 and
  462 lines the server sends.
\<close>

theorem welcome_once:
  "welcomes (fst (session_run ops (new_session net nk))) =
     (if welcomed (snd (session_run ops (new_session net nk))) then 1 else 0)"
proof -
  have "welcomes (fst (session_run ops s)) + (if welcomed s then 1 else 0) =
      (if welcomed (snd (session_run ops s)) then 1 else 0 :: nat)" for s
  proof (induction ops arbitrary: s)
    case (Cons op ops)
    obtain a s1 where o: "(case op of Line now l \<Rightarrow> handle_line now l s | Join_all now chs \<Rightarrow> join_channels now chs s) = (a, s1)"
      by fastforce
    have "welcomes a + (if welcomed s then 1 else 0) = (if welcomed s1 then 1 else 0 :: nat)"
    proof (cases op)
      case (Line now l)
      then show ?thesis using o handle_line_welcome [of now l s] by simp
    next
      case (Join_all now chs)
      then show ?thesis using o join_channels_welcome [of now chs s] by simp
    qed
    with Cons.IH [of s1] o show ?case by (simp add: case_prod_beta' del: welcomes_append(3))
  qed simp
  from this [of "new_session net nk"] show ?thesis by (simp add: new_session_def)
qed

section \<open>PING\<close>

lemma split_params_single:
  assumes "m \<noteq> []" and "list_all middle_char m"
  shows "split_params m = [m]"
proof -
  have "takeWhile middle_char m = m" "dropWhile middle_char m = []"
    using assms(2) by (simp_all add: takeWhile_eq_all_conv dropWhile_eq_Nil_conv list_all_iff)
  moreover have "dropWhile is_ws m = m" using assms by (cases m) (auto simp: middle_char_def)
  ultimately have "match_middle m = None" by (simp add: match_middle_def)
  moreover have "\<not> has_prefix '':'' m" using assms by (cases m) (auto simp: has_prefix_def middle_char_def)
  ultimately show ?thesis using assms(1) by (subst split_params.simps) (simp add: trim_prefix_def)
qed

text \<open>
  A PING is answered, ahead of the queue, with a PONG that the server reads back as the token it
  sent: whatever the token is (the source quotes one with blanks or colons as a trailing parameter), up
  to control characters no line contains.
\<close>

theorem pong_echoes:
  assumes "split_params ps = m # rest" and "m \<noteq> []"
    and "\<forall>c \<in> set m. c \<notin> {CHR 0x0A, CHR 0x0C, CHR 0x0D}"
  shows "\<exists>pong l. on_ping ps s = ([Send_high pong], s) \<and> parse_line pong = Some l \<and>
    l_cmd l = ''PONG'' \<and> split_params (l_params l) = [m]"
proof -
  have cmd: "cmd_ok ''PONG''" by code_simp
  have nl: "no_newline m" using assms(3) by (auto simp: no_newline_def)
  show ?thesis
  proof (cases "\<exists>c \<in> set m. c \<in> {CHR '' '', CHR 0x09, CHR '':''}")
    case True
    obtain l where "parse_line (print_line [] ''PONG'' [] m) = Some l" "l_cmd l = ''PONG''" "split_params (l_params l) = [] @ [m]"
      using parse_print [of "[]" "''PONG''" "[]" m] cmd nl by auto
    then show ?thesis using True assms(1,2) by (auto simp: on_ping_def print_line_def print_params_def)
  next
    case False
    have mid: "list_all middle_char m"
      using False assms(3) by (auto simp: list_all_iff middle_char_def is_ws_def)
    have "match_cmd (''PONG'' @ '' '' @ m) = Some (''PONG'', m)"
    proof (rule match_cmd_print)
      show "\<not> is_ws (hd m)" using mid assms(2) by (cases m) (auto simp: middle_char_def)
    qed (use assms(2) nl cmd_ok_not_ws [OF cmd] in auto)
    then have "parse_line (''PONG'' @ '' '' @ m) = Some \<lparr>l_prefix = [], l_cmd = ''PONG'', l_name = ''PONG'', l_code = [], l_params = m\<rparr>"
      using cmd by (simp add: parse_line_def match_line_def match_prefixed_def is_digit_def less_eq_char_def)
    then show ?thesis using False assms(1,2) split_params_single [OF assms(2) mid] by (auto simp: on_ping_def)
  qed
qed

lemma pong_echoes_witness:
  "\<exists>pong l. on_ping '':a b'' demo_session = ([Send_high pong], demo_session) \<and> parse_line pong = Some l \<and>
    l_cmd l = ''PONG'' \<and> split_params (l_params l) = [''a b'']"
proof (rule pong_echoes)
  show "split_params '':a b'' = [''a b'']" by code_simp
qed simp_all

section \<open>The ladder\<close>

fun backoff_run :: "int list \<Rightarrow> backoff \<Rightarrow> int list" where
  "backoff_run [] b = []"
| "backoff_run (t # ts) b = (let (d, b') = backoff_next t b in d # backoff_run ts b')"

text \<open>Each call comes at most 300 seconds after the attempt the one before scheduled.\<close>

fun no_peace :: "int list \<Rightarrow> backoff \<Rightarrow> bool" where
  "no_peace [] b = True"
| "no_peace (t # ts) b =
     ((case bo_when b of Some w \<Rightarrow> t \<le> w + seconds 300 | None \<Rightarrow> True) \<and> no_peace ts (snd (backoff_next t b)))"

definition rung :: "nat \<Rightarrow> int" where
  "rung k = (if k = 0 then 0 else seconds ([3, 60, 180, 300] ! min (k - 1) 3))"

lemma backoff_step:
  assumes "bo_delay b = rung k" and "case bo_when b of Some w \<Rightarrow> t \<le> w + seconds 300 | None \<Rightarrow> True"
  shows "\<exists>w. backoff_next t b = (rung (Suc k), \<lparr>bo_delay = rung (Suc k), bo_when = w\<rparr>)"
proof -
  have d: "(case bo_when b of Some w \<Rightarrow> if w + seconds 300 < t then 0 else bo_delay b | None \<Rightarrow> bo_delay b) = rung k"
    using assms by (auto split: option.splits)
  consider "k = 0" | "k = 1" | "k = 2" | "k = 3" | "4 \<le> k" by linarith
  then show ?thesis
  proof cases
    case 5
    then have "min (k - 1) 3 = 3" "min k 3 = 3" by auto
    then have "rung k = seconds 300" "rung (Suc k) = seconds 300" using 5 by (simp_all add: rung_def)
    then show ?thesis unfolding backoff_next_def d Let_def by (simp add: ladder_def seconds_def)
  qed (unfold backoff_next_def d Let_def, simp_all add: ladder_def rung_def seconds_def)
qed

lemma backoff_climb:
  "no_peace ts b \<Longrightarrow> bo_delay b = rung k \<Longrightarrow>
   backoff_run ts b = map (\<lambda>i. rung (Suc (k + i))) [0..<length ts]"
proof (induction ts arbitrary: b k)
  case (Cons t ts)
  obtain w where n: "backoff_next t b = (rung (Suc k), \<lparr>bo_delay = rung (Suc k), bo_when = w\<rparr>)"
    using backoff_step [OF Cons.prems(2), of t] Cons.prems(1) by auto
  have "backoff_run ts \<lparr>bo_delay = rung (Suc k), bo_when = w\<rparr> = map (\<lambda>i. rung (Suc (Suc k + i))) [0..<length ts]"
    by (rule Cons.IH) (use Cons.prems n in simp_all)
  moreover have "map f [0..<Suc n] = f 0 # map (\<lambda>i. f (Suc i)) [0..<n]" for f :: "nat \<Rightarrow> int" and n
    by (simp add: upt_conv_Cons map_Suc_upt [symmetric] del: upt_Suc map_Suc_upt)
  ultimately show ?case using n by (simp del: upt_Suc)
qed simp

text \<open>
  Reconnect delays climb 3, 60, 180, 300 seconds and then stay at 300 as long as the attempts keep
  failing without 300 seconds of peace after one; after such a peace the next delay is 3 seconds again.
\<close>

theorem backoff_ladder:
  "(no_peace ts backoff_new \<longrightarrow>
      backoff_run ts backoff_new = map (\<lambda>i. seconds ([3, 60, 180, 300] ! min i 3)) [0..<length ts]) \<and>
   (bo_when b = Some w \<longrightarrow> w + seconds 300 < now \<longrightarrow> fst (backoff_next now b) = seconds 3)"
proof -
  have "no_peace ts backoff_new \<Longrightarrow> backoff_run ts backoff_new = map (\<lambda>i. rung (Suc (0 + i))) [0..<length ts]"
    by (rule backoff_climb) (simp_all add: backoff_new_def rung_def)
  moreover have "fst (backoff_next now b) = seconds 3" if "bo_when b = Some w" "w + seconds 300 < now"
    using that by (simp add: backoff_next_def ladder_def seconds_def)
  ultimately show ?thesis by (simp add: rung_def)
qed

lemma backoff_ladder_witness:
  "backoff_run (map seconds [0, 5, 70, 300, 601]) backoff_new = map seconds [3, 60, 180, 300, 300]"
proof -
  have "no_peace (map seconds [0, 5, 70, 300, 601]) backoff_new"
    by (simp add: backoff_new_def backoff_next_def ladder_def seconds_def)
  then show ?thesis using backoff_ladder [of "map seconds [0, 5, 70, 300, 601]" backoff_new 0 0]
    by (simp add: upt_rec numeral_eq_Suc)
qed

end
