(* ===== verification/Keeper.thy ===== *)
theory Keeper
  imports Go_Prelude "HOL-Library.Sublist"
begin

text \<open>
  internal/keeper/keeper.go: the byte relay between IRC and the core. Connections are numbers; every
  method that runs under the mutex is one operation, and \<open>toIRC\<close>, which writes after it unlocks, is one
  too. What an operation does to the outside is a list of actions. A write succeeds or fails as the
  argument says; the source ignores the outcome of all writes but the one in \<open>toCore\<close>. The dial loop,
  the read deadlines, the PING probe and the sleeping are the callers of these operations and are not
  modelled, nor is logging.
\<close>

section \<open>State and operations\<close>

definition max_buffer :: nat where "max_buffer = 4 * 2 ^ 20"

definition max_out_buffer :: nat where "max_out_buffer = 16 * 2 ^ 10"

definition read_size :: nat where "read_size = 32 * 1024"

type_synonym conn = nat

record keeper =
  irc :: "conn option"
  core :: "conn option"
  buffer :: string
  out_buf :: string
  out_dropped :: bool
  closed :: bool

datatype relay = Write conn string | Close conn

definition keeper_new :: keeper where
  "keeper_new = \<lparr>irc = None, core = None, buffer = [], out_buf = [], out_dropped = False, closed = False\<rparr>"

definition close_opt :: "conn option \<Rightarrow> relay list" where
  "close_opt c = (case c of None \<Rightarrow> [] | Some c \<Rightarrow> [Close c])"

definition close_conns :: "keeper \<Rightarrow> relay list \<times> keeper" where
  "close_conns k = (close_opt (irc k) @ close_opt (core k), k\<lparr>closed := True\<rparr>)"

definition drop_session :: "keeper \<Rightarrow> relay list \<times> keeper" where
  "drop_session k = (close_opt (core k), k\<lparr>buffer := []\<rparr>)"

definition buffer_in :: "string \<Rightarrow> keeper \<Rightarrow> keeper" where
  "buffer_in b k =
     (let over = length (buffer k) + length b - max_buffer;
          kept = (if length (buffer k) + length b > max_buffer then
                    (if over \<ge> length (buffer k) then [] else drop over (buffer k))
                  else buffer k)
      in k\<lparr>buffer := kept @ b\<rparr>)"

definition to_core :: "bool \<Rightarrow> string \<Rightarrow> keeper \<Rightarrow> relay list \<times> keeper" where
  "to_core ok b k =
     (case core k of
        Some c \<Rightarrow> if ok then ([Write c b], k) else ([], buffer_in b (k\<lparr>core := None\<rparr>))
      | None \<Rightarrow> ([], buffer_in b k))"

definition set_irc :: "conn option \<Rightarrow> keeper \<Rightarrow> relay list \<times> keeper" where
  "set_irc c k =
     (case c of
        Some n \<Rightarrow>
          if closed k then ([Close n], k)
          else ((if out_buf k \<noteq> [] then [Write n (out_buf k)] else []) @ close_opt (irc k),
                k\<lparr>irc := c, out_buf := [], out_dropped := False\<rparr>)
      | None \<Rightarrow> (close_opt (irc k), k\<lparr>irc := None, out_buf := [], out_dropped := False\<rparr>))"

definition attach_core :: "conn \<Rightarrow> keeper \<Rightarrow> relay list \<times> keeper" where
  "attach_core c k =
     (close_opt (core k) @ (if buffer k \<noteq> [] then [Write c (buffer k)] else []), k\<lparr>core := Some c, buffer := []\<rparr>)"

definition detach_core :: "conn \<Rightarrow> keeper \<Rightarrow> relay list \<times> keeper" where
  "detach_core c k =
     ([Close c], if core k = Some c then k\<lparr>core := None, out_buf := [], out_dropped := False\<rparr> else k)"

text \<open>\<open>k.outBuf[:i+1]\<close> for the last newline \<open>i\<close>, nothing without one.\<close>

definition cut_to_line :: "string \<Rightarrow> string" where
  "cut_to_line s = rev (dropWhile (\<lambda>c. c \<noteq> CHR 0x0A) (rev s))"

definition buffer_out :: "string \<Rightarrow> keeper \<Rightarrow> keeper" where
  "buffer_out b k =
     (if out_dropped k then k
      else if length (out_buf k) + length b > max_out_buffer then
        k\<lparr>out_buf := cut_to_line (out_buf k @ take (max_out_buffer - length (out_buf k)) b), out_dropped := True\<rparr>
      else k\<lparr>out_buf := out_buf k @ b\<rparr>)"

definition to_irc :: "string \<Rightarrow> keeper \<Rightarrow> relay list \<times> keeper" where
  "to_irc b k = (case irc k of None \<Rightarrow> ([], buffer_out b k) | Some c \<Rightarrow> ([Write c b], k))"

datatype keeper_op =
    Irc_up conn | Irc_down | Session_dropped | From_irc bool string | Core_up conn | Core_down conn
  | From_core string | Shutdown

fun keeper_step :: "keeper_op \<Rightarrow> keeper \<Rightarrow> relay list \<times> keeper" where
  "keeper_step (Irc_up c) k = set_irc (Some c) k"
| "keeper_step Irc_down k = set_irc None k"
| "keeper_step Session_dropped k = drop_session k"
| "keeper_step (From_irc ok b) k = to_core ok b k"
| "keeper_step (Core_up c) k = attach_core c k"
| "keeper_step (Core_down c) k = detach_core c k"
| "keeper_step (From_core b) k = to_irc b k"
| "keeper_step Shutdown k = close_conns k"

fun keeper_run :: "keeper_op list \<Rightarrow> keeper \<Rightarrow> relay list \<times> keeper" where
  "keeper_run [] k = ([], k)"
| "keeper_run (op # ops) k =
     (let (a, k1) = keeper_step op k; (as, k2) = keeper_run ops k1 in (a @ as, k2))"

section \<open>Bounds\<close>

definition keeper_ok :: "keeper \<Rightarrow> bool" where
  "keeper_ok k \<longleftrightarrow> length (buffer k) \<le> max_buffer \<and> length (out_buf k) \<le> max_out_buffer \<and>
     (core k \<noteq> None \<longrightarrow> buffer k = []) \<and> (irc k \<noteq> None \<longrightarrow> out_buf k = []) \<and>
     (out_dropped k \<longrightarrow> out_buf k = [] \<or> last (out_buf k) = CHR 0x0A)"

definition small_reads :: "keeper_op list \<Rightarrow> bool" where
  \<comment> \<open>what the pumps pass on was read into their buffer of 32 KiB\<close>
  "small_reads ops = list_all (\<lambda>op. case op of From_irc ok b \<Rightarrow> length b \<le> read_size | _ \<Rightarrow> True) ops"

lemma read_size_small: "read_size \<le> max_buffer"
  by (simp add: read_size_def max_buffer_def)

lemma length_cut_to_line: "length (cut_to_line s) \<le> length s"
  by (metis cut_to_line_def length_dropWhile_le length_rev)

lemma last_cut_to_line: "cut_to_line s = [] \<or> last (cut_to_line s) = CHR 0x0A"
  using hd_dropWhile [of "\<lambda>c. c \<noteq> CHR 0x0A" "rev s"]
  by (cases "dropWhile (\<lambda>c. c \<noteq> CHR 0x0A) (rev s) = []") (auto simp: cut_to_line_def last_rev)

lemma prefix_cut_to_line: "prefix (cut_to_line s) s"
  unfolding cut_to_line_def by (metis suffix_dropWhile suffix_to_prefix rev_rev_ident)

lemma buffer_in_length: "length b \<le> max_buffer \<Longrightarrow> length (buffer (buffer_in b k)) \<le> max_buffer"
  by (simp add: buffer_in_def)

lemma buffer_in_fields [simp]: "core (buffer_in b k) = core k" "irc (buffer_in b k) = irc k"
  "out_buf (buffer_in b k) = out_buf k" "out_dropped (buffer_in b k) = out_dropped k"
  by (simp_all add: buffer_in_def)

lemma buffer_out_ok:
  "length (out_buf k) \<le> max_out_buffer \<Longrightarrow> (out_dropped k \<longrightarrow> out_buf k = [] \<or> last (out_buf k) = CHR 0x0A) \<Longrightarrow>
   length (out_buf (buffer_out b k)) \<le> max_out_buffer \<and>
   (out_dropped (buffer_out b k) \<longrightarrow> out_buf (buffer_out b k) = [] \<or> last (out_buf (buffer_out b k)) = CHR 0x0A) \<and>
   core (buffer_out b k) = core k \<and> irc (buffer_out b k) = irc k \<and> buffer (buffer_out b k) = buffer k"
  using length_cut_to_line [of "out_buf k @ take (max_out_buffer - length (out_buf k)) b"]
    last_cut_to_line [of "out_buf k @ take (max_out_buffer - length (out_buf k)) b"]
  by (auto simp: buffer_out_def)

lemma keeper_step_ok:
  assumes "keeper_ok k" and "small_reads [op]"
  shows "keeper_ok (snd (keeper_step op k))"
proof (cases op)
  case (From_irc ok b)
  then have "length b \<le> max_buffer" using assms(2) read_size_small by (simp add: small_reads_def)
  then show ?thesis
    using assms(1) From_irc buffer_in_length [of b k] buffer_in_length [of b "k\<lparr>core := None\<rparr>"]
    by (auto simp: keeper_ok_def to_core_def split: option.split)
next
  case (From_core b)
  then show ?thesis
    using assms(1) buffer_out_ok [of k b] by (auto simp: keeper_ok_def to_irc_def split: option.split)
qed (use assms(1) in \<open>auto simp: keeper_ok_def set_irc_def drop_session_def attach_core_def detach_core_def
      close_conns_def split: option.split\<close>)

text \<open>
  C16. The keeper stays bounded and framed. Whatever connects, fails and is sent, with reads of at most
  32 KiB, the inbound buffer holds at most 4 MiB and only while no core is attached, the outbound one at
  most 16 KiB and only while IRC is away, and once outbound data was dropped it ends in a full line.
\<close>

theorem keeper_bounds:
  assumes "small_reads ops"
  shows "case keeper_run ops keeper_new of (as, k) \<Rightarrow>
    length (buffer k) \<le> 4 * 2 ^ 20 \<and> length (out_buf k) \<le> 16 * 2 ^ 10 \<and>
    (core k = None \<or> buffer k = []) \<and> (irc k = None \<or> out_buf k = []) \<and>
    (\<not> out_dropped k \<or> out_buf k = [] \<or> last (out_buf k) = CHR 0x0A)"
proof -
  have "keeper_ok (snd (keeper_run ops k))" if "keeper_ok k" for k
    using that assms
  proof (induction ops arbitrary: k)
    case (Cons op ops)
    then have "keeper_ok (snd (keeper_step op k))" by (intro keeper_step_ok) (auto simp: small_reads_def)
    moreover have "small_reads ops" using Cons.prems(2) by (simp add: small_reads_def)
    ultimately show ?case using Cons.IH by (simp add: case_prod_beta')
  qed simp
  from this [of keeper_new] show ?thesis
    by (auto simp: keeper_ok_def keeper_new_def max_buffer_def max_out_buffer_def split: prod.splits)
qed

lemma keeper_bounds_witness:
  "case keeper_run [Core_up 1, From_core ''NICK x'', Irc_up 2, From_irc False ''PING'', Core_up 3] keeper_new of
    (as, k) \<Rightarrow> length (buffer k) \<le> 4 * 2 ^ 20 \<and> length (out_buf k) \<le> 16 * 2 ^ 10 \<and>
    (core k = None \<or> buffer k = []) \<and> (irc k = None \<or> out_buf k = []) \<and>
    (\<not> out_dropped k \<or> out_buf k = [] \<or> last (out_buf k) = CHR 0x0A)"
  by (rule keeper_bounds) (simp add: small_reads_def read_size_def)

section \<open>The inbound stream\<close>

fun inbound :: "keeper_op list \<Rightarrow> string" where
  "inbound [] = []"
| "inbound (From_irc ok b # ops) = b @ inbound ops"
| "inbound (op # ops) = inbound ops"

text \<open>The cores are the connections numbered by \<open>Core_up\<close>; what was written to them, in order.\<close>

fun to_cores :: "conn set \<Rightarrow> relay list \<Rightarrow> string" where
  "to_cores C [] = []"
| "to_cores C (Write c b # as) = (if c \<in> C then b else []) @ to_cores C as"
| "to_cores C (Close c # as) = to_cores C as"

lemma to_cores_append [simp]: "to_cores C (as @ bs) = to_cores C as @ to_cores C bs"
  by (induction C as rule: to_cores.induct) auto

lemma to_cores_close [simp]: "to_cores C (close_opt c) = []"
  by (simp add: close_opt_def split: option.split)

text \<open>A run in which the session is not dropped, cores and IRC connections have their own numbers.\<close>

definition steady :: "conn set \<Rightarrow> keeper_op list \<Rightarrow> bool" where
  "steady C ops = list_all (\<lambda>op. case op of
     Session_dropped \<Rightarrow> False | Irc_up c \<Rightarrow> c \<notin> C | Core_up c \<Rightarrow> c \<in> C | _ \<Rightarrow> True) ops"

lemma buffer_in_all: "length (buffer k) + length b \<le> max_buffer \<Longrightarrow> buffer (buffer_in b k) = buffer k @ b"
  by (simp add: buffer_in_def)

lemma keeper_stream:
  assumes "core k = None \<or> the (core k) \<in> C" and "irc k = None \<or> the (irc k) \<notin> C" and "core k = None \<or> buffer k = []"
    and "steady C ops" and "length (buffer k) + length (inbound ops) \<le> max_buffer"
  shows "to_cores C (fst (keeper_run ops k)) @ buffer (snd (keeper_run ops k)) = buffer k @ inbound ops"
  using assms
proof (induction ops arbitrary: k)
  case (Cons op ops)
  have st: "steady C ops" using Cons.prems(4) by (simp add: steady_def)
  define a where "a = fst (keeper_step op k)"
  define k1 where "k1 = snd (keeper_step op k)"
  have s: "keeper_step op k = (a, k1)" by (simp add: a_def k1_def)
  have step: "to_cores C a @ buffer k1 = buffer k @ inbound [op] \<and> (core k1 = None \<or> the (core k1) \<in> C) \<and>
      (irc k1 = None \<or> the (irc k1) \<notin> C) \<and> (core k1 = None \<or> buffer k1 = [])"
  proof (cases op)
    case (From_irc ok b)
    then have "length (buffer k) + length b \<le> max_buffer" using Cons.prems(5) by simp
    then have "buffer (buffer_in b k) = buffer k @ b" "buffer (buffer_in b (k\<lparr>core := None\<rparr>)) = buffer k @ b"
      using buffer_in_all [of k b] buffer_in_all [of "k\<lparr>core := None\<rparr>" b] by simp_all
    then show ?thesis
      using From_irc Cons.prems(1-3) unfolding a_def k1_def by (auto simp: to_core_def split: option.split)
  next
    case (From_core b)
    have "core (buffer_out b k) = core k \<and> irc (buffer_out b k) = irc k \<and> buffer (buffer_out b k) = buffer k"
      by (simp add: buffer_out_def)
    then show ?thesis
      using From_core Cons.prems(1-3) unfolding a_def k1_def by (auto simp: to_irc_def split: option.split)
  qed (use Cons.prems(1-4) in \<open>unfold a_def k1_def, auto simp: steady_def set_irc_def attach_core_def
        detach_core_def close_conns_def split: option.split\<close>)
  have len: "length (buffer k1) + length (inbound ops) \<le> max_buffer"
  proof -
    have "length (buffer k1) \<le> length (buffer k @ inbound [op])" using step by (metis length_append le_add2)
    moreover have "length (inbound (op # ops)) = length (inbound [op]) + length (inbound ops)" by (cases op) auto
    ultimately show ?thesis using Cons.prems(5) by simp
  qed
  have "inbound (op # ops) = inbound [op] @ inbound ops" by (cases op) auto
  with Cons.IH [of k1] step st len s show ?case by (simp add: case_prod_beta')
qed simp



section \<open>The outbound stream\<close>

text \<open>
  Across an IRC reconnect the head of what the core sends survives. While IRC is away, what is held
  for it is a prefix of what the core sent since: all of it up to 16 KiB, and when more came, a cut at a
  line end; the next connection is sent exactly that, once.
\<close>

theorem keeper_outbound:
  assumes "irc k = None" and "out_buf k = []" and "\<not> out_dropped k"
  shows "case keeper_run (map From_core bs) k of (as, k') \<Rightarrow>
    as = [] \<and> prefix (out_buf k') (concat bs) \<and>
    (length (concat bs) \<le> 16 * 2 ^ 10 \<longrightarrow> out_buf k' = concat bs) \<and>
    (out_buf k' = concat bs \<or> out_buf k' = [] \<or> last (out_buf k') = CHR 0x0A) \<and>
    (closed k' \<or> fst (set_irc (Some c) k') = (if out_buf k' = [] then [] else [Write c (out_buf k')]) \<and>
       out_buf (snd (set_irc (Some c) k')) = [])"
proof -
  have out: "fst (keeper_run (map From_core bs) k) = [] \<and> irc (snd (keeper_run (map From_core bs) k)) = None \<and>
      prefix (out_buf (snd (keeper_run (map From_core bs) k))) (out_buf k @ concat bs) \<and>
      (length (out_buf k @ concat bs) \<le> max_out_buffer \<longrightarrow> out_buf (snd (keeper_run (map From_core bs) k)) = out_buf k @ concat bs) \<and>
      (out_buf (snd (keeper_run (map From_core bs) k)) = out_buf k @ concat bs \<or>
       out_buf (snd (keeper_run (map From_core bs) k)) = [] \<or>
       last (out_buf (snd (keeper_run (map From_core bs) k))) = CHR 0x0A)"
    if "irc k = None" "\<not> out_dropped k" for k
    using that
  proof (induction bs arbitrary: k)
    case (Cons b bs)
    have dropped: "keeper_run (map From_core bs) k' = ([], k')" if "irc k' = None" "out_dropped k'" for k'
      using that by (induction bs) (simp_all add: to_irc_def buffer_out_def)
    let ?cut = "cut_to_line (out_buf k @ take (max_out_buffer - length (out_buf k)) b)"
    show ?case
    proof (cases "length (out_buf k) + length b > max_out_buffer")
      case True
      have "prefix ?cut (out_buf k @ b)"
        using prefix_cut_to_line [of "out_buf k @ take (max_out_buffer - length (out_buf k)) b"]
        by (meson prefix_order.trans same_prefix_prefix take_is_prefix)
      then have "prefix ?cut ((out_buf k @ b) @ concat bs)" by (rule prefix_prefix)
      then have "prefix ?cut (out_buf k @ concat (b # bs))" by simp
      then show ?thesis
        using True Cons.prems dropped [of "k\<lparr>out_buf := ?cut, out_dropped := True\<rparr>"]
          last_cut_to_line [of "out_buf k @ take (max_out_buffer - length (out_buf k)) b"]
        by (simp add: to_irc_def buffer_out_def)
    next
      case False
      then show ?thesis
        using Cons.IH [of "k\<lparr>out_buf := out_buf k @ b\<rparr>"] Cons.prems
        by (simp add: to_irc_def buffer_out_def case_prod_beta')
    qed
  qed simp
  show ?thesis
    using out [OF assms(1,3)] assms(2)
    by (auto simp: case_prod_beta' max_out_buffer_def set_irc_def close_opt_def)
qed

lemma keeper_outbound_witness:
  "case keeper_run (map From_core [''NICK x'', [CHR 0x0A]]) keeper_new of (as, k') \<Rightarrow>
    as = [] \<and> prefix (out_buf k') (concat [''NICK x'', [CHR 0x0A]]) \<and>
    (length (concat [''NICK x'', [CHR 0x0A]]) \<le> 16 * 2 ^ 10 \<longrightarrow> out_buf k' = concat [''NICK x'', [CHR 0x0A]]) \<and>
    (out_buf k' = concat [''NICK x'', [CHR 0x0A]] \<or> out_buf k' = [] \<or> last (out_buf k') = CHR 0x0A) \<and>
    (closed k' \<or> fst (set_irc (Some 2) k') = (if out_buf k' = [] then [] else [Write 2 (out_buf k')]) \<and>
       out_buf (snd (set_irc (Some 2) k')) = [])"
  by (rule keeper_outbound) (simp_all add: keeper_new_def)

end
