(* ===== verification/Format.thy ===== *)
theory Format
  imports Go_Strconv Go_Utf8
begin

text \<open>
  internal/format: wrap.go, the cutting of messages into lines of the wire, and colorize.go, the
  colour tags of module output and their mIRC codes. Grapheme clusters come from the package
  uniseg, which is an argument of \<open>truncate_irc\<close>.
\<close>

section \<open>Wrapping\<close>

definition max_line :: int where "max_line = 448"

function split_ws :: "string \<Rightarrow> string list" where
  \<comment> \<open>\<open>wsRe.Split(s, -1)\<close>\<close>
  "split_ws s =
     takeWhile (\<lambda>c. \<not> is_ws c) s #
     (case dropWhile (\<lambda>c. \<not> is_ws c) s of
        [] \<Rightarrow> []
      | _ # r \<Rightarrow> split_ws (dropWhile is_ws r))"
  by pat_completeness auto
termination
proof (relation "measure length", goal_cases)
  case (2 s c r)
  have "length (dropWhile is_ws r) \<le> length r" by (rule length_dropWhile_le)
  moreover have "length (c # r) \<le> length s"
    using length_dropWhile_le [of "\<lambda>c. \<not> is_ws c" s] 2 by simp
  ultimately show ?case by simp
qed simp
declare split_ws.simps [simp del]

fun chunks :: "int \<Rightarrow> string \<Rightarrow> string list \<Rightarrow> string list" where
  \<comment> \<open>the loop of \<open>splitBigWord\<close> over the strings of the runes\<close>
  "chunks mx part [] = (if 0 < length part then [part] else [])"
| "chunks mx part (r # rs) =
     (case rs of
        r2 # _ \<Rightarrow> if int (length (part @ r)) + int (length r2) > mx then (part @ r) # chunks mx [] rs
                 else chunks mx (part @ r) rs
      | [] \<Rightarrow> chunks mx (part @ r) rs)"

definition split_big_word :: "string \<Rightarrow> int \<Rightarrow> string list" where
  "split_big_word word mx = chunks mx [] (rune_strs word)"

fun fill_line :: "int \<Rightarrow> string \<Rightarrow> string list \<Rightarrow> string \<times> string list" where
  "fill_line mx line [] = (line, [])"
| "fill_line mx line (w # ws) =
     (if int (length line) + 1 + int (length w) < mx then fill_line mx (line @ '' '' @ w) ws
      else (line, w # ws))"

lemma fill_line_shorter: "length (snd (fill_line mx line ws)) \<le> length ws"
  by (induction mx line ws rule: fill_line.induct) auto

function wrap_words :: "int \<Rightarrow> string list \<Rightarrow> string list" where
  "wrap_words mx [] = []"
| "wrap_words mx (w # ws) =
     (if int (length w) > mx then split_big_word w mx @ wrap_words mx ws
      else (case fill_line mx w ws of (line, rest) \<Rightarrow> line # wrap_words mx rest))"
  by pat_completeness auto
termination
proof (relation "measure (length \<circ> snd)", goal_cases)
  case (3 mx w ws line rest)
  then show ?case using fill_line_shorter [of mx w ws] by (cases "fill_line mx w ws") simp
qed auto

definition wrap_text :: "string \<Rightarrow> int \<Rightarrow> string list" where
  "wrap_text msg mx =
     (let ws = split_ws msg in if length ws = 1 \<and> hd ws = [] then [] else wrap_words mx ws)"

definition split_message :: "string \<Rightarrow> string \<Rightarrow> string list" where
  "split_message prefix msg =
     (if int (length prefix) + int (length msg) < max_line then [prefix @ msg]
      else map (\<lambda>l. prefix @ l) (wrap_text msg (max_line - int (length prefix))))"

section \<open>Truncation\<close>

type_synonym clusters = "string \<Rightarrow> int \<Rightarrow> string \<times> string \<times> int"
  \<comment> \<open>\<open>uniseg.FirstGraphemeClusterInString\<close>: rest and state to cluster, rest and new state\<close>

partial_function (option) keep_clusters :: "clusters \<Rightarrow> nat \<Rightarrow> nat \<Rightarrow> string \<Rightarrow> int \<Rightarrow> nat option" where
  "keep_clusters first mx kept rest st =
     (if rest = [] then Some kept
      else (case first rest st of (cluster, tail, nxt) \<Rightarrow>
              if kept + length cluster > mx then Some kept
              else keep_clusters first mx (kept + length cluster) tail nxt))"

definition truncate_irc :: "clusters \<Rightarrow> string \<Rightarrow> nat \<Rightarrow> string option" where
  "truncate_irc first s mx =
     (if length s \<le> mx then Some s
      else map_option (\<lambda>kept. take kept s) (keep_clusters first mx 0 s (- 1)))"

section \<open>Lemmas on wrapping\<close>

definition ink :: "string \<Rightarrow> string" where
  "ink s = filter (\<lambda>c. \<not> is_ws c) s"

lemma ink_append [simp]: "ink (a @ b) = ink a @ ink b" "ink [] = []"
  by (simp_all add: ink_def)

lemma ink_blank [simp]: "ink (CHR '' '' # s) = ink s"
  by (simp add: ink_def is_ws_def)

lemma ink_concat: "ink (concat xs) = concat (map ink xs)"
  by (induction xs) simp_all

lemma ink_span: "ink (takeWhile (\<lambda>c. \<not> is_ws c) s) @ ink (dropWhile (\<lambda>c. \<not> is_ws c) s) = ink s"
  by (metis ink_append(1) takeWhile_dropWhile_id)

lemma ink_drop_ws: "ink (dropWhile is_ws s) = ink s"
  by (induction s) (auto simp: ink_def)

lemma split_ws_words: "concat (split_ws s) = ink s"
proof (induction s rule: split_ws.induct)
  case (1 s)
  have w: "takeWhile (\<lambda>c. \<not> is_ws c) s = ink (takeWhile (\<lambda>c. \<not> is_ws c) s)"
    unfolding ink_def by (rule sym, rule filter_True) (auto dest: set_takeWhileD)
  show ?case
  proof (cases "dropWhile (\<lambda>c. \<not> is_ws c) s")
    case Nil
    then show ?thesis
      using w ink_span [of s] by (subst split_ws.simps) (simp del: dropWhile_eq_Nil_conv)
  next
    case (Cons c r)
    then have c: "is_ws c" by (metis hd_dropWhile list.distinct(1) list.sel(1))
    have "concat (split_ws (dropWhile is_ws r)) = ink r"
      using "1.IH" [OF Cons] by (simp add: ink_drop_ws)
    moreover have "ink (c # r) = ink r" using c by (simp add: ink_def)
    ultimately show ?thesis
      using w ink_span [of s] by (subst split_ws.simps) (simp add: Cons)
  qed
qed

lemma decode_before_ascii:
  assumes "byte c < 0x80" and "a \<noteq> []"
  shows "decode_rune (a @ c # b) = decode_rune a"
  using assms(2)
proof (cases rule: decode_cases)
  case (ascii c0 t)
  then show ?thesis by (simp add: decode_ascii)
next
  case (two c0 c1 t)
  then show ?thesis by (simp add: decode2)
next
  case (three c0 c1 c2 t)
  then show ?thesis by (simp add: decode3)
next
  case (four c0 c1 c2 c3 t)
  then show ?thesis by (simp add: decode4)
next
  case (invalid c0 t)
  have low: "\<not> second_ok n c" "\<not> cont_byte c" for n
    using assms(1) by (simp_all add: second_ok_def cont_byte_def)
  show ?thesis
  proof (rule ccontr)
    assume d: "decode_rune (a @ c # b) \<noteq> decode_rune a"
    from decode_shape [of "a @ c # b" c0 "t @ c # b"] invalid d
    have sh: "(\<exists>c1 t'. t @ c # b = c1 # t' \<and> two_ok c0 c1) \<or>
       (\<exists>c1 c2 t'. t @ c # b = c1 # c2 # t' \<and> three_ok c0 c1 c2) \<or>
       (\<exists>c1 c2 c3 t'. t @ c # b = c1 # c2 # c3 # t' \<and> four_ok c0 c1 c2 c3)" by simp
    from sh show False
    proof (elim disjE exE conjE)
      fix c1 t' assume e: "t @ c # b = c1 # t'" and ok: "two_ok c0 c1"
      have "c1 \<noteq> c" using ok low by (auto simp: two_ok_def)
      then obtain u where "t = c1 # u" using e by (cases t) auto
      with invalid decode2 [OF ok, of u] show False by simp
    next
      fix c1 c2 t' assume e: "t @ c # b = c1 # c2 # t'" and ok: "three_ok c0 c1 c2"
      have "c1 \<noteq> c" "c2 \<noteq> c" using ok low by (auto simp: three_ok_def)
      then obtain u where "t = c1 # c2 # u"
        using e by (auto simp: append_eq_Cons_conv)
      with invalid decode3 [OF ok, of u] show False by simp
    next
      fix c1 c2 c3 t' assume e: "t @ c # b = c1 # c2 # c3 # t'" and ok: "four_ok c0 c1 c2 c3"
      have "c1 \<noteq> c" "c2 \<noteq> c" "c3 \<noteq> c" using ok low by (auto simp: four_ok_def)
      then obtain u where "t = c1 # c2 # c3 # u"
        using e by (auto simp: append_eq_Cons_conv)
      with invalid decode4 [OF ok, of u] show False by simp
    qed
  qed
qed

lemma segs_at_ascii: "byte c < 0x80 \<Longrightarrow> segs (a @ c # b) = segs a @ [c] # segs b"
proof (induction a rule: segs.induct)
  case (1 a)
  show ?case
  proof (cases "a = []")
    case True
    then show ?thesis using 1(2) by (simp add: segs_step decode_ascii)
  next
    case False
    let ?w = "snd (decode_rune a)"
    have "?w \<le> length a" by (rule decode_width_le)
    then show ?thesis
      using False 1 by (simp add: segs_step decode_before_ascii)
  qed
qed

lemma valid_at_ascii:
  assumes "byte c < 0x80"
  shows "valid_utf8 (a @ c # b) \<longleftrightarrow> valid_utf8 a \<and> valid_utf8 b"
proof -
  have "\<not> seg_invalid [c]" using assms by (auto simp: seg_invalid_def decode_ascii rune_error_def)
  then show ?thesis using assms by (auto simp: valid_utf8_def segs_at_ascii)
qed

lemma ws_ascii: "is_ws c \<Longrightarrow> byte c < 0x80"
  by (auto simp: is_ws_def)

lemma valid_drop_ws: "valid_utf8 s \<Longrightarrow> valid_utf8 (dropWhile is_ws s)"
proof (induction s)
  case (Cons c s)
  then show ?case using valid_at_ascii [of c "[]" s] ws_ascii [of c] by auto
qed simp

lemma split_ws_valid: "valid_utf8 s \<Longrightarrow> w \<in> set (split_ws s) \<Longrightarrow> valid_utf8 w"
proof (induction s arbitrary: w rule: split_ws.induct)
  case (1 s)
  let ?a = "takeWhile (\<lambda>c. \<not> is_ws c) s"
  show ?case
  proof (cases "dropWhile (\<lambda>c. \<not> is_ws c) s")
    case Nil
    then have "w = ?a"
      using "1.prems"(2) by (simp add: split_ws.simps [of s] del: dropWhile_eq_Nil_conv)
    moreover have "?a = s" using takeWhile_dropWhile_id [of "\<lambda>c. \<not> is_ws c" s] Nil by simp
    ultimately have "w = s" by simp
    with "1.prems" show ?thesis by simp
  next
    case (Cons c r)
    have s: "s = ?a @ c # r" by (metis Cons takeWhile_dropWhile_id)
    have "is_ws c" using Cons by (metis hd_dropWhile list.distinct(1) list.sel(1))
    with s "1.prems"(1) have v: "valid_utf8 ?a" "valid_utf8 (dropWhile is_ws r)"
      using valid_at_ascii [OF ws_ascii, of c ?a r] valid_drop_ws [of r] by auto
    from "1.prems"(2) Cons have "w = ?a \<or> w \<in> set (split_ws (dropWhile is_ws r))"
      by (simp add: split_ws.simps [of s])
    with v "1.IH" [OF Cons v(2)] show ?thesis by blast
  qed
qed

lemma chunks_content: "concat (chunks mx part rs) = part @ concat rs"
  by (induction mx part rs rule: chunks.induct) (auto split: list.splits)

lemma chunks_bound:
  assumes "\<forall>r \<in> set rs. int (length r) \<le> mx" and "int (length part) \<le> mx"
    and "rs \<noteq> [] \<longrightarrow> int (length part) + int (length (hd rs)) \<le> mx"
  shows "\<forall>l \<in> set (chunks mx part rs). int (length l) \<le> mx"
  using assms
proof (induction mx part rs rule: chunks.induct)
  case (2 mx part r rs)
  have fit: "int (length (part @ r)) \<le> mx" using "2.prems"(3) by simp
  show ?case
  proof (cases rs)
    case Nil
    then show ?thesis using fit by simp
  next
    case (Cons r2 rs')
    show ?thesis
    proof (cases "int (length (part @ r)) + int (length r2) > mx")
      case True
      have "\<forall>l \<in> set (chunks mx [] rs). int (length l) \<le> mx"
        using "2.IH"(2) [OF Cons True] "2.prems" fit Cons by simp
      then show ?thesis using True Cons fit by (simp del: chunks.simps(2) add: chunks.simps(2) [of mx part])
    next
      case False
      have "\<forall>l \<in> set (chunks mx (part @ r) rs). int (length l) \<le> mx"
        using "2.IH"(3) [OF Cons False] "2.prems" fit False Cons by simp
      then show ?thesis using False Cons by (simp del: chunks.simps(2) add: chunks.simps(2) [of mx part])
    qed
  qed
qed simp

lemma big_word_bound:
  assumes "4 \<le> mx"
  shows "\<forall>l \<in> set (split_big_word w mx). int (length l) \<le> mx"
proof -
  have e: "int (length (encode_rune r)) \<le> mx" for r
    using encode_length(2) [of r] assms by linarith
  then have r: "\<forall>r \<in> set (rune_strs w). int (length r) \<le> mx" by (simp add: rune_strs_def)
  moreover have "rune_strs w \<noteq> [] \<Longrightarrow> int (length (hd (rune_strs w))) \<le> mx"
    using r hd_in_set by blast
  ultimately show ?thesis unfolding split_big_word_def
    using assms by (intro chunks_bound) simp_all
qed

lemma fill_line_facts:
  assumes "fill_line mx line ws = (l, rest)"
  shows "ink l @ concat (map ink rest) = ink line @ concat (map ink ws)"
    and "set rest \<subseteq> set ws"
    and "int (length line) \<le> mx \<Longrightarrow> int (length l) \<le> mx"
  using assms by (induction mx line ws rule: fill_line.induct) (auto split: if_splits)

lemma wrap_words_content:
  "\<forall>w \<in> set ws. valid_utf8 w \<Longrightarrow> concat (map ink (wrap_words mx ws)) = concat (map ink ws)"
proof (induction mx ws rule: wrap_words.induct)
  case (2 mx w ws)
  have w: "concat (map ink (split_big_word w mx)) = ink w"
    using "2.prems" by (simp flip: ink_concat add: split_big_word_def chunks_content concat_rune_strs)
  obtain l rest where f: "fill_line mx w ws = (l, rest)" by fastforce
  show ?case
  proof (cases "int (length w) > mx")
    case True
    then show ?thesis using w "2.IH"(1) "2.prems" by simp
  next
    case False
    have "concat (map ink (wrap_words mx rest)) = concat (map ink rest)"
      using "2.IH"(2) [OF False f [symmetric]] "2.prems" fill_line_facts(2) [OF f] by auto
    then show ?thesis using False f fill_line_facts(1) [OF f] by simp
  qed
qed simp

lemma wrap_words_bound:
  "4 \<le> mx \<Longrightarrow> l \<in> set (wrap_words mx ws) \<Longrightarrow> int (length l) \<le> mx"
proof (induction mx ws arbitrary: l rule: wrap_words.induct)
  case (2 mx w ws)
  obtain line rest where f: "fill_line mx w ws = (line, rest)" by fastforce
  show ?case
  proof (cases "int (length w) > mx")
    case True
    then show ?thesis
      using "2.prems" "2.IH"(1) [OF True "2.prems"(1)] big_word_bound by (auto)
  next
    case False
    then show ?thesis
      using "2.prems" f "2.IH"(2) [OF False f [symmetric] "2.prems"(1)] fill_line_facts(3) [OF f]
      by auto
  qed
qed simp

lemma wrap_text_content: "valid_utf8 s \<Longrightarrow> concat (map ink (wrap_text s mx)) = ink s"
proof -
  assume v: "valid_utf8 s"
  have i: "concat (map ink (split_ws s)) = ink s"
    by (simp flip: ink_concat add: split_ws_words) (simp add: ink_def)
  show ?thesis
  proof (cases "length (split_ws s) = 1 \<and> hd (split_ws s) = []")
    case True
    then have "split_ws s = [[]]" by (cases "split_ws s") auto
    with i show ?thesis by (simp add: wrap_text_def)
  next
    case False
    then show ?thesis
      using i split_ws_valid [OF v] by (auto simp add: wrap_text_def wrap_words_content)
  qed
qed

section \<open>Properties\<close>

text \<open>
  A message fits the wire and keeps its text. With a prefix that leaves room for one rune, every
  line of \<open>SplitMessage\<close> starts with the prefix and has at most 448 bytes; and of a well-formed
  message every byte that is not blank is sent, once and in order.
\<close>

theorem split_message_fits:
  assumes "length prefix \<le> 444"
  shows "(\<forall>l \<in> set (split_message prefix msg). has_prefix prefix l \<and> length l \<le> 448) \<and>
    (valid_utf8 msg \<longrightarrow>
      concat (map (\<lambda>l. ink (drop (length prefix) l)) (split_message prefix msg)) = ink msg)"
proof (intro conjI impI)
  let ?mx = "448 - int (length prefix)"
  have "4 \<le> ?mx" using assms by simp
  then have "int (length prefix) + int (length l) \<le> 448" if "l \<in> set (wrap_text msg ?mx)" for l
    using that wrap_words_bound [of ?mx l "split_ws msg"] by (simp add: wrap_text_def split: if_splits)
  then have b: "length prefix + length l \<le> 448" if "l \<in> set (wrap_text msg ?mx)" for l
    using that by fastforce
  show "\<forall>l \<in> set (split_message prefix msg). has_prefix prefix l \<and> length l \<le> 448"
    using b by (auto simp: split_message_def max_line_def)
  assume "valid_utf8 msg"
  then show "concat (map (\<lambda>l. ink (drop (length prefix) l)) (split_message prefix msg)) = ink msg"
    by (simp add: split_message_def comp_def wrap_text_content)
qed

lemma split_message_fits_witness:
  "concat (map (\<lambda>l. ink (drop (length ''#a :'') l)) (split_message ''#a :'' ''hi you'')) = ''hiyou''"
proof -
  have "valid_utf8 ''hi you''"
    by (simp add: valid_utf8_def segs_ascii seg_invalid_def decode_ascii rune_error_def)
  moreover have "length ''#a :'' \<le> 444" by simp
  ultimately have "concat (map (\<lambda>l. ink (drop (length ''#a :'') l)) (split_message ''#a :'' ''hi you''))
      = ink ''hi you''"
    using split_message_fits [of "''#a :''" "''hi you''"] by blast
  also have "ink ''hi you'' = ''hiyou''" by (simp add: ink_def is_ws_def)
  finally show ?thesis .
qed

text \<open>The clusters a reader of the whole string would be given.\<close>

inductive cuts :: "clusters \<Rightarrow> string \<Rightarrow> int \<Rightarrow> string list \<Rightarrow> bool" for first where
  none: "cuts first [] st []"
| more: "rest \<noteq> [] \<Longrightarrow> first rest st = (c, tail, nxt) \<Longrightarrow> cuts first tail nxt cs \<Longrightarrow>
    cuts first rest st (c # cs)"

inductive_cases cuts_ConsE: "cuts first rest st (c # cs)"
inductive_cases cuts_NilE: "cuts first rest st []"

definition proper :: "clusters \<Rightarrow> bool" where
  \<comment> \<open>a cluster of a string that is not empty is a prefix of it and not empty\<close>
  "proper first = (\<forall>rest st c tail nxt. rest \<noteq> [] \<longrightarrow> first rest st = (c, tail, nxt) \<longrightarrow>
     c \<noteq> [] \<and> rest = c @ tail)"

lemma properD:
  "proper first \<Longrightarrow> first rest st = (c, tail, nxt) \<Longrightarrow> rest \<noteq> [] \<Longrightarrow> c \<noteq> [] \<and> rest = c @ tail"
  unfolding proper_def by blast

lemma cuts_exist: "proper first \<Longrightarrow> \<exists>cs. cuts first rest st cs"
proof (induction rest arbitrary: st rule: length_induct)
  case (1 rest)
  show ?case
  proof (cases "rest = []")
    case True
    then show ?thesis using cuts.none by blast
  next
    case False
    obtain c tail nxt where f: "first rest st = (c, tail, nxt)" by (cases "first rest st") auto
    with False 1(2) have "c \<noteq> []" "rest = c @ tail" using properD [OF 1(2) f False] by simp_all
    then have "length tail < length rest" by simp
    with 1 obtain cs where "cuts first tail nxt cs" by blast
    with False f show ?thesis using cuts.more by blast
  qed
qed

lemma cuts_concat: "cuts first rest st cs \<Longrightarrow> proper first \<Longrightarrow> concat cs = rest"
proof (induction rule: cuts.induct)
  case (more rest st c tail nxt cs)
  then show ?case using properD [OF more.prems more.hyps(2, 1)] by simp
qed simp

lemma keep_clusters_cuts:
  assumes "cuts first rest st cs" and "kept \<le> mx"
  shows "\<exists>n \<le> length cs. keep_clusters first mx kept rest st = Some (kept + length (concat (take n cs)))
     \<and> kept + length (concat (take n cs)) \<le> mx
     \<and> (n = length cs \<or> mx < kept + length (concat (take (Suc n) cs)))"
  using assms
proof (induction arbitrary: kept rule: cuts.induct)
  case (none st)
  then show ?case by (subst keep_clusters.simps) simp
next
  case (more rest st c tail nxt cs)
  show ?case
  proof (cases "mx < kept + length c")
    case True
    then show ?thesis using more by (subst keep_clusters.simps) (intro exI [of _ 0], simp)
  next
    case False
    then have "kept + length c \<le> mx" by simp
    from more.IH [OF this] obtain n where "n \<le> length cs"
      "keep_clusters first mx (kept + length c) tail nxt = Some (kept + length c + length (concat (take n cs)))"
      "kept + length c + length (concat (take n cs)) \<le> mx"
      "n = length cs \<or> mx < kept + length c + length (concat (take (Suc n) cs))" by blast
    then show ?thesis
      using more.hyps False by (subst keep_clusters.simps) (intro exI [of _ "Suc n"], simp add: add.assoc)
  qed
qed

text \<open>
  A line is cut between grapheme clusters. With clusters that are non-empty prefixes,
  \<open>TruncateIRC\<close> returns: the longest run of whole clusters from the start that fits the limit.
\<close>

theorem truncate_whole_clusters:
  assumes "proper first"
  shows "\<exists>cs n. cuts first s (- 1) cs \<and> concat cs = s \<and>
    truncate_irc first s mx = Some (concat (take n cs)) \<and> length (concat (take n cs)) \<le> mx \<and>
    (concat (take n cs) = s \<or> mx < length (concat (take (Suc n) cs)))"
proof -
  from cuts_exist [OF assms] obtain cs where cs: "cuts first s (- 1) cs" by blast
  with assms have s: "concat cs = s" by (intro cuts_concat)
  have take_n: "take (length (concat (take n cs))) s = concat (take n cs)" for n
    unfolding s [symmetric] by (subst append_take_drop_id [of n cs, symmetric], subst concat_append) simp
  show ?thesis
  proof (cases "length s \<le> mx")
    case True
    then show ?thesis using cs s by (intro exI [of _ cs] exI [of _ "length cs"]) (simp add: truncate_irc_def)
  next
    case False
    from keep_clusters_cuts [OF cs, of 0 mx] obtain n where
      "keep_clusters first mx 0 s (- 1) = Some (length (concat (take n cs)))"
      "length (concat (take n cs)) \<le> mx"
      "n = length cs \<or> mx < length (concat (take (Suc n) cs))" by auto
    then show ?thesis
      using cs s take_n False
      by (intro exI [of _ cs] exI [of _ n]) (auto simp: truncate_irc_def)
  qed
qed

definition by_bytes :: clusters where
  "by_bytes rest st = (take 1 rest, drop 1 rest, 0)"

lemma truncate_whole_clusters_witness:
  "\<exists>cs n. cuts by_bytes ''abc'' (- 1) cs \<and> concat cs = ''abc'' \<and>
    truncate_irc by_bytes ''abc'' 2 = Some (concat (take n cs)) \<and> length (concat (take n cs)) \<le> 2 \<and>
    (concat (take n cs) = ''abc'' \<or> 2 < length (concat (take (Suc n) cs)))"
proof (rule truncate_whole_clusters)
  show "proper by_bytes" by (auto simp: proper_def by_bytes_def)
qed

end
