(* ===== verification/Colour.thy ===== *)
theory Colour
  imports Go_Strconv
begin

text \<open>
  internal/format/colorize.go: the \<open>{x}\<close> tags of module output, their ANSI escapes, the mIRC codes the
  escapes are turned into, and the removal of all formatting.
\<close>

section \<open>Tags\<close>

definition esc :: string where "esc = [CHR 0x1B, CHR ''['']"

definition tag_table :: "(char \<times> string) list" where
  "tag_table =
     [(CHR ''/'', esc @ ''0m''),
      (CHR ''r'', esc @ ''31m''), (CHR ''R'', esc @ ''31;1m''),
      (CHR ''g'', esc @ ''32m''), (CHR ''G'', esc @ ''32;1m''),
      (CHR ''y'', esc @ ''33m''), (CHR ''Y'', esc @ ''33;1m''),
      (CHR ''b'', esc @ ''34m''),
      (CHR ''m'', esc @ ''35m''), (CHR ''M'', esc @ ''35;1m''),
      (CHR ''c'', esc @ ''36m''), (CHR ''C'', esc @ ''36;1m''),
      (CHR ''w'', esc @ ''37m''), (CHR ''W'', esc @ ''37;1m''),
      (CHR ''B'', esc @ ''1m''), (CHR ''_'', esc @ ''4m'')]"

definition tag_ansi :: "char \<Rightarrow> string" where
  "tag_ansi c = (case map_of tag_table c of Some e \<Rightarrow> e | None \<Rightarrow> [])"

definition tag_char :: "char \<Rightarrow> bool" where
  "tag_char c = (is_word c \<or> c = CHR ''/'')"

fun replace_tags :: "(char \<Rightarrow> string) \<Rightarrow> string \<Rightarrow> string" where
  "replace_tags f (a # b # c # s) =
     (if a = CHR ''{'' \<and> tag_char b \<and> c = CHR ''}'' then f b @ replace_tags f s
      else a # replace_tags f (b # c # s))"
| "replace_tags f s = s"

definition to_ansi :: "string \<Rightarrow> string" where
  "to_ansi s = replace_tags tag_ansi s"

section \<open>mIRC codes\<close>

definition mirc_normal :: "(int \<times> string) list" where
  "mirc_normal =
     [(0, [CHR 0x0F]), (31, CHR 0x03 # ''05''), (32, CHR 0x03 # ''03''), (33, CHR 0x03 # ''07''),
      (34, CHR 0x03 # ''02''), (35, CHR 0x03 # ''06''), (36, CHR 0x03 # ''10''), (37, CHR 0x03 # ''15''),
      (4, [CHR 0x1F])]"

definition mirc_bold :: "(int \<times> string) list" where
  "mirc_bold =
     [(0, [CHR 0x0F]), (31, CHR 0x03 # ''04''), (32, CHR 0x03 # ''09''), (33, CHR 0x03 # ''08''),
      (34, CHR 0x03 # ''12''), (35, CHR 0x03 # ''13''), (36, CHR 0x03 # ''11''), (37, CHR 0x03 # ''00''),
      (4, [CHR 0x1F])]"

definition sgr_part :: "string \<Rightarrow> bool \<times> int list \<Rightarrow> bool \<times> int list" where
  \<comment> \<open>one parameter of an escape: the bold state and the codes that become mIRC codes\<close>
  "sgr_part part acc =
     (case acc of (bold, active) \<Rightarrow>
       (case atoi part of
          None \<Rightarrow> (bold, active)
        | Some code \<Rightarrow>
            if code = 1 then (True, active)
            else (if code = 0 then False else bold,
                  if map_of mirc_normal code = None then active else active @ [code])))"

definition mirc_code :: "bool \<Rightarrow> int \<Rightarrow> string" where
  "mirc_code bold code =
     (case map_of (if bold then mirc_bold else mirc_normal) code of Some s \<Rightarrow> s | None \<Rightarrow> [])"

definition sgr :: "string \<Rightarrow> bool \<Rightarrow> string \<times> bool" where
  "sgr params bold =
     (case fold sgr_part (split_on (CHR '';'') params) (bold, []) of
        (bold', active) \<Rightarrow> (concat (map (mirc_code bold') active), bold'))"

definition sgr_char :: "char \<Rightarrow> bool" where
  "sgr_char c = (is_digit c \<or> c = CHR '';'')"

definition escape_at :: "string \<Rightarrow> (string \<times> string) option" where
  \<comment> \<open>the regular expression \<open>\x1b\[([0-9;]*)m\<close> at the front: its group and the rest\<close>
  "escape_at s =
     (if take 2 s = esc then
        (case dropWhile sgr_char (drop 2 s) of
           c # r \<Rightarrow> if c = CHR ''m'' then Some (takeWhile sgr_char (drop 2 s), r) else None
         | [] \<Rightarrow> None)
      else None)"

lemma escape_at_shorter: "escape_at s = Some (p, r) \<Longrightarrow> length r < length s"
proof -
  assume e: "escape_at s = Some (p, r)"
  then have d: "dropWhile sgr_char (drop 2 s) = CHR ''m'' # r"
    by (auto simp: escape_at_def split: if_splits list.splits)
  have "length (dropWhile sgr_char (drop 2 s)) \<le> length s"
    using length_dropWhile_le [of sgr_char "drop 2 s"] by simp
  with d show ?thesis by simp
qed

function convert_escapes :: "bool \<Rightarrow> string \<Rightarrow> string" where
  "convert_escapes bold [] = []"
| "convert_escapes bold (c # s) =
     (case escape_at (c # s) of
        Some (p, r) \<Rightarrow>
          if p = [] then c # convert_escapes bold s
          else (case sgr p bold of (codes, bold') \<Rightarrow> codes @ convert_escapes bold' r)
      | None \<Rightarrow> c # convert_escapes bold s)"
  by pat_completeness auto
termination
  by (relation "measure (length \<circ> snd)") (auto dest: escape_at_shorter)

fun comma_fix :: "string \<Rightarrow> string" where
  "comma_fix (k # a # b # c # s) =
     (if k = CHR 0x03 \<and> is_digit a \<and> is_digit b \<and> c = CHR '','' then
        k # a # b # c # ''01,'' @ comma_fix s
      else k # comma_fix (a # b # c # s))"
| "comma_fix s = s"

definition ansi_to_mirc :: "string \<Rightarrow> string" where
  "ansi_to_mirc s = comma_fix (convert_escapes False s)"

definition to_irc_codes :: "string \<Rightarrow> string" where
  "to_irc_codes s = ansi_to_mirc (to_ansi s)"

section \<open>Removing the formatting\<close>

definition digits2 :: "string \<Rightarrow> nat" where
  \<comment> \<open>how many characters \<open>[0-9]{1,2}\<close> takes, 0 when it does not match\<close>
  "digits2 s = length (takeWhile is_digit (take 2 s))"

definition drop_colour :: "string \<Rightarrow> string" where
  \<comment> \<open>what follows \<open>(?:[0-9]{1,2}(?:,[0-9]{1,2})?)?\<close>\<close>
  "drop_colour s =
     (if digits2 s = 0 then s
      else (case drop (digits2 s) s of
          c # t \<Rightarrow> if c = CHR '','' \<and> 0 < digits2 t then drop (digits2 t) t else c # t
        | [] \<Rightarrow> []))"

lemma drop_colour_shorter: "length (drop_colour s) \<le> length s"
proof (cases "drop (digits2 s) s")
  case (Cons c t)
  then have "length (c # t) \<le> length s" by (metis length_drop diff_le_self)
  then have "length (drop (digits2 t) t) \<le> length s" by (simp only: length_drop) simp
  with Cons \<open>length (c # t) \<le> length s\<close> show ?thesis by (auto simp: drop_colour_def simp del: length_drop)
qed (simp add: drop_colour_def)

definition mark_char :: "char \<Rightarrow> bool" where
  "mark_char c = (c \<in> {CHR 0x02, CHR 0x0F, CHR 0x16, CHR 0x1D, CHR 0x1F})"

function strip_controls :: "string \<Rightarrow> string" where
  "strip_controls [] = []"
| "strip_controls (c # s) =
     (if c = CHR 0x03 then strip_controls (drop_colour s)
      else if mark_char c then strip_controls s
      else (case escape_at (c # s) of
              Some (p, r) \<Rightarrow> strip_controls r
            | None \<Rightarrow> c # strip_controls s))"
  by pat_completeness auto
termination
  by (relation "measure length")
    (use drop_colour_shorter escape_at_shorter in \<open>auto simp: less_Suc_eq_le dest!: escape_at_shorter\<close>)

definition strip :: "string \<Rightarrow> string" where
  "strip s = strip_controls (replace_tags (\<lambda>_. []) s)"

section \<open>Lemmas\<close>

lemma replace_tags_other: "c \<noteq> CHR ''{'' \<Longrightarrow> replace_tags f (c # s) = c # replace_tags f s"
  by (cases s; cases "tl s") auto

lemma replace_tags_tag: "tag_char c \<Longrightarrow> replace_tags f (CHR ''{'' # c # CHR ''}'' # s) = f c @ replace_tags f s"
  by simp

lemma replace_tags_text: "CHR ''{'' \<notin> set t \<Longrightarrow> replace_tags f (t @ s) = t @ replace_tags f s"
  by (induction t) (auto simp: replace_tags_other)

lemma comma_fix_other: "c \<noteq> CHR 0x03 \<Longrightarrow> comma_fix (c # s) = c # comma_fix s"
  by (cases s; cases "tl s"; cases "tl (tl s)") auto

lemma comma_fix_code:
  assumes "is_digit a" and "is_digit b"
  shows "comma_fix (CHR 0x03 # a # b # s) =
    CHR 0x03 # a # b # (if take 1 s = '','' then '',01'' else []) @ comma_fix s"
proof -
  have n: "a \<noteq> CHR 0x03" "b \<noteq> CHR 0x03" using assms by (auto simp: is_digit_def less_eq_char_def)
  show ?thesis
  proof (cases s)
    case Nil
    then show ?thesis by simp
  next
    case (Cons c r)
    then show ?thesis using assms n by (auto simp: comma_fix_other)
  qed
qed

lemma comma_fix_head: "take 1 (comma_fix s) = take 1 s"
  by (cases s rule: comma_fix.cases) auto

lemma digits2_code: "is_digit a \<Longrightarrow> is_digit b \<Longrightarrow> digits2 (a # b # s) = 2"
  by (simp add: digits2_def)

lemma strip_code:
  assumes "is_digit a" and "is_digit b"
  shows "strip_controls (comma_fix (CHR 0x03 # a # b # s)) = strip_controls (comma_fix s)"
proof (cases "take 1 s = '',''")
  case True
  then obtain r where s: "s = CHR '','' # r" by (cases s) auto
  have "digits2 (''01,'' @ comma_fix r) = 2" by (simp add: digits2_def is_digit_def)
  then have "drop_colour (a # b # CHR '','' # ''01,'' @ comma_fix r) = CHR '','' # comma_fix r"
    using digits2_code [OF assms] by (simp add: drop_colour_def)
  then show ?thesis
    by (simp only: comma_fix_code [OF assms] True if_True) (simp add: s comma_fix_other)
next
  case False
  then have "take 1 (comma_fix s) \<noteq> '',''" using comma_fix_head [of s] by metis
  then have "drop_colour (a # b # comma_fix s) = comma_fix s"
    using digits2_code [OF assms] by (cases "comma_fix s") (auto simp: drop_colour_def)
  with False show ?thesis using comma_fix_code [OF assms] by simp
qed

text \<open>A character that neither starts nor ends a code, and the codes the tables hold.\<close>

definition plain :: "char \<Rightarrow> bool" where
  "plain c = (c \<noteq> CHR 0x03 \<and> c \<noteq> CHR 0x1B \<and> \<not> mark_char c)"

definition is_code :: "string \<Rightarrow> bool" where
  "is_code s = (s = [] \<or> (\<exists>c. s = [c] \<and> mark_char c) \<or>
     (\<exists>a b. s = [CHR 0x03, a, b] \<and> is_digit a \<and> is_digit b))"

lemma escape_at_plain: "c \<noteq> CHR 0x1B \<Longrightarrow> escape_at (c # s) = None"
  by (simp add: escape_at_def esc_def)

lemma strip_plain: "plain c \<Longrightarrow> strip_controls (comma_fix (c # s)) = c # strip_controls (comma_fix s)"
  by (simp add: plain_def comma_fix_other escape_at_plain)

lemma strip_is_code: "is_code k \<Longrightarrow> strip_controls (comma_fix (k @ s)) = strip_controls (comma_fix s)"
proof -
  assume "is_code k"
  then consider "k = []" | c where "k = [c]" "mark_char c"
    | a b where "k = [CHR 0x03, a, b]" "is_digit a" "is_digit b"
    unfolding is_code_def by blast
  then show ?thesis
  proof cases
    case (2 c)
    then have "c \<noteq> CHR 0x03" by (auto simp: mark_char_def)
    with 2 show ?thesis by (simp add: comma_fix_other)
  next
    case (3 a b)
    then show ?thesis using strip_code by simp
  qed simp
qed

text \<open>What the tags become: every known tag is one code or none.\<close>

definition sgr_params :: "char \<Rightarrow> string" where
  "sgr_params c = takeWhile sgr_char (drop 2 (tag_ansi c))"

lemma known_tags:
  assumes "map_of tag_table c \<noteq> None"
  shows "c \<in> set ''/rRgGyYbmMcCwWB_''"
  using assms by (auto simp: tag_table_def split: if_splits)

lemma tag_escape:
  assumes "c \<in> set ''/rRgGyYbmMcCwWB_''"
  shows "tag_char c" and "sgr_params c \<noteq> []" and "escape_at (tag_ansi c @ s) = Some (sgr_params c, s)"
    and "is_code (fst (sgr (sgr_params c) bold))"
proof -
  note table = tag_ansi_def tag_table_def esc_def sgr_params_def sgr_char_def is_digit_def less_eq_char_def
  have c: "c = CHR ''/'' \<or> c = CHR ''r'' \<or> c = CHR ''R'' \<or> c = CHR ''g'' \<or> c = CHR ''G'' \<or>
    c = CHR ''y'' \<or> c = CHR ''Y'' \<or> c = CHR ''b'' \<or> c = CHR ''m'' \<or> c = CHR ''M'' \<or>
    c = CHR ''c'' \<or> c = CHR ''C'' \<or> c = CHR ''w'' \<or> c = CHR ''W'' \<or> c = CHR ''B'' \<or> c = CHR ''_''"
    using assms by simp
  show "tag_char c"
    using c by (elim disjE) (simp_all add: tag_char_def is_word_def is_digit_def is_upper_def
      is_lower_def less_eq_char_def)
  show "sgr_params c \<noteq> []"
    using c by (elim disjE) (simp_all add: table)
  show "escape_at (tag_ansi c @ s) = Some (sgr_params c, s)"
    using c by (elim disjE) (simp_all add: table escape_at_def)
  have a: "atoi ''0'' = Some 0" "atoi ''1'' = Some 1" "atoi ''4'' = Some 4" "atoi ''31'' = Some 31"
    "atoi ''32'' = Some 32" "atoi ''33'' = Some 33" "atoi ''34'' = Some 34" "atoi ''35'' = Some 35"
    "atoi ''36'' = Some 36" "atoi ''37'' = Some 37"
    by (simp_all add: atoi_def parse_nat_def is_digit_def less_eq_char_def digits_val_def int_in_range_def)
  show "is_code (fst (sgr (sgr_params c) bold))"
    using c by (elim disjE) (simp_all add: table sgr_def sgr_part_def a mirc_code_def mirc_normal_def
      mirc_bold_def is_code_def mark_char_def)
qed

section \<open>Properties\<close>

text \<open>Module output as its author sees it: tags and text.\<close>

datatype piece = Tag char | Text string

primrec piece_str :: "(char \<Rightarrow> string) \<Rightarrow> piece \<Rightarrow> string" where
  "piece_str f (Tag c) = f c"
| "piece_str f (Text t) = t"

definition render :: "(char \<Rightarrow> string) \<Rightarrow> piece list \<Rightarrow> string" where
  "render f ps = concat (map (piece_str f) ps)"

definition tagged :: "piece list \<Rightarrow> string" where
  "tagged ps = render (\<lambda>c. [CHR ''{'', c, CHR ''}'']) ps"

definition visible :: "piece list \<Rightarrow> string" where
  "visible ps = render (\<lambda>_. []) ps"

primrec piece_ok :: "piece \<Rightarrow> bool" where
  "piece_ok (Tag c) = (map_of tag_table c \<noteq> None)"
| "piece_ok (Text t) = (\<forall>c \<in> set t. plain c \<and> c \<noteq> CHR ''{'')"

lemma render_simps [simp]: "render f [] = []" "render f (p # ps) = piece_str f p @ render f ps"
  by (simp_all add: render_def)

lemma replace_tags_pieces:
  "\<forall>p \<in> set ps. piece_ok p \<Longrightarrow> replace_tags f (tagged ps) = render f ps"
proof (induction ps)
  case (Cons p ps)
  show ?case
  proof (cases p)
    case (Tag c)
    then have "tag_char c" using Cons.prems known_tags tag_escape(1) by auto
    then show ?thesis using Cons Tag by (simp add: tagged_def)
  next
    case (Text t)
    then have "CHR ''{'' \<notin> set t" using Cons.prems by auto
    then show ?thesis using Cons Text by (simp add: tagged_def replace_tags_text)
  qed
qed (simp add: tagged_def)

lemma convert_plain:
  "\<forall>c \<in> set t. plain c \<Longrightarrow> convert_escapes b (t @ s) = t @ convert_escapes b s"
  by (induction t) (auto simp: escape_at_plain plain_def)

lemma convert_tag:
  assumes "map_of tag_table c \<noteq> None"
  shows "convert_escapes b (tag_ansi c @ s) =
    fst (sgr (sgr_params c) b) @ convert_escapes (snd (sgr (sgr_params c) b)) s"
proof -
  note e = tag_escape(3) [OF known_tags [OF assms]] and ne = tag_escape(2) [OF known_tags [OF assms]]
  have "take 2 (tag_ansi c @ s) = esc"
    using e [of s] by (simp only: escape_at_def option.distinct split: if_splits)
  then obtain x xs where x: "tag_ansi c @ s = x # xs" by (cases "tag_ansi c @ s") (auto simp: esc_def)
  have "convert_escapes b (x # xs) = fst (sgr (sgr_params c) b) @ convert_escapes (snd (sgr (sgr_params c) b)) s"
    using e [of s] ne unfolding x by (simp add: case_prod_beta')
  then show ?thesis unfolding x .
qed

lemma strip_plain_text:
  "\<forall>c \<in> set t. plain c \<Longrightarrow> strip_controls (comma_fix (t @ s)) = t @ strip_controls (comma_fix s)"
  by (induction t) (simp_all add: strip_plain)

lemma strip_converted:
  "\<forall>p \<in> set ps. piece_ok p \<Longrightarrow>
     strip_controls (comma_fix (convert_escapes b (render tag_ansi ps))) = visible ps"
proof (induction ps arbitrary: b)
  case (Cons p ps)
  show ?case
  proof (cases p)
    case (Tag c)
    then have c: "map_of tag_table c \<noteq> None" using Cons.prems by simp
    show ?thesis
      using Cons Tag c tag_escape(4) [OF known_tags [OF c]]
      by (simp add: convert_tag strip_is_code visible_def)
  next
    case (Text t)
    then have "\<forall>c \<in> set t. plain c" using Cons.prems by auto
    then show ?thesis using Cons Text by (simp add: convert_plain strip_plain_text visible_def)
  qed
qed (simp add: visible_def)

lemma set_comma_fix: "set (comma_fix s) \<subseteq> set s \<union> set ''01,''"
  by (induction s rule: comma_fix.induct) auto

lemma no_brace_converted:
  "\<forall>p \<in> set ps. piece_ok p \<Longrightarrow> CHR ''{'' \<notin> set (convert_escapes b (render tag_ansi ps))"
proof (induction ps arbitrary: b)
  case (Cons p ps)
  show ?case
  proof (cases p)
    case (Tag c)
    then have c: "map_of tag_table c \<noteq> None" using Cons.prems by simp
    have "CHR ''{'' \<notin> set k" if "is_code k" for k
      using that by (auto simp: is_code_def mark_char_def is_digit_def less_eq_char_def)
    then show ?thesis using Cons Tag c tag_escape(4) [OF known_tags [OF c]] by (auto simp: convert_tag)
  next
    case (Text t)
    then show ?thesis using Cons by (auto simp: convert_plain)
  qed
qed simp

text \<open>
  C23. Colour codes do not touch the text. Output made of known tags and of text without braces and
  control bytes shows, after its conversion to mIRC codes and with all codes removed again as a
  client or the log does, exactly the text: no digit or comma after a tag is taken as part of a
  colour code. Removing the tags directly gives the same.
\<close>

theorem colours_keep_text:
  assumes "\<forall>p \<in> set ps. piece_ok p"
  shows "strip (to_irc_codes (tagged ps)) = visible ps \<and> strip (tagged ps) = visible ps"
proof
  let ?out = "comma_fix (convert_escapes False (render tag_ansi ps))"
  have "to_irc_codes (tagged ps) = ?out"
    using assms by (simp add: to_irc_codes_def ansi_to_mirc_def to_ansi_def replace_tags_pieces)
  moreover have "CHR ''{'' \<notin> set ?out"
    using no_brace_converted [OF assms] set_comma_fix by fastforce
  then have "replace_tags (\<lambda>_. []) ?out = ?out"
    using replace_tags_text [of ?out _ "[]"] by simp
  ultimately show "strip (to_irc_codes (tagged ps)) = visible ps"
    using strip_converted [OF assms] by (simp add: strip_def)
  have "strip_controls s = s" if "\<forall>c \<in> set s. plain c" for s
    using that by (induction s) (auto simp: plain_def escape_at_plain)
  moreover have "\<forall>c \<in> set (visible ps). plain c"
    using assms by (induction ps) (auto simp: visible_def, (case_tac a; auto)+)
  ultimately show "strip (tagged ps) = visible ps"
    using assms by (simp add: strip_def replace_tags_pieces visible_def)
qed

lemma colours_keep_text_witness:
  "strip (to_irc_codes ''{R},5 men{/}!'') = '',5 men!''"
proof -
  have "piece_ok (Tag (CHR ''R''))" "piece_ok (Tag (CHR ''/''))" "piece_ok (Text '',5 men'')" "piece_ok (Text ''!'')"
    by (simp_all add: tag_table_def plain_def mark_char_def)
  then show ?thesis
    using colours_keep_text [of "[Tag (CHR ''R''), Text '',5 men'', Tag (CHR ''/''), Text ''!'']"]
    by (simp add: tagged_def visible_def)
qed

end
