(* ===== verification/Rvf_Game.thy ===== *)
theory Rvf_Game
  imports Go_Utf8
begin

text \<open>
  modules/rvf/game.go: one puzzle of Rad van Fortuin. A game is the record of the code, its methods
  are functions on it. \<open>None\<close> is a panic: reading the current player, or taking the remainder by the
  number of players, of a game that has no players. \<open>Guessed\<close> is kept as an association list and the
  players as a list changed by index, which is what the pointers of the code amount to, since no
  player is shared between games.
\<close>

section \<open>Data\<close>

datatype segment_kind = SegMoney | SegBankrupt | SegLoseTurn | SegJoker

type_synonym segment = "segment_kind \<times> int"

definition wheel :: "segment list" where
  "wheel =
     [(SegMoney, 50), (SegMoney, 150),
      (SegMoney, 200), (SegMoney, 200), (SegMoney, 200),
      (SegMoney, 300), (SegMoney, 350),
      (SegMoney, 400), (SegMoney, 400), (SegMoney, 400),
      (SegMoney, 450), (SegMoney, 450),
      (SegMoney, 550),
      (SegMoney, 600), (SegMoney, 600), (SegMoney, 600),
      (SegMoney, 700), (SegMoney, 750),
      (SegMoney, 800), (SegMoney, 800),
      (SegMoney, 1000),
      (SegBankrupt, 0), (SegLoseTurn, 0), (SegJoker, 0)]"

datatype game_state = StateAction | StateLetter

datatype outcome_kind = OutHit | OutMiss | OutInvalid | OutBroke

record outcome =
  o_kind :: outcome_kind
  o_count :: int
  o_amount :: int
  o_dup :: bool
  o_joker_saved :: bool

record spin_fx =
  fx_joker_saved :: bool
  fx_lost :: int

record player =
  p_nick :: string
  p_money :: int
  p_joker :: bool
  p_missed :: int

record game =
  g_lang :: string
  g_category :: string
  g_puzzle :: string
  g_guessed :: "(string \<times> bool) list"
  g_players :: "player list"
  g_turn :: nat
  g_state :: game_state
  g_pending :: int
  g_query :: bool
  g_done :: bool

definition vowels :: string where "vowels = ''AEIOU''"

definition new_game :: "string \<Rightarrow> string \<Rightarrow> string \<Rightarrow> string list \<Rightarrow> game" where
  "new_game lang category puzzle nicks =
     \<lparr>g_lang = lang, g_category = category, g_puzzle = go_upper puzzle, g_guessed = [],
      g_players = map (\<lambda>n. \<lparr>p_nick = n, p_money = 0, p_joker = False, p_missed = 0\<rparr>) nicks,
      g_turn = 0, g_state = StateAction, g_pending = 0, g_query = False, g_done = False\<rparr>"

section \<open>Turns\<close>

definition current :: "game \<Rightarrow> player option" where
  "current g = (if g_turn g < length (g_players g) then Some (g_players g ! g_turn g) else None)"

definition set_current :: "(player \<Rightarrow> player) \<Rightarrow> game \<Rightarrow> game option" where
  \<comment> \<open>an assignment through the pointer \<open>g.Current()\<close>\<close>
  "set_current f g =
     (case current g of
        None \<Rightarrow> None
      | Some p \<Rightarrow> Some (g\<lparr>g_players := (g_players g)[g_turn g := f p]\<rparr>))"

definition is_current :: "string \<Rightarrow> game \<Rightarrow> bool option" where
  "is_current nick g = map_option (\<lambda>p. equal_fold (p_nick p) nick) (current g)"

definition is_player :: "string \<Rightarrow> game \<Rightarrow> bool" where
  "is_player nick g = list_ex (\<lambda>p. equal_fold (p_nick p) nick) (g_players g)"

definition advance :: "game \<Rightarrow> game option" where
  "advance g =
     (if g_players g = [] then None
      else Some (g\<lparr>g_turn := (g_turn g + 1) mod length (g_players g), g_state := StateAction,
                   g_pending := 0\<rparr>))"

definition lose_turn :: "game \<Rightarrow> (bool \<times> game) option" where
  "lose_turn g =
     (case current g of
        None \<Rightarrow> None
      | Some p \<Rightarrow>
          if p_joker p then
            map_option (\<lambda>g'. (True, g'\<lparr>g_state := StateAction, g_pending := 0\<rparr>))
              (set_current (\<lambda>p. p\<lparr>p_joker := False\<rparr>) g)
          else map_option (\<lambda>g'. (False, g')) (advance g))"

section \<open>Moves\<close>

definition spin :: "nat \<Rightarrow> game \<Rightarrow> (segment \<times> spin_fx \<times> game) option" where
  "spin idx g =
     (let seg = wheel ! (idx mod length wheel); no_fx = \<lparr>fx_joker_saved = False, fx_lost = 0\<rparr> in
      case fst seg of
        SegMoney \<Rightarrow> Some (seg, no_fx, g\<lparr>g_state := StateLetter, g_pending := snd seg\<rparr>)
      | SegBankrupt \<Rightarrow>
          (case current g of
             None \<Rightarrow> None
           | Some p \<Rightarrow>
               (case set_current (\<lambda>p. p\<lparr>p_money := 0\<rparr>) g of
                  None \<Rightarrow> None
                | Some g' \<Rightarrow>
                    map_option (\<lambda>(saved, g2). (seg, \<lparr>fx_joker_saved = saved, fx_lost = p_money p\<rparr>, g2))
                      (lose_turn g')))
      | SegLoseTurn \<Rightarrow>
          map_option (\<lambda>(saved, g2). (seg, \<lparr>fx_joker_saved = saved, fx_lost = 0\<rparr>, g2)) (lose_turn g)
      | SegJoker \<Rightarrow>
          map_option (\<lambda>g2. (seg, no_fx, g2\<lparr>g_state := StateAction\<rparr>))
            (set_current (\<lambda>p. p\<lparr>p_joker := True\<rparr>) g))"

function str_count :: "string \<Rightarrow> string \<Rightarrow> nat" where
  \<comment> \<open>\<open>strings.Count(s, sub)\<close> for a substring that is not empty\<close>
  "str_count sub [] = 0"
| "str_count sub (c # s) =
     (if sub \<noteq> [] \<and> has_prefix sub (c # s) then 1 + str_count sub (drop (length sub - 1) s)
      else str_count sub s)"
  by pat_completeness auto
termination by (relation "measure (length \<circ> snd)") auto

definition count_letter :: "string \<Rightarrow> game \<Rightarrow> int" where
  "count_letter letter g = int (str_count letter (g_puzzle g))"

definition guessed :: "string \<Rightarrow> game \<Rightarrow> bool" where
  "guessed l g = (map_of (g_guessed g) l = Some True)"

definition a_letter :: "string \<Rightarrow> bool" where
  \<comment> \<open>one byte between A and Z\<close>
  "a_letter l = (length l = 1 \<and> is_upper (hd l))"

definition a_vowel :: "string \<Rightarrow> bool" where
  \<comment> \<open>\<open>len(l) == 1 && strings.ContainsAny(l, vowels)\<close>\<close>
  "a_vowel l = (length l = 1 \<and> hd l \<in> set vowels)"

definition no_outcome :: "outcome_kind \<Rightarrow> outcome" where
  "no_outcome k = \<lparr>o_kind = k, o_count = 0, o_amount = 0, o_dup = False, o_joker_saved = False\<rparr>"

definition miss :: "bool \<Rightarrow> game \<Rightarrow> (outcome \<times> game) option" where
  "miss dup g =
     map_option (\<lambda>(saved, g'). ((no_outcome OutMiss)\<lparr>o_dup := dup, o_joker_saved := saved\<rparr>, g'))
       (lose_turn g)"

definition call_letter :: "string \<Rightarrow> game \<Rightarrow> (outcome \<times> game) option" where
  "call_letter letter g =
     (let l = go_upper (trim_space letter) in
      if \<not> a_letter l \<or> a_vowel l then Some (no_outcome OutInvalid, g)
      else if guessed l g then miss True g
      else
        (let g1 = g\<lparr>g_guessed := AList.update l True (g_guessed g)\<rparr>; n = count_letter l g1 in
         if n = 0 then miss False g1
         else
           (let won = g_pending g1 * n in
            map_option (\<lambda>g2. ((no_outcome OutHit)\<lparr>o_count := n, o_amount := won\<rparr>,
                              g2\<lparr>g_state := StateAction, g_pending := 0\<rparr>))
              (set_current (\<lambda>p. p\<lparr>p_money := p_money p + won\<rparr>) g1))))"

definition buy_vowel :: "string \<Rightarrow> int \<Rightarrow> game \<Rightarrow> (outcome \<times> game) option" where
  "buy_vowel letter cost g =
     (let l = go_upper (trim_space letter) in
      if \<not> a_vowel l \<or> guessed l g then Some (no_outcome OutInvalid, g)
      else
        (case current g of
           None \<Rightarrow> None
         | Some p \<Rightarrow>
             if p_money p < cost then Some (no_outcome OutBroke, g)
             else
               (case set_current (\<lambda>p. p\<lparr>p_money := p_money p - cost\<rparr>) g of
                  None \<Rightarrow> None
                | Some g0 \<Rightarrow>
                    (let g1 = g0\<lparr>g_guessed := AList.update l True (g_guessed g0)\<rparr>;
                         n = count_letter l g1 in
                     if n = 0 then miss False g1
                     else Some ((no_outcome OutHit)\<lparr>o_count := n\<rparr>, g1)))))"

definition letter_rune :: "nat \<Rightarrow> bool" where
  "letter_rune r = (0x41 \<le> r \<and> r \<le> 0x5A)"

fun norm_runes :: "bool \<Rightarrow> nat list \<Rightarrow> string" where
  \<comment> \<open>the loop of \<open>normalize\<close>; the flag is its variable \<open>space\<close>\<close>
  "norm_runes space [] = []"
| "norm_runes space (r # rs) =
     (if letter_rune r then encode_rune r @ norm_runes False rs
      else if \<not> space then '' '' @ norm_runes True rs
      else norm_runes space rs)"

definition normalize_text :: "string \<Rightarrow> string" where
  "normalize_text s = trim_space (norm_runes True (runes (go_upper s)))"

definition solve :: "string \<Rightarrow> game \<Rightarrow> (bool \<times> game) option" where
  "solve attempt g =
     (if normalize_text attempt = normalize_text (g_puzzle g) then Some (True, g\<lparr>g_done := True\<rparr>)
      else map_option (\<lambda>g'. (False, g')) (advance g))"

definition pass :: "game \<Rightarrow> game option" where
  "pass g = advance g"

definition drop_current :: "game \<Rightarrow> (string \<times> game) option" where
  "drop_current g =
     (case current g of
        None \<Rightarrow> None
      | Some p \<Rightarrow>
          (let ps = take (g_turn g) (g_players g) @ drop (g_turn g + 1) (g_players g) in
           Some (p_nick p,
             g\<lparr>g_players := ps, g_turn := (if 0 < length ps then g_turn g mod length ps else 0),
               g_state := StateAction, g_pending := 0\<rparr>)))"

section \<open>Display\<close>

definition wrong_guesses :: "game \<Rightarrow> string list" where
  "wrong_guesses g = sort (filter (\<lambda>l. count_letter l g = 0) (map fst (g_guessed g)))"

definition block_rune :: nat where "block_rune = 0x2591"

definition board_rune :: "game \<Rightarrow> nat \<Rightarrow> nat" where
  "board_rune g r = (if letter_rune r \<and> \<not> guessed (encode_rune r) g then block_rune else r)"

definition board :: "game \<Rightarrow> string" where
  "board g = concat (map (encode_rune \<circ> board_rune g) (runes (g_puzzle g)))"

section \<open>The invariant of a game\<close>

definition player_ok :: "player \<Rightarrow> bool" where
  "player_ok p = (0 \<le> p_money p)"

definition guess_ok :: "string \<times> bool \<Rightarrow> bool" where
  "guess_ok e = (a_letter (fst e) \<and> snd e)"

definition game_inv :: "game \<Rightarrow> bool" where
  "game_inv g =
     ((if g_players g = [] then g_turn g = 0 else g_turn g < length (g_players g)) \<and>
      (g_state g = StateAction \<longrightarrow> g_pending g = 0) \<and> 0 \<le> g_pending g \<and>
      list_all player_ok (g_players g) \<and> wf_map (g_guessed g) \<and> (\<forall>e \<in> set (g_guessed g). guess_ok e))"

lemma current_some:
  "game_inv g \<Longrightarrow> g_players g \<noteq> [] \<Longrightarrow> \<exists>p. current g = Some p \<and> p \<in> set (g_players g)"
  by (simp add: game_inv_def current_def)

lemma set_current_some:
  assumes "game_inv g" and "g_players g \<noteq> []"
  shows "set_current f g =
    Some (g\<lparr>g_players := (g_players g)[g_turn g := f (g_players g ! g_turn g)]\<rparr>)"
  using assms by (simp add: game_inv_def set_current_def current_def)

lemma money_update:
  "list_all player_ok ps \<Longrightarrow> player_ok q \<Longrightarrow> list_all player_ok (ps[i := q])"
  by (auto simp: list_all_iff dest!: set_update_subset_insert [THEN subsetD])

lemma turn_next: "ps \<noteq> [] \<Longrightarrow> (n + 1) mod length ps < length ps"
  by simp

lemma advance_inv:
  assumes "game_inv g" and "g_players g \<noteq> []"
  shows "\<exists>g'. advance g = Some g' \<and> game_inv g' \<and> g_players g' \<noteq> []"
  using assms by (simp add: advance_def game_inv_def)

lemma lose_turn_inv:
  assumes "game_inv g" and "g_players g \<noteq> []"
  shows "\<exists>b g'. lose_turn g = Some (b, g') \<and> game_inv g' \<and> g_players g' \<noteq> []"
proof -
  obtain p where p: "current g = Some p" "p \<in> set (g_players g)" using current_some [OF assms] by blast
  show ?thesis
  proof (cases "p_joker p")
    case True
    have "player_ok ((g_players g ! g_turn g)\<lparr>p_joker := False\<rparr>)"
      using assms by (auto simp: game_inv_def player_ok_def list_all_length)
    then show ?thesis
      using True p assms set_current_some [OF assms]
      by (auto simp: lose_turn_def game_inv_def money_update)
  next
    case False
    then show ?thesis using p advance_inv [OF assms] by (auto simp: lose_turn_def)
  qed
qed

lemma miss_inv:
  assumes "game_inv g" and "g_players g \<noteq> []"
  shows "\<exists>out g'. miss dup g = Some (out, g') \<and> game_inv g' \<and> g_players g' \<noteq> []"
  using lose_turn_inv [OF assms] by (auto simp: miss_def)

lemma wheel_amount: "0 \<le> snd (wheel ! (idx mod length wheel))"
proof -
  have "wheel ! (idx mod length wheel) \<in> set wheel" by (rule nth_mem) (simp add: wheel_def)
  moreover have "\<forall>s \<in> set wheel. 0 \<le> snd s" by (simp add: wheel_def)
  ultimately show ?thesis by blast
qed

lemma current_ok:
  assumes "game_inv g" and "current g = Some p"
  shows "player_ok p"
  using assms by (auto simp: game_inv_def current_def list_all_length split: if_splits)

lemma spin_inv:
  assumes g: "game_inv g" and ps: "g_players g \<noteq> []" and act: "g_state g = StateAction"
  shows "\<exists>seg fx g'. spin idx g = Some (seg, fx, g') \<and> game_inv g' \<and> g_players g' \<noteq> []"
proof (cases "fst (wheel ! (idx mod length wheel))")
  case SegMoney
  then show ?thesis using g ps wheel_amount [of idx] by (simp add: spin_def game_inv_def)
next
  case SegBankrupt
  obtain p where p: "current g = Some p" using current_some [OF g ps] by blast
  let ?g = "g\<lparr>g_players := (g_players g)[g_turn g := (g_players g ! g_turn g)\<lparr>p_money := 0\<rparr>]\<rparr>"
  have "game_inv ?g" "g_players ?g \<noteq> []"
    using g ps by (simp_all add: game_inv_def money_update player_ok_def)
  from lose_turn_inv [OF this] show ?thesis
    using SegBankrupt p by (auto simp: spin_def set_current_some [OF g ps])
next
  case SegLoseTurn
  then show ?thesis using lose_turn_inv [OF g ps] by (auto simp: spin_def)
next
  case SegJoker
  obtain p where p: "current g = Some p" using current_some [OF g ps] by blast
  have "player_ok ((g_players g ! g_turn g)\<lparr>p_joker := True\<rparr>)"
    using g ps by (auto simp: game_inv_def player_ok_def list_all_length)
  then show ?thesis
    using SegJoker g ps act by (simp add: spin_def set_current_some [OF g ps] game_inv_def money_update)
qed

lemma guess_inv:
  assumes "game_inv g" and "a_letter l"
  shows "game_inv (g\<lparr>g_guessed := AList.update l True (g_guessed g)\<rparr>)"
proof -
  have "\<forall>e \<in> set (AList.update l True (g_guessed g)). guess_ok e"
    using assms by (intro update_all) (simp_all add: game_inv_def guess_ok_def)
  then show ?thesis using assms by (simp add: game_inv_def)
qed

lemma count_nonneg [simp]: "0 \<le> count_letter l g"
  by (simp add: count_letter_def)

lemma vowel_letter: "a_vowel l \<Longrightarrow> a_letter l"
  by (auto simp: a_vowel_def a_letter_def vowels_def is_upper_def less_eq_char_def)

lemma call_letter_inv:
  assumes g: "game_inv g" and ps: "g_players g \<noteq> []"
  shows "\<exists>out g'. call_letter letter g = Some (out, g') \<and> game_inv g' \<and> g_players g' \<noteq> []"
proof -
  define l where "l = go_upper (trim_space letter)"
  let ?g = "g\<lparr>g_guessed := AList.update l True (g_guessed g)\<rparr>"
  consider "\<not> a_letter l \<or> a_vowel l" | "a_letter l" "\<not> a_vowel l" "guessed l g"
    | "a_letter l" "\<not> a_vowel l" "\<not> guessed l g" by blast
  then show ?thesis
  proof cases
    case 1
    then show ?thesis using g ps by (auto simp: call_letter_def l_def)
  next
    case 2
    then show ?thesis using miss_inv [OF g ps] by (simp add: call_letter_def l_def)
  next
    case 3
    have g1: "game_inv ?g" and ps1: "g_players ?g \<noteq> []" using guess_inv [OF g] 3 ps by simp_all
    show ?thesis
    proof (cases "count_letter l ?g = 0")
      case True
      then show ?thesis using 3 miss_inv [OF g1 ps1] by (simp add: call_letter_def l_def)
    next
      case False
      let ?won = "g_pending ?g * count_letter l ?g"
      have "0 \<le> ?won" using g by (simp add: game_inv_def)
      then have "player_ok ((g_players g ! g_turn g)\<lparr>p_money := p_money (g_players g ! g_turn g) + ?won\<rparr>)"
        using g ps by (simp add: game_inv_def player_ok_def list_all_length)
      then show ?thesis
        using 3 False g1 ps set_current_some [OF g1 ps1]
        by (simp add: call_letter_def flip: l_def) (simp add: game_inv_def money_update)
    qed
  qed
qed

lemma buy_vowel_inv:
  assumes g: "game_inv g" and ps: "g_players g \<noteq> []"
  shows "\<exists>out g'. buy_vowel letter cost g = Some (out, g') \<and> game_inv g' \<and> g_players g' \<noteq> []"
proof -
  define l where "l = go_upper (trim_space letter)"
  obtain p where p: "current g = Some p" using current_some [OF g ps] by blast
  consider "\<not> a_vowel l \<or> guessed l g" | "a_vowel l" "\<not> guessed l g" "p_money p < cost"
    | "a_vowel l" "\<not> guessed l g" "\<not> p_money p < cost" by blast
  then show ?thesis
  proof cases
    case 1
    then show ?thesis using g ps by (auto simp: buy_vowel_def l_def)
  next
    case 2
    then show ?thesis using g ps p by (simp add: buy_vowel_def l_def)
  next
    case 3
    let ?g0 = "g\<lparr>g_players := (g_players g)[g_turn g := (g_players g ! g_turn g)
      \<lparr>p_money := p_money (g_players g ! g_turn g) - cost\<rparr>]\<rparr>"
    let ?g1 = "?g0\<lparr>g_guessed := AList.update l True (g_guessed ?g0)\<rparr>"
    have "p = g_players g ! g_turn g" using p by (auto simp: current_def split: if_splits)
    then have "game_inv ?g0" using g 3 ps by (simp add: game_inv_def money_update player_ok_def)
    then have g1: "game_inv ?g1" and ps1: "g_players ?g1 \<noteq> []"
      using guess_inv [OF _ vowel_letter [OF 3(1)], of ?g0] ps by simp_all
    show ?thesis
    proof (cases "count_letter l ?g1 = 0")
      case True
      then show ?thesis
        using 3 p miss_inv [OF g1 ps1] by (simp add: buy_vowel_def set_current_some [OF g ps] flip: l_def)
    next
      case False
      then show ?thesis
        using 3 p g1 ps1 by (simp add: buy_vowel_def set_current_some [OF g ps] flip: l_def)
    qed
  qed
qed

lemma solve_inv:
  assumes "game_inv g" and "g_players g \<noteq> []"
  shows "\<exists>b g'. solve attempt g = Some (b, g') \<and> game_inv g' \<and> g_players g' \<noteq> []"
proof (cases "normalize_text attempt = normalize_text (g_puzzle g)")
  case True
  then show ?thesis using assms by (auto simp: solve_def game_inv_def)
next
  case False
  then show ?thesis using advance_inv [OF assms] by (auto simp: solve_def)
qed

lemma drop_current_inv:
  assumes "game_inv g" and "g_players g \<noteq> []"
  shows "\<exists>n g'. drop_current g = Some (n, g') \<and> game_inv g' \<and>
    length (g_players g') = length (g_players g) - 1"
proof -
  obtain p where p: "current g = Some p" using current_some [OF assms] by blast
  let ?ps = "take (g_turn g) (g_players g) @ drop (g_turn g + 1) (g_players g)"
  have "list_all player_ok ?ps"
    using assms by (auto simp: game_inv_def list_all_iff dest: in_set_takeD in_set_dropD)
  moreover have "g_turn g < length (g_players g)" using assms by (simp add: game_inv_def)
  ultimately show ?thesis
    using assms p by (auto simp: drop_current_def game_inv_def)
qed

section \<open>Playing\<close>

text \<open>
  The moves the module makes: spin, buy, solve and pass while an action is owed, a letter while a
  consonant is owed, and the removal of a player who sleeps. Without players the module ends the game.
\<close>

datatype move = M_spin nat | M_call string | M_buy string int | M_solve string | M_pass | M_drop

primrec allowed :: "move \<Rightarrow> game_state \<Rightarrow> bool" where
  "allowed (M_spin i) st = (st = StateAction)"
| "allowed (M_call l) st = (st = StateLetter)"
| "allowed (M_buy l c) st = (st = StateAction)"
| "allowed (M_solve a) st = (st = StateAction)"
| "allowed M_pass st = True"
| "allowed M_drop st = True"

primrec play :: "move \<Rightarrow> game \<Rightarrow> game option" where
  "play (M_spin i) g = map_option (\<lambda>r. snd (snd r)) (spin i g)"
| "play (M_call l) g = map_option snd (call_letter l g)"
| "play (M_buy l c) g = map_option snd (buy_vowel l c g)"
| "play (M_solve a) g = map_option snd (solve a g)"
| "play M_pass g = pass g"
| "play M_drop g = map_option snd (drop_current g)"

fun play_all :: "move list \<Rightarrow> game \<Rightarrow> game option" where
  "play_all [] g = Some g"
| "play_all (mv # mvs) g =
     (if g_players g = [] \<or> \<not> allowed mv (g_state g) then play_all mvs g
      else (case play mv g of None \<Rightarrow> None | Some g' \<Rightarrow> play_all mvs g'))"

lemma play_inv:
  assumes g: "game_inv g" and ps: "g_players g \<noteq> []" and al: "allowed mv (g_state g)"
  shows "\<exists>g'. play mv g = Some g' \<and> game_inv g'"
proof (cases mv)
  case (M_spin i)
  with al have "g_state g = StateAction" by simp
  then obtain seg fx g' where "spin i g = Some (seg, fx, g')" "game_inv g'"
    using spin_inv [OF g ps] by blast
  with M_spin show ?thesis by simp
next
  case (M_call l)
  obtain out g' where "call_letter l g = Some (out, g')" "game_inv g'"
    using call_letter_inv [OF g ps] by blast
  with M_call show ?thesis by simp
next
  case (M_buy l c)
  obtain out g' where "buy_vowel l c g = Some (out, g')" "game_inv g'"
    using buy_vowel_inv [OF g ps] by blast
  with M_buy show ?thesis by simp
next
  case (M_solve a)
  obtain b g' where "solve a g = Some (b, g')" "game_inv g'" using solve_inv [OF g ps] by blast
  with M_solve show ?thesis by simp
next
  case M_pass
  then show ?thesis using advance_inv [OF g ps] by (auto simp: pass_def)
next
  case M_drop
  obtain n g' where "drop_current g = Some (n, g')" "game_inv g'"
    using drop_current_inv [OF g ps] by blast
  with M_drop show ?thesis by simp
qed

lemma new_game_inv: "game_inv (new_game lang cat puzzle nicks)"
  by (simp add: new_game_def game_inv_def list_all_iff player_ok_def)

lemma play_all_inv: "game_inv g \<Longrightarrow> \<exists>g'. play_all mvs g = Some g' \<and> game_inv g'"
proof (induction mvs g rule: play_all.induct)
  case (2 mv mvs g)
  then show ?case using play_inv [of g mv] by (cases "g_players g = [] \<or> \<not> allowed mv (g_state g)") auto
qed simp

text \<open>
  C18. A game never panics and stays well formed. Whatever is spun, called, bought, solved, passed
  and dropped from a new game, as long as each move is one the state of the game allows, every step
  returns a game: its turn points at a player while there are players, no money is negative, an amount
  is only pending while a consonant is owed, and the used letters are distinct capital letters.
\<close>

theorem game_never_panics:
  "\<exists>g. play_all mvs (new_game lang category puzzle nicks) = Some g \<and> game_inv g"
  by (rule play_all_inv [OF new_game_inv])

section \<open>The board\<close>

lemma str_count_char: "str_count [c] s = length (filter (\<lambda>x. x = c) s)"
  by (induction s) (auto simp: has_prefix_def)

lemma scalar_runes: "\<forall>r \<in> set (runes s). scalar r"
  using scalar_decode by (auto simp: runes_def)

lemma board_runes: "runes (board g) = map (board_rune g) (runes (g_puzzle g))"
proof -
  have "scalar (board_rune g r)" if "scalar r" for r
    using that by (simp add: board_rune_def block_rune_def scalar_def)
  then have "\<forall>r \<in> set (map (board_rune g) (runes (g_puzzle g))). scalar r"
    using scalar_runes by auto
  from runes_encode [OF this] show ?thesis by (simp add: board_def comp_assoc)
qed

lemma high_byte:
  fixes n :: nat
  assumes "byte c < 0x80" and "n < 128"
  shows "c \<noteq> char_of (0x80 + n)"
proof
  assume "c = char_of (0x80 + n)"
  then have "byte c = 0x80 + n" using assms(2) by simp
  with assms(1) show False by simp
qed

lemma ascii_in_encode:
  assumes c: "byte c < 0x80"
  shows "c \<in> set (encode_rune r) \<longleftrightarrow> r = byte c"
proof -
  note hb = high_byte [OF c]
  define n where "n = (if scalar r then r else rune_error)"
  have n: "n < 0x110000" by (auto simp: n_def scalar_def rune_error_def)
  have e: "encode_rune r = (if n < 0x80 then [char_of n]
      else if n < 0x800 then [char_of (0xC0 + n div 64), char_of (0x80 + n mod 64)]
      else if n < 0x10000 then
        [char_of (0xE0 + n div 4096), char_of (0x80 + n div 64 mod 64), char_of (0x80 + n mod 64)]
      else [char_of (0xF0 + n div 262144), char_of (0x80 + n div 4096 mod 64),
         char_of (0x80 + n div 64 mod 64), char_of (0x80 + n mod 64)])"
    unfolding encode_rune_def scalar_def [symmetric] n_def Let_def by (rule refl)
  show ?thesis
  proof (cases "n < 0x80")
    case True
    then have r: "scalar r" "r < 0x80" by (auto simp: n_def rune_error_def split: if_splits)
    then have "encode_rune r = [char_of r]" by (simp add: encode_rune_def)
    then show ?thesis using r by auto
  next
    case False
    have m: "c \<noteq> char_of (0x80 + n mod 64)" "c \<noteq> char_of (0x80 + n div 64 mod 64)"
      "c \<noteq> char_of (0x80 + n div 4096 mod 64)"
      by (rule hb; rule less_le_trans [OF mod_less_divisor]; simp)+
    have "c \<noteq> char_of (0xC0 + n div 64)" if "n < 0x800"
      using hb [of "0x40 + n div 64"] that by simp
    moreover have "c \<noteq> char_of (0xE0 + n div 4096)" if "n < 0x10000"
      using hb [of "0x60 + n div 4096"] that by simp
    moreover have "c \<noteq> char_of (0xF0 + n div 262144)"
      using hb [of "0x70 + n div 262144"] n by simp
    ultimately have "c \<notin> set (encode_rune r)"
      unfolding e using False m by (cases "n < 0x800"; cases "n < 0x10000") simp_all
    moreover have "r \<noteq> byte c" using False c by (auto simp: n_def scalar_def split: if_splits)
    ultimately show ?thesis by blast
  qed
qed

lemma set_current_puzzle: "set_current f g = Some g' \<Longrightarrow> g_puzzle g' = g_puzzle g"
  by (auto simp: set_current_def split: option.splits)

lemma advance_puzzle: "advance g = Some g' \<Longrightarrow> g_puzzle g' = g_puzzle g"
  by (auto simp: advance_def split: if_splits)

lemma lose_turn_puzzle: "lose_turn g = Some (b, g') \<Longrightarrow> g_puzzle g' = g_puzzle g"
  by (auto simp: lose_turn_def dest: set_current_puzzle advance_puzzle split: option.splits if_splits)

lemma miss_puzzle: "miss dup g = Some (out, g') \<Longrightarrow> g_puzzle g' = g_puzzle g"
  by (auto simp: miss_def dest: lose_turn_puzzle)

lemmas keep_puzzle = set_current_puzzle advance_puzzle lose_turn_puzzle miss_puzzle

lemma play_puzzle: "play mv g = Some g' \<Longrightarrow> g_puzzle g' = g_puzzle g"
proof (cases mv)
  case (M_spin i)
  assume "play mv g = Some g'"
  with M_spin show ?thesis
    by (auto simp: spin_def split: segment_kind.splits option.splits dest!: keep_puzzle)
next
  case (M_call l)
  assume "play mv g = Some g'"
  with M_call show ?thesis
    by (auto simp: call_letter_def split: if_splits dest!: keep_puzzle)
next
  case (M_buy l c)
  assume "play mv g = Some g'"
  with M_buy show ?thesis
    by (auto simp: buy_vowel_def split: if_splits option.splits dest!: keep_puzzle)
next
  case (M_solve a)
  assume "play mv g = Some g'"
  with M_solve show ?thesis by (auto simp: solve_def split: if_splits dest: keep_puzzle)
next
  case M_pass
  assume "play mv g = Some g'"
  with M_pass show ?thesis by (simp add: pass_def advance_puzzle)
next
  case M_drop
  assume "play mv g = Some g'"
  with M_drop show ?thesis by (auto simp: drop_current_def split: option.splits)
qed

lemma play_all_puzzle: "play_all mvs g = Some g' \<Longrightarrow> g_puzzle g' = g_puzzle g"
  by (induction mvs g rule: play_all.induct) (auto split: if_splits option.splits dest: play_puzzle)

lemma letter_char: "letter_rune r \<Longrightarrow> encode_rune r = [char_of r]"
  by (simp add: letter_rune_def encode_rune_def)

lemma board_rune_char:
  "board_rune g r = (if letter_rune r \<and> \<not> guessed [char_of r] g then block_rune else r)"
  by (auto simp: board_rune_def letter_char)

text \<open>
  The board shows what was called and nothing else. At every point of a game the runes of the
  board are those of the puzzle in capitals, with each letter that was not guessed replaced by the
  block; the board equals the puzzle exactly when no letter of it is left unguessed; and the list of
  wrong guesses holds the guessed letters that the puzzle does not have.
\<close>

theorem board_hides:
  "case play_all mvs (new_game lang category puzzle nicks) of
     None \<Rightarrow> False
   | Some g \<Rightarrow>
       runes (board g) =
         map (\<lambda>r. if letter_rune r \<and> \<not> guessed [char_of r] g then block_rune else r)
           (map upper_rune (runes puzzle)) \<and>
       (board g = go_upper puzzle) =
         (filter (\<lambda>r. letter_rune r \<and> \<not> guessed [char_of r] g) (runes (go_upper puzzle)) = []) \<and>
       set (wrong_guesses g) = {l. guessed l g \<and> hd l \<notin> set (go_upper puzzle)}"
proof -
  obtain g where g: "play_all mvs (new_game lang category puzzle nicks) = Some g" and inv: "game_inv g"
    using play_all_inv [OF new_game_inv] by blast
  let ?rs = "map upper_rune (runes puzzle)"
  have pz: "g_puzzle g = go_upper puzzle" using play_all_puzzle [OF g] by (simp add: new_game_def)
  have enc: "go_upper puzzle = concat (map encode_rune ?rs)" by (simp add: go_upper_def comp_assoc)
  have b: "board g = concat (map encode_rune (map (board_rune g) ?rs))"
    by (simp add: board_def pz runes_go_upper comp_assoc)
  have rb: "runes (board g) = map (board_rune g) ?rs"
    using board_runes [of g] pz runes_go_upper [of puzzle] by simp
  have "board g = go_upper puzzle \<longleftrightarrow> map (board_rune g) ?rs = ?rs"
  proof
    assume "board g = go_upper puzzle"
    then show "map (board_rune g) ?rs = ?rs" using rb runes_go_upper [of puzzle] by simp
  qed (simp only: b enc)
  also have "\<dots> \<longleftrightarrow> filter (\<lambda>r. letter_rune r \<and> \<not> guessed [char_of r] g) ?rs = []"
    by (simp add: board_rune_char block_rune_def letter_rune_def map_eq_conv filter_empty_conv)
  finally have eq: "(board g = go_upper puzzle) =
    (filter (\<lambda>r. letter_rune r \<and> \<not> guessed [char_of r] g) (runes (go_upper puzzle)) = [])"
    by (simp only: runes_go_upper)
  have "count_letter l g = 0 \<longleftrightarrow> hd l \<notin> set (go_upper puzzle)" if "guessed l g" for l
  proof -
    from that have "(l, True) \<in> set (g_guessed g)" by (simp add: guessed_def map_of_SomeD)
    with inv have "a_letter l" by (auto simp: game_inv_def guess_ok_def)
    then obtain c where "l = [c]" by (cases l) (auto simp: a_letter_def)
    then show ?thesis by (auto simp: count_letter_def str_count_char pz filter_empty_conv)
  qed
  moreover have "guessed l g \<longleftrightarrow> l \<in> fst ` set (g_guessed g)" for l
  proof
    assume "l \<in> fst ` set (g_guessed g)"
    then obtain v where v: "map_of (g_guessed g) l = Some v" by (metis map_of_None_iff option.exhaust)
    then have "(l, v) \<in> set (g_guessed g)" by (rule map_of_SomeD)
    with inv have "v" by (auto simp: game_inv_def guess_ok_def)
    with v show "guessed l g" by (simp add: guessed_def)
  qed (force simp: guessed_def dest!: map_of_SomeD)
  ultimately have "set (wrong_guesses g) = {l. guessed l g \<and> hd l \<notin> set (go_upper puzzle)}"
    by (auto simp: wrong_guesses_def)
  with g eq rb show ?thesis by (simp add: board_rune_char)
qed

section \<open>Solving\<close>

definition letter_words :: "nat list \<Rightarrow> string list" where
  \<comment> \<open>the maximal runs of the letters A to Z\<close>
  "letter_words rs = map (map char_of) (fields_func (\<lambda>r. \<not> letter_rune r) rs)"

abbreviation fields :: "nat list \<Rightarrow> nat list \<Rightarrow> string list" where
  "fields acc rs \<equiv> map (map char_of) (fields_acc (\<lambda>r. \<not> letter_rune r) acc rs)"

lemma join_Cons: "ws \<noteq> [] \<Longrightarrow> join sep (w # ws) = w @ sep @ join sep ws"
  by (cases ws) simp_all

lemma fields_head: "acc \<noteq> [] \<Longrightarrow> fields acc rs \<noteq> []"
  by (induction "\<lambda>r. \<not> letter_rune r" acc rs rule: fields_acc.induct) auto

lemma norm_runes_words:
  "(\<exists>t. (t = [] \<or> t = '' '' \<and> fields [] rs \<noteq> []) \<and> norm_runes True rs = join '' '' (fields [] rs) @ t) \<and>
   (\<forall>acc. acc \<noteq> [] \<longrightarrow> (\<exists>t. (t = [] \<or> t = '' '') \<and>
      map char_of acc @ norm_runes False rs = join '' '' (fields acc rs) @ t))"
proof (induction rs)
  case (Cons r rs)
  show ?case
  proof (cases "letter_rune r")
    case True
    have b: "\<exists>t. (t = [] \<or> t = '' '') \<and>
        map char_of (acc @ [r]) @ norm_runes False rs = join '' '' (fields (acc @ [r]) rs) @ t" for acc
      using Cons by blast
    show ?thesis
      using True b [of "[]"] b fields_head [of "[r]" rs] by (fastforce simp: letter_char)
  next
    case False
    from Cons obtain t where t: "t = [] \<or> t = '' '' \<and> fields [] rs \<noteq> []"
      "norm_runes True rs = join '' '' (fields [] rs) @ t" by blast
    have "\<exists>t. (t = [] \<or> t = '' '') \<and> map char_of acc @ norm_runes False (r # rs) = join '' '' (fields acc (r # rs)) @ t"
      if "acc \<noteq> []" for acc
    proof (cases "fields [] rs = []")
      case True
      then show ?thesis using t False that by auto
    next
      case ne: False
      then show ?thesis using t False that join_Cons [OF ne, of "'' ''" "map char_of acc"] by auto
    qed
    then show ?thesis using t False by auto
  qed
qed simp

lemma letter_words_facts: "w \<in> set (fields [] rs) \<Longrightarrow> w \<noteq> [] \<and> list_all is_upper w"
proof -
  have u: "is_upper (char_of r)" if "letter_rune r" for r :: nat
    using that by (simp add: letter_rune_def is_upper_def less_eq_char_def)
  assume "w \<in> set (fields [] rs)"
  then obtain f where f: "f \<in> set (fields_acc (\<lambda>r. \<not> letter_rune r) [] rs)" "w = map char_of f" by auto
  from fields_acc_parts [OF _ f(1)] have "f \<noteq> []" "\<forall>r \<in> set f. letter_rune r" by simp_all
  with f(2) u show ?thesis by (auto simp: list_all_iff)
qed

lemma join_ends:
  "ws \<noteq> [] \<Longrightarrow> \<forall>w \<in> set ws. w \<noteq> [] \<and> list_all is_upper w \<Longrightarrow>
   join '' '' ws \<noteq> [] \<and> is_upper (hd (join '' '' ws)) \<and> is_upper (last (join '' '' ws)) \<and>
   (\<forall>c \<in> set (join '' '' ws). byte c < 0x80)"
proof (induction "'' ''" ws rule: join.induct)
  case (2 x)
  have "byte c < 0x80" if "is_upper c" for c using that by (simp add: is_upper_def less_eq_char_def)
  with 2 show ?case by (auto simp: list_all_iff)
next
  case (3 x y ys)
  have "byte c < 0x80" if "is_upper c" for c using that by (simp add: is_upper_def less_eq_char_def)
  with 3 show ?case by (auto simp: list_all_iff)
qed simp

lemma upper_no_space: "is_upper c \<Longrightarrow> \<not> is_space_rune (byte c)"
  by (auto simp: is_upper_def less_eq_char_def is_space_rune_def)

lemma trim_words:
  assumes w: "\<forall>w \<in> set ws. w \<noteq> [] \<and> list_all is_upper w" and t: "t = [] \<or> t = '' '' \<and> ws \<noteq> []"
  shows "trim_space (join '' '' ws @ t) = join '' '' ws"
proof (cases "ws = []")
  case True
  then show ?thesis using t by simp
next
  case False
  let ?j = "join '' '' ws"
  let ?sp = "\<lambda>c. is_space_rune (byte c)"
  note e = join_ends [OF False w]
  have a: "\<forall>c \<in> set (?j @ t). byte c < 0x80" using e t by auto
  have h: "?j @ t = hd ?j # tl ?j @ t" using e by simp
  have "dropWhile ?sp (?j @ t) = ?j @ t"
    by (subst (1 2) h) (use e upper_no_space in auto)
  moreover have r: "rev ?j = last ?j # rev (butlast ?j)"
    using e by (metis append_butlast_last_id rev_eq_Cons_iff rev_rev_ident)
  have "dropWhile ?sp (rev (?j @ t)) = rev ?j"
    using t e upper_no_space by (auto simp: r is_space_rune_def)
  ultimately show ?thesis by (simp add: trim_space_ascii [OF a])
qed

lemma normalize_words: "normalize_text s = join '' '' (letter_words (map upper_rune (runes s)))"
proof -
  let ?ws = "fields [] (runes (go_upper s))"
  obtain t where t: "t = [] \<or> t = '' '' \<and> ?ws \<noteq> []" "norm_runes True (runes (go_upper s)) = join '' '' ?ws @ t"
    using norm_runes_words by blast
  have "\<forall>w \<in> set ?ws. w \<noteq> [] \<and> list_all is_upper w" using letter_words_facts by blast
  from trim_words [OF this t(1)] t(2) show ?thesis
    by (simp add: normalize_text_def letter_words_def fields_func_def runes_go_upper)
qed

lemma join_words_inj:
  assumes "\<forall>w \<in> set ws. w \<noteq> [] \<and> list_all is_upper w" and "\<forall>w \<in> set vs. w \<noteq> [] \<and> list_all is_upper w"
  shows "join '' '' ws = join '' '' vs \<longleftrightarrow> ws = vs"
proof
  have ns: "\<forall>w \<in> set us. CHR '' '' \<notin> set w" if "\<forall>w \<in> set us. w \<noteq> [] \<and> list_all is_upper w" for us
    using that by (fastforce simp: list_all_iff is_upper_def less_eq_char_def)
  assume j: "join '' '' ws = join '' '' vs"
  show "ws = vs"
  proof (cases "ws = [] \<or> vs = []")
    case True
    then show ?thesis
      using j join_ends [OF _ assms(1)] join_ends [OF _ assms(2)] by (cases "ws = []"; cases "vs = []") auto
  next
    case False
    then show ?thesis
      using j split_on_join [of ws "CHR '' ''"] split_on_join [of vs "CHR '' ''"] ns assms by metis
  qed
qed simp

text \<open>
  A solution is judged by its words. \<open>normalize\<close> is the list of the maximal runs of letters of the
  text in capitals, with one blank between them; so an attempt solves the puzzle exactly when these
  runs are the same, whatever the punctuation, blanks and case around them.
\<close>

theorem solve_by_words:
  "normalize_text attempt = join '' '' (letter_words (map upper_rune (runes attempt))) \<and>
   map_option fst (solve attempt g) =
     (if letter_words (map upper_rune (runes attempt)) = letter_words (map upper_rune (runes (g_puzzle g)))
      then Some True else if g_players g = [] then None else Some False)"
proof -
  have "\<forall>w \<in> set (letter_words rs). w \<noteq> [] \<and> list_all is_upper w" for rs
    using letter_words_facts by (simp add: letter_words_def fields_func_def)
  then show ?thesis
    by (simp add: solve_def normalize_words join_words_inj advance_def)
qed

end
