(* ===== verification/Go_Regex.thy ===== *)
theory Go_Regex
  imports Go_Utf8
begin

text \<open>
  What the patterns of the modules have in common: letters under \<open>(?i)\<close>, the class \<open>\s\<close>, and the
  leading words and blanks of a text. A text is read as its runes, or as its UTF-8 segments where a
  group of the match is used as it stands (an invalid byte counts as one rune and is kept).
\<close>

definition ci_rune :: "char \<Rightarrow> nat \<Rightarrow> bool" where
  \<comment> \<open>a lower-case letter of a pattern under \<open>(?i)\<close>: both cases, and the two runes outside ASCII that fold\<close>
  "ci_rune c r =
     (r = byte c \<or> r = byte (upper_char c) \<or> (c = CHR ''k'' \<and> r = 0x212A) \<or> (c = CHR ''s'' \<and> r = 0x17F))"

definition ws_rune :: "nat \<Rightarrow> bool" where
  "ws_rune r = (r \<in> {0x20, 0x09, 0x0A, 0x0C, 0x0D})"

fun ci_word :: "string \<Rightarrow> nat list \<Rightarrow> nat list option" where
  "ci_word [] rs = Some rs"
| "ci_word (c # w) [] = None"
| "ci_word (c # w) (r # rs) = (if ci_rune c r then ci_word w rs else None)"

definition some_ws :: "nat list \<Rightarrow> nat list option" where
  \<comment> \<open>\<open>\s+\<close>\<close>
  "some_ws rs = (case rs of r # rs' \<Rightarrow> if ws_rune r then Some (dropWhile ws_rune rs') else None | [] \<Rightarrow> None)"

definition ws_seg :: "string \<Rightarrow> bool" where
  "ws_seg g = ws_rune (seg_rune g)"

fun ci_segs :: "string \<Rightarrow> string list \<Rightarrow> string list option" where
  "ci_segs [] gs = Some gs"
| "ci_segs (c # w) [] = None"
| "ci_segs (c # w) (g # gs) = (if ci_rune c (seg_rune g) then ci_segs w gs else None)"

definition two_words :: "string list \<Rightarrow> string \<times> string list \<times> string list" where
  \<comment> \<open>\<open>\s+(\S+)\s+\<close>: the group, the blanks after it and the rest; no group when one of them is empty\<close>
  "two_words gs =
     (let r1 = dropWhile ws_seg gs; u = takeWhile (\<lambda>g. \<not> ws_seg g) r1; r2 = dropWhile (\<lambda>g. \<not> ws_seg g) r1;
          w = takeWhile ws_seg r2
      in (if gs = r1 \<or> w = [] then [] else concat u, w, dropWhile ws_seg r2))"

definition command_word :: "string \<Rightarrow> string option" where
  \<comment> \<open>\<open>^!(\w+)\<close>, the group\<close>
  "command_word s =
     (case s of
        [] \<Rightarrow> None
      | c # t \<Rightarrow> if c = CHR ''!'' \<and> takeWhile is_word t \<noteq> [] then Some (takeWhile is_word t) else None)"

end
