(* ===== verification/Rvf.thy ===== *)
theory Rvf
  imports Rvf_Game Bus Colour Go_Regex
begin

text \<open>
  modules/rvf: rvf.go, the keeper of the games, with the move grammar of lang.go, the corpus parser of
  corpus.go and the banner of art.go. A game lives in a map from server and channel to \<open>game\<close>; a turn
  timer is the pair of its game's key and the generation it was armed with.

  What is said is kept as a list of \<open>part\<close>s, each the name of a message of the language table and its
  arguments, instead of the text of the message. The settings, the embedded corpus, the members of a
  channel and the random numbers are the record \<open>rvf_env\<close>. \<open>None\<close> is a panic.
\<close>

section \<open>The move grammar\<close>

definition only_marks :: "nat set \<Rightarrow> nat list \<Rightarrow> bool" where
  \<comment> \<open>\<open>\s*[...]*$\<close> for a class of marks without blanks\<close>
  "only_marks marks rs = list_all (\<lambda>r. r \<in> marks) (dropWhile ws_rune rs)"

definition word_re :: "string list \<Rightarrow> string \<Rightarrow> bool" where
  \<comment> \<open>\<open>^(?i)\s*(one of the words)\s*[!.]*$\<close>\<close>
  "word_re ws txt =
     list_ex (\<lambda>w. case ci_word w (dropWhile ws_rune (runes txt)) of
                    Some rest \<Rightarrow> only_marks {0x21, 0x2E} rest | None \<Rightarrow> False) ws"

definition spin_re :: "string \<Rightarrow> string \<Rightarrow> bool" where
  "spin_re lang = word_re (if lang = ''en'' then [''spin''] else [''draaien'', ''draai''])"

definition pass_re :: "string \<Rightarrow> string \<Rightarrow> bool" where
  "pass_re lang = word_re (if lang = ''en'' then [''pass''] else [''pas''])"

definition az_rune :: "nat \<Rightarrow> bool" where
  "az_rune r = (0x41 \<le> r \<and> r \<le> 0x5A \<or> 0x61 \<le> r \<and> r \<le> 0x7A)"

definition buy_re :: "string \<Rightarrow> string \<Rightarrow> string option" where
  \<comment> \<open>the group of \<open>^(?i)\s*koop\s+([a-zA-Z])\s*[!?.]*$\<close>; under \<open>(?i)\<close> the class has the two folded runes\<close>
  "buy_re lang txt =
     (case ci_word (if lang = ''en'' then ''buy'' else ''koop'') (dropWhile ws_rune (runes txt)) of
        None \<Rightarrow> None
      | Some rest \<Rightarrow>
          (case some_ws rest of
             Some (r # rs) \<Rightarrow>
               if (az_rune r \<or> r = 0x17F \<or> r = 0x212A) \<and> only_marks {0x21, 0x3F, 0x2E} rs
               then Some (encode_rune r) else None
           | _ \<Rightarrow> None))"

definition letter_re :: "string \<Rightarrow> string option" where
  \<comment> \<open>the group of \<open>^\s*([a-zA-Z])\s*[!?.]*$\<close>\<close>
  "letter_re txt =
     (case dropWhile ws_rune (runes txt) of
        r # rs \<Rightarrow> if az_rune r \<and> only_marks {0x21, 0x3F, 0x2E} rs then Some (encode_rune r) else None
      | [] \<Rightarrow> None)"

definition rest_group :: "nat list \<Rightarrow> string option" where
  \<comment> \<open>the group of \<open>\s*(.+?)\s*$\<close> on a text without newlines\<close>
  "rest_group rs =
     (case dropWhile ws_rune rs of
        [] \<Rightarrow> if rs = [] then None else Some (encode_rune (last rs))
      | u \<Rightarrow> Some (concat (map encode_rune (rev (dropWhile ws_rune (rev u))))))"

definition solve_re :: "string \<Rightarrow> string \<Rightarrow> string option" where
  \<comment> \<open>the group of \<open>^(?i)\s*los\s+op[:\s]\s*(.+?)\s*$\<close>, or of the English form with \<open>solve\<close>\<close>
  "solve_re lang txt =
     (let start = dropWhile ws_rune (runes txt);
          after = (if lang = ''en'' then ci_word ''solve'' start
                   else (case ci_word ''los'' start of
                           None \<Rightarrow> None
                         | Some r1 \<Rightarrow> (case some_ws r1 of None \<Rightarrow> None | Some r2 \<Rightarrow> ci_word ''op'' r2))) in
      case after of
        Some (r # rs) \<Rightarrow> if r = 0x3A \<or> ws_rune r then rest_group rs else None
      | _ \<Rightarrow> None)"

definition game_move :: "string \<Rightarrow> game \<Rightarrow> bool" where
  "game_move txt g =
     (let lang = g_lang g in
      spin_re lang txt \<or> buy_re lang txt \<noteq> None \<or> solve_re lang txt \<noteq> None \<or> pass_re lang txt)"

section \<open>Puzzles\<close>

record puzzle =
  z_category :: string
  z_text :: string

fun parse_lines :: "string list \<Rightarrow> puzzle list option" where
  "parse_lines [] = Some []"
| "parse_lines (l # ls) =
     (let line = trim_space l in
      if line = [] \<or> has_prefix ''#'' line then parse_lines ls
      else
        (case cut (CHR '':'') line of (c, t, ok) \<Rightarrow>
           (let cat = trim_space c; text = trim_space t in
            if \<not> ok \<or> cat = [] \<or> text = [] then None
            else map_option (\<lambda>ps. \<lparr>z_category = cat, z_text = text\<rparr> # ps) (parse_lines ls))))"

definition parse_corpus :: "string \<Rightarrow> puzzle list option" where
  "parse_corpus data = parse_lines (split_on (CHR 0x0A) data)"

section \<open>State\<close>

record score =
  s_nick :: string
  s_channel :: string
  s_lang :: string
  s_score :: int
  s_when :: int
  s_puzzle :: string

record rvf =
  r_games :: "(string \<times> game) list"
  r_gen :: "(string \<times> int) list"
  r_hiscores :: "score list"
  r_extra :: "(string \<times> puzzle list) list"
  r_recent :: "(string \<times> string list) list"
  r_unloaded :: bool
  r_timers :: "(string \<times> int) list"  \<comment> \<open>the callbacks of \<open>armTimer\<close> the scheduler holds\<close>
  r_draws :: nat  \<comment> \<open>random numbers drawn\<close>

datatype arg = S string | N int

datatype part = Tmpl string "arg list"

datatype rvf_out =
    Privmsg string "part list"
  | Page string string "part list"  \<comment> \<open>channel, command, lines to the pager\<close>
  | Topic_line string string  \<comment> \<open>channel and language: the raw TOPIC line with the help topic\<close>
  | Mark string

record rvf_env =
  e_vowel_cost :: int
  e_max_missed :: int
  e_chans_nl :: string
  e_chans_en :: string
  e_corpus :: "string \<Rightarrow> string"
  e_members :: "string \<Rightarrow> string list"
  e_rand :: "nat \<Rightarrow> nat \<Rightarrow> nat"  \<comment> \<open>how many were drawn, and the bound\<close>
  e_now :: int

definition rvf_new :: rvf where
  "rvf_new = \<lparr>r_games = [], r_gen = [], r_hiscores = [], r_extra = [], r_recent = [],
     r_unloaded = False, r_timers = [], r_draws = 0\<rparr>"

definition game_key :: "string \<Rightarrow> string \<Rightarrow> string" where
  "game_key srv chan = srv @ '' '' @ to_lower chan"

definition key_channel :: "string \<Rightarrow> string" where
  "key_channel key = fst (snd (cut (CHR '' '') key))"

definition split_chans :: "string \<Rightarrow> string list" where
  "split_chans s = fields_func (\<lambda>c. c = CHR '' '' \<or> c = CHR '','') s"

definition lang_for :: "rvf_env \<Rightarrow> string \<Rightarrow> string" where
  "lang_for env chan =
     (if list_ex (\<lambda>ch. equal_fold ch chan) (split_chans (e_chans_en env)) then ''en'' else ''nl'')"

definition game_channels :: "rvf_env \<Rightarrow> string list" where
  "game_channels env = split_chans (e_chans_nl env) @ split_chans (e_chans_en env)"

definition owned_channel :: "rvf_env \<Rightarrow> string \<Rightarrow> bool" where
  "owned_channel env chan = list_ex (\<lambda>ch. equal_fold ch chan) (game_channels env)"

definition get_or :: "'v \<Rightarrow> 'k \<Rightarrow> ('k \<times> 'v) list \<Rightarrow> 'v" where
  "get_or d k m = (case map_of m k of Some v \<Rightarrow> v | None \<Rightarrow> d)"

definition roll :: "rvf_env \<Rightarrow> nat \<Rightarrow> rvf \<Rightarrow> nat \<times> rvf" where
  "roll env n st = (e_rand env (r_draws st) n, st\<lparr>r_draws := r_draws st + 1\<rparr>)"

definition pool :: "rvf_env \<Rightarrow> string \<Rightarrow> rvf \<Rightarrow> puzzle list" where
  "pool env lang st =
     (case parse_corpus (e_corpus env lang) of Some ps \<Rightarrow> ps | None \<Rightarrow> []) @ get_or [] lang (r_extra st)"

definition recent_max :: nat where "recent_max = 25"

definition pick_puzzle :: "rvf_env \<Rightarrow> string \<Rightarrow> rvf \<Rightarrow> puzzle option \<times> rvf_out list \<times> rvf" where
  "pick_puzzle env lang st =
     (let ps = pool env lang st in
      if ps = [] then (None, [], st)
      else
        (let played = get_or [] lang (r_recent st);
             unplayed = filter (\<lambda>p. z_text p \<notin> set played) ps;
             fresh = (if unplayed = [] then ps else unplayed) in
         case roll env (length fresh) st of (i, st1) \<Rightarrow>
           (let p = fresh ! i; played' = played @ [z_text p] in
            (Some p, [Mark ''recent_puzzles''],
             st1\<lparr>r_recent := AList.update lang
               (if recent_max < length played' then drop (length played' - recent_max) played' else played')
               (r_recent st1)\<rparr>))))"

section \<open>Timers and the end of a game\<close>

definition arm_timer :: "string \<Rightarrow> rvf \<Rightarrow> rvf" where
  "arm_timer key st =
     (let gen = get_or 0 key (r_gen st) + 1 in
      st\<lparr>r_gen := AList.update key gen (r_gen st), r_timers := r_timers st @ [(key, gen)]\<rparr>)"

definition end_game :: "string \<Rightarrow> rvf \<Rightarrow> rvf_out list \<times> rvf" where
  "end_game key st =
     ([Mark ''games''],
      st\<lparr>r_games := AList.delete key (r_games st),
         r_gen := AList.update key (get_or 0 key (r_gen st) + 1) (r_gen st)\<rparr>)"

definition put_game :: "string \<Rightarrow> game \<Rightarrow> rvf \<Rightarrow> rvf" where
  "put_game key g st = st\<lparr>r_games := AList.update key g (r_games st)\<rparr>"

fun first_pos :: "score \<Rightarrow> score list \<Rightarrow> int \<Rightarrow> int" where
  "first_pos s [] i = 0"
| "first_pos s (x # xs) i = (if x = s then i + 1 else first_pos s xs (i + 1))"

definition record_score :: "score \<Rightarrow> rvf \<Rightarrow> int \<times> rvf_out list \<times> rvf" where
  "record_score s st =
     (if s_score s \<le> 0 then (0, [], st)
      else
        (let hs = take 10 (sort_key (\<lambda>x. - s_score x) (r_hiscores st @ [s])) in
         (first_pos s hs 0, [Mark ''hiscores''], st\<lparr>r_hiscores := hs\<rparr>)))"

section \<open>Messages\<close>

definition board_line :: "game \<Rightarrow> part" where
  "board_line g = Tmpl ''board'' [S (g_category g), S (board g), S (join '' '' (wrong_guesses g))]"

definition turn_line :: "rvf_env \<Rightarrow> game \<Rightarrow> part option" where
  "turn_line env g =
     map_option (\<lambda>p. Tmpl ''turn'' [S (p_nick p), N (p_money p), N (e_vowel_cost env)]) (current g)"

definition status :: "rvf_env \<Rightarrow> game \<Rightarrow> part list option" where
  "status env g = map_option (\<lambda>t. [board_line g, t]) (turn_line env g)"

definition saved_part :: "bool \<Rightarrow> part list" where
  "saved_part saved = (if saved then [Tmpl ''jokerSaved'' []] else [])"

definition victory_nick :: "string \<Rightarrow> string" where
  "victory_nick who = (if 20 < length who then take 20 who @ encode_rune 0x2026 else who)"

definition victory_arts :: nat where "victory_arts = 5"

section \<open>Moves\<close>

definition set_missed :: "nat \<Rightarrow> int \<Rightarrow> game \<Rightarrow> game" where
  \<comment> \<open>an assignment to \<open>Missed\<close> through a pointer to the player at an index\<close>
  "set_missed i n g = g\<lparr>g_players := (g_players g)[i := (g_players g ! i)\<lparr>p_missed := n\<rparr>]\<rparr>"

definition move_done :: "string \<Rightarrow> game \<Rightarrow> nat \<Rightarrow> rvf \<Rightarrow> rvf_out list \<times> rvf" where
  "move_done key g mover st = ([Mark ''games''], arm_timer key (put_game key (set_missed mover 0 g) st))"

definition reply_done ::
  "rvf_env \<Rightarrow> string \<Rightarrow> string \<Rightarrow> part list \<Rightarrow> bool \<Rightarrow> game \<Rightarrow> nat \<Rightarrow> rvf \<Rightarrow> (bool \<times> rvf_out list \<times> rvf) option" where
  \<comment> \<open>a reply, with the status of the game when the flag is set, and then \<open>moveDone\<close>\<close>
  "reply_done env chan key parts with_status g mover st =
     (case (if with_status then status env g else Some []) of
        None \<Rightarrow> None
      | Some s \<Rightarrow>
          (case move_done key g mover st of (outs, st') \<Rightarrow>
             Some (True, Privmsg chan (parts @ s) # outs, st')))"

definition letter_move ::
  "rvf_env \<Rightarrow> string \<Rightarrow> string \<Rightarrow> game \<Rightarrow> string \<Rightarrow> rvf \<Rightarrow> (bool \<times> rvf_out list \<times> rvf) option" where
  "letter_move env chan key g letter st =
     (case call_letter letter g of
        None \<Rightarrow> None
      | Some (res, g') \<Rightarrow>
          (case o_kind res of
             OutInvalid \<Rightarrow> reply_done env chan key [Tmpl ''needConsonant'' []] False g' (g_turn g) st
           | OutHit \<Rightarrow>
               reply_done env chan key [Tmpl ''hit'' [N (o_count res), S letter, N (o_amount res)]] True
                 g' (g_turn g) st
           | OutMiss \<Rightarrow>
               reply_done env chan key
                 (Tmpl (if o_dup res then ''dup'' else ''miss'') [S letter] # saved_part (o_joker_saved res))
                 True g' (g_turn g) st
           | OutBroke \<Rightarrow> (case move_done key g' (g_turn g) st of (outs, st') \<Rightarrow> Some (True, outs, st'))))"

definition spin_move ::
  "rvf_env \<Rightarrow> string \<Rightarrow> string \<Rightarrow> game \<Rightarrow> rvf \<Rightarrow> (bool \<times> rvf_out list \<times> rvf) option" where
  "spin_move env chan key g st =
     (case roll env (length wheel) st of (i, st1) \<Rightarrow>
       (case spin i g of
          None \<Rightarrow> None
        | Some (seg, fx, g') \<Rightarrow>
            (case current g' of
               None \<Rightarrow> None
             | Some p \<Rightarrow>
                 (case fst seg of
                    SegMoney \<Rightarrow>
                      reply_done env chan key [Tmpl ''spinMoney'' [N (snd seg), S (p_nick p)]] False
                        g' (g_turn g) st1
                  | SegBankrupt \<Rightarrow>
                      reply_done env chan key
                        (Tmpl ''spinBankrupt'' [N (fx_lost fx)] # saved_part (fx_joker_saved fx)) True
                        g' (g_turn g) st1
                  | SegLoseTurn \<Rightarrow>
                      reply_done env chan key
                        (Tmpl ''spinLoseTurn'' [] # saved_part (fx_joker_saved fx)) True g' (g_turn g) st1
                  | SegJoker \<Rightarrow>
                      reply_done env chan key [Tmpl ''spinJoker'' [S (p_nick p)]] True g' (g_turn g) st1))))"

definition buy_move ::
  "rvf_env \<Rightarrow> string \<Rightarrow> string \<Rightarrow> game \<Rightarrow> string \<Rightarrow> rvf \<Rightarrow> (bool \<times> rvf_out list \<times> rvf) option" where
  "buy_move env chan key g letter st =
     (case buy_vowel letter (e_vowel_cost env) g of
        None \<Rightarrow> None
      | Some (res, g') \<Rightarrow>
          (case o_kind res of
             OutInvalid \<Rightarrow> reply_done env chan key [Tmpl ''needVowel'' []] False g' (g_turn g) st
           | OutBroke \<Rightarrow>
               reply_done env chan key [Tmpl ''broke'' [N (e_vowel_cost env)]] False g' (g_turn g) st
           | OutHit \<Rightarrow>
               reply_done env chan key [Tmpl ''hitVowel'' [N (o_count res), S letter]] True
                 g' (g_turn g) st
           | OutMiss \<Rightarrow>
               reply_done env chan key (Tmpl ''miss'' [S letter] # saved_part (o_joker_saved res)) True
                 g' (g_turn g) st))"

definition solve_move ::
  "rvf_env \<Rightarrow> string \<Rightarrow> string \<Rightarrow> game \<Rightarrow> string \<Rightarrow> rvf \<Rightarrow> (bool \<times> rvf_out list \<times> rvf) option" where
  "solve_move env chan key g attempt st =
     (case current g of
        None \<Rightarrow> None
      | Some winner \<Rightarrow>
          (case solve attempt g of
             None \<Rightarrow> None
           | Some (True, g') \<Rightarrow>
               (case roll env victory_arts st of (art, st1) \<Rightarrow>
                (case record_score \<lparr>s_nick = p_nick winner, s_channel = key_channel key, s_lang = g_lang g,
                       s_score = p_money winner, s_when = e_now env, s_puzzle = g_puzzle g\<rparr> st1 of
                   (pos, outs1, st2) \<Rightarrow>
                     (case end_game key st2 of (outs2, st3) \<Rightarrow>
                        Some (True, outs1 @ outs2 @
                          [Privmsg chan
                             ([Tmpl ''victory'' [N (int art), S (victory_nick (p_nick winner))],
                               Tmpl ''solveWin'' [S (p_nick winner), N (p_money winner), S (g_puzzle g)]] @
                              (if 0 < pos then [Tmpl ''hiscoreEntry'' [N pos]] else []))], st3))))
           | Some (False, g') \<Rightarrow>
               reply_done env chan key [Tmpl ''solveWrong'' []] True g' (g_turn g) st))"

definition handle_move ::
  "rvf_env \<Rightarrow> string \<Rightarrow> string \<Rightarrow> game \<Rightarrow> string \<Rightarrow> rvf \<Rightarrow> (bool \<times> rvf_out list \<times> rvf) option" where
  "handle_move env chan key g txt st =
     (let lang = g_lang g in
      case current g of
        None \<Rightarrow> None
      | Some _ \<Rightarrow>
          if g_state g = StateLetter then
            (case letter_re txt of
               Some l \<Rightarrow> letter_move env chan key g (go_upper l) st
             | None \<Rightarrow>
                 if game_move txt g then
                   (case roll env 4 st of (i, st1) \<Rightarrow>
                      Some (True, [Privmsg chan [Tmpl ''wrongAction'' [N (int i)]]], st1))
                 else Some (False, [], st))
          else if spin_re lang txt then spin_move env chan key g st
          else
            (case buy_re lang txt of
               Some l \<Rightarrow> buy_move env chan key g (go_upper l) st
             | None \<Rightarrow>
                 (case solve_re lang txt of
                    Some attempt \<Rightarrow> solve_move env chan key g attempt st
                  | None \<Rightarrow>
                      if pass_re lang txt then
                        (case pass g of
                           None \<Rightarrow> None
                         | Some g' \<Rightarrow> reply_done env chan key [] True g' (g_turn g) st)
                      else if letter_re txt \<noteq> None then
                        (case roll env 4 st of (i, st1) \<Rightarrow>
                           Some (True, [Privmsg chan [Tmpl ''spinFirsts'' [N (int i)]]], st1))
                      else Some (False, [], st))))"

section \<open>Hooks and commands\<close>

definition on_msg :: "rvf_env \<Rightarrow> event \<Rightarrow> rvf \<Rightarrow> (handled \<times> rvf_out list \<times> rvf) option" where
  "on_msg env ev st =
     (if sender_me ev \<or> msg ev = [] then Some (Handled_none, [], st)
      else
        (let key = game_key (server ev) (channel ev); who = nick (ev_sender ev) in
         case map_of (r_games st) key of
           None \<Rightarrow> Some (Handled_none, [], st)
         | Some g \<Rightarrow>
             (case current g of
                None \<Rightarrow> None
              | Some cur \<Rightarrow>
                  if \<not> equal_fold (p_nick cur) who then
                    if is_player who g \<and> game_move (msg ev) g then
                      Some (Stop, [Privmsg (channel ev) [Tmpl ''notYourTurn'' [S (p_nick cur)]]], st)
                    else Some (Handled_none, [], st)
                  else
                    (case handle_move env (channel ev) key g (msg ev) st of
                       None \<Rightarrow> None
                     | Some (handled, outs, st') \<Rightarrow>
                         if handled then Some (Stop, outs, st')
                         else if query ev \<and> \<not> has_prefix ''!'' (msg ev) then
                           Some (Stop, outs @ [Privmsg (channel ev) [Tmpl ''queryHelp'' []]], st')
                         else Some (Handled_none, outs, st')))))"

definition turn_timeout :: "rvf_env \<Rightarrow> string \<Rightarrow> rvf \<Rightarrow> (rvf_out list \<times> rvf) option" where
  "turn_timeout env key st =
     (case map_of (r_games st) key of
        None \<Rightarrow> Some ([], st)
      | Some g0 \<Rightarrow>
          (case current g0 of
             None \<Rightarrow> None
           | Some cur \<Rightarrow>
               (let chan = key_channel key; missed = p_missed cur + 1;
                    g = set_missed (g_turn g0) missed g0 in
                if e_max_missed env \<le> missed then
                  (case drop_current g of
                     None \<Rightarrow> None
                   | Some (who, g') \<Rightarrow>
                       if g_players g' = [] then
                         (case end_game key st of (outs, st') \<Rightarrow>
                            Some (outs @ [Privmsg chan [Tmpl ''aborted'' [S (g_puzzle g')]]], st'))
                       else
                         (case status env g' of
                            None \<Rightarrow> None
                          | Some s \<Rightarrow>
                              Some ([Mark ''games'', Privmsg chan (Tmpl ''dropped'' [S who] # s)],
                                    arm_timer key (put_game key g' st))))
                else
                  (case pass g of
                     None \<Rightarrow> None
                   | Some g' \<Rightarrow>
                       (case (if g_query g' then Some [] else
                                map_option (\<lambda>s. [Privmsg chan (Tmpl ''timeout'' [S (p_nick cur)] # s)])
                                  (status env g')) of
                          None \<Rightarrow> None
                        | Some outs \<Rightarrow>
                            Some (Mark ''games'' # outs, arm_timer key (put_game key g' st)))))))"

definition fire_timer :: "rvf_env \<Rightarrow> string \<times> int \<Rightarrow> rvf \<Rightarrow> (rvf_out list \<times> rvf) option" where
  \<comment> \<open>the callback of \<open>armTimer\<close>, called once by the scheduler\<close>
  "fire_timer env timer st =
     (let st' = st\<lparr>r_timers := remove1 timer (r_timers st)\<rparr> in
      if r_unloaded st \<or> get_or 0 (fst timer) (r_gen st) \<noteq> snd timer then Some ([], st')
      else turn_timeout env (fst timer) st')"

definition game_verbs :: "string list" where
  "game_verbs = [''draai'', ''draaien'', ''koop'', ''los'', ''op'', ''pas'', ''spin'', ''buy'', ''solve'', ''pass'']"

fun start_nicks :: "string list \<Rightarrow> string list \<Rightarrow> part + string list" where
  "start_nicks [] acc = Inr acc"
| "start_nicks (n # ns) acc =
     (if 30 < length n then Inl (Tmpl ''sillyNick'' [])
      else if to_lower n \<in> set game_verbs then Inl (Tmpl ''verbNick'' [S n])
      else start_nicks ns (if list_ex (\<lambda>h. equal_fold h n) acc then acc else acc @ [n]))"

definition start_players :: "rvf_env \<Rightarrow> event \<Rightarrow> string \<Rightarrow> part + string list" where
  \<comment> \<open>the players of \<open>!start\<close>, or the message that refuses it\<close>
  "start_players env ev data =
     (let who = nick (ev_sender ev) in
      case (if query ev then Inr [who] else start_nicks (split_chans data) []) of
        Inl p \<Rightarrow> Inl p
      | Inr nicks \<Rightarrow>
          if 8 < length nicks then Inl (Tmpl ''tooMany'' [])
          else
            (let nicks' = (if nicks = [] then [who] else nicks);
                 members = (if query ev then [] else e_members env (channel ev)) in
             case find (\<lambda>n. members \<noteq> [] \<and> \<not> list_ex (\<lambda>m. equal_fold m n) members) nicks' of
               Some n \<Rightarrow> Inl (Tmpl ''absentNick'' [S n])
             | None \<Rightarrow> Inr nicks'))"

definition cb_start :: "rvf_env \<Rightarrow> event \<Rightarrow> string \<Rightarrow> rvf \<Rightarrow> (rvf_out list \<times> rvf) option" where
  "cb_start env ev data st =
     (let key = game_key (server ev) (channel ev); lang = lang_for env (channel ev);
          say = (\<lambda>p. Some ([Privmsg (channel ev) [p]], st)) in
      if \<not> query ev \<and> \<not> owned_channel env (channel ev) then
        say (Tmpl ''notHere'' [S (join '' / '' (game_channels env))])
      else if (case map_of (r_games st) key of Some g \<Rightarrow> \<not> g_done g | None \<Rightarrow> False) then
        say (Tmpl ''alreadyGame'' [])
      else
        (case start_players env ev data of
           Inl p \<Rightarrow> say p
         | Inr nicks \<Rightarrow>
             (case pick_puzzle env lang st of
                (None, outs, st1) \<Rightarrow> Some (outs @ [Privmsg (channel ev) [Tmpl ''noPuzzles'' []]], st1)
              | (Some p, outs, st1) \<Rightarrow>
                  (let g = (new_game lang (z_category p) (z_text p) nicks)\<lparr>g_query := query ev\<rparr> in
                   case status env g of
                     None \<Rightarrow> None
                   | Some s \<Rightarrow>
                       Some (outs @ [Mark ''games'', Privmsg (channel ev) s],
                             arm_timer key (put_game key g st1))))))"

definition cb_stop :: "event \<Rightarrow> rvf \<Rightarrow> rvf_out list \<times> rvf" where
  "cb_stop ev st =
     (let key = game_key (server ev) (channel ev) in
      case map_of (r_games st) key of
        None \<Rightarrow> ([], st)
      | Some g \<Rightarrow>
          if \<not> is_player (nick (ev_sender ev)) g then ([Privmsg (channel ev) [Tmpl ''playersOnly'' []]], st)
          else
            (case end_game key st of (outs, st') \<Rightarrow>
               (outs @ [Privmsg (channel ev) [Tmpl ''stopped'' [S (g_puzzle g)]]], st')))"

definition cb_top10 :: "event \<Rightarrow> rvf \<Rightarrow> rvf_out list" where
  "cb_top10 ev st =
     (if r_hiscores st = [] then [Privmsg (channel ev) [Tmpl ''top10Empty'' []]]
      else [Page (channel ev) ''top10''
              (Tmpl ''top10Title'' [] #
               map (\<lambda>(i, s). Tmpl ''top10Line''
                      [N (int i + 1), S (s_nick s), N (s_score s), S (s_channel s), S (s_puzzle s)])
                 (enumerate 0 (r_hiscores st)))])"

definition on_join_topic :: "rvf_env \<Rightarrow> event \<Rightarrow> rvf_out list" where
  "on_join_topic env ev =
     (if sender_me ev \<and> owned_channel env (channel ev)
      then [Topic_line (channel ev) (lang_for env (channel ev))] else [])"

definition topic_text :: "string \<Rightarrow> string" where
  "topic_text lang =
     (if lang = ''nl'' then
        ''Rad van Fortuin! {y}!start nick1,nick2{/} om te spelen | '' @
        ''draai / koop <klinker> / los op <zin> / pas | {y}!top10{/} voor de eregalerij''
      else
        ''Wheel of Fortune! {y}!start nick1,nick2{/} to play | '' @
        ''spin / buy <vowel> / solve <phrase> / pass | {y}!top10{/} for the hall of fame'')"

definition on_topic_change :: "rvf_env \<Rightarrow> event \<Rightarrow> rvf_out list" where
  "on_topic_change env ev =
     (if sender_me ev \<or> \<not> owned_channel env (channel ev) then []
      else if topic ev \<noteq> to_irc_codes (topic_text (lang_for env (channel ev)))
      then [Topic_line (channel ev) (lang_for env (channel ev))] else [])"

definition load_game :: "string \<times> game \<Rightarrow> rvf \<Rightarrow> rvf" where
  \<comment> \<open>one restored game: the query flag of a key that names a nick, and a fresh timer\<close>
  "load_game e st =
     (let ch = key_channel (fst e);
          g = (if ch \<noteq> [] \<and> hd ch \<notin> set ''#&+!'' then (snd e)\<lparr>g_query := True\<rparr> else snd e) in
      arm_timer (fst e) (put_game (fst e) g st))"

definition rvf_load ::
  "(string \<times> game) list \<Rightarrow> score list \<Rightarrow> (string \<times> puzzle list) list \<Rightarrow> (string \<times> string list) list \<Rightarrow> rvf" where
  "rvf_load games hiscores extra recent =
     fold load_game games
       (rvf_new\<lparr>r_games := games, r_hiscores := hiscores, r_extra := extra, r_recent := recent\<rparr>)"

definition rvf_unload :: "rvf \<Rightarrow> rvf" where
  "rvf_unload st = st\<lparr>r_unloaded := True\<rparr>"

section \<open>Puzzle management\<close>

definition valid_puzzle :: "string \<Rightarrow> bool" where
  \<comment> \<open>\<open>^[A-Z ',]+$\<close>\<close>
  "valid_puzzle s = (s \<noteq> [] \<and> list_all (\<lambda>c. is_upper c \<or> c \<in> {CHR '' '', CHR 0x27, CHR '',''}) s)"

definition known_lang :: "string \<Rightarrow> bool" where
  "known_lang lang = (lang = ''nl'' \<or> lang = ''en'')"

definition admin_add :: "string \<Rightarrow> string \<Rightarrow> rvf \<Rightarrow> part \<times> rvf_out list \<times> rvf" where
  "admin_add lang spec st =
     (if \<not> known_lang lang then (Tmpl ''languageError'' [], [], st)
      else
        (case parse_corpus spec of
           Some [p] \<Rightarrow>
             if \<not> valid_puzzle (go_upper (z_text p)) then (Tmpl ''lettersError'' [], [], st)
             else
               (Tmpl ''added'' [S lang, S (z_category p), S (z_text p)], [Mark ''puzzles''],
                st\<lparr>r_extra := AList.update lang (get_or [] lang (r_extra st) @ [p]) (r_extra st)\<rparr>)
         | _ \<Rightarrow> (Tmpl ''formatError'' [], [], st)))"

definition admin_del :: "string \<Rightarrow> string \<Rightarrow> rvf \<Rightarrow> part \<times> rvf_out list \<times> rvf" where
  "admin_del lang text st =
     (if \<not> known_lang lang then (Tmpl ''languageError'' [], [], st)
      else
        (let t = trim_space text; old = get_or [] lang (r_extra st);
             left = filter (\<lambda>p. \<not> equal_fold (z_text p) t) old;
             st' = st\<lparr>r_extra := AList.update lang left (r_extra st)\<rparr> in
         if length left = length old then (Tmpl ''noSuchPuzzle'' [S lang, S t], [], st')
         else (Tmpl ''deleted'' [N (int (length left)), S lang], [Mark ''puzzles''], st')))"

definition admin_list :: "rvf_env \<Rightarrow> rvf \<Rightarrow> part" where
  "admin_list env st =
     Tmpl ''list''
       (concat (map (\<lambda>lang.
          [S lang, N (int (length (pool env lang (st\<lparr>r_extra := []\<rparr>)))), N (int (length (get_or [] lang (r_extra st))))] @
          concat (map (\<lambda>p. [S (z_category p), S (z_text p)]) (get_or [] lang (r_extra st)))) [''nl'', ''en''])
        @ [N (int (length (r_games st)))])"

definition admin_run :: "rvf_env \<Rightarrow> string \<Rightarrow> rvf \<Rightarrow> part \<times> rvf_out list \<times> rvf" where
  "admin_run env line st =
     (let body = trim_space (trim_prefix ''rvf'' (trim_space line));
          verb = fst (cut (CHR '' '') body);
          rest = trim_space (fst (snd (cut (CHR '' '') body)));
          lang = fst (cut (CHR '' '') rest);
          spec = fst (snd (cut (CHR '' '') rest)) in
      if verb = ''add'' then admin_add lang spec st
      else if verb = ''del'' then admin_del lang spec st
      else if verb = ''list'' then (admin_list env st, [], st)
      else (Tmpl ''usage'' [], [], st))"

section \<open>The invariant of the keeper\<close>

definition game_ok :: "string \<times> game \<Rightarrow> bool" where
  "game_ok e = (game_inv (snd e) \<and> g_players (snd e) \<noteq> [])"

definition games_inv :: "rvf \<Rightarrow> bool" where
  "games_inv st = (wf_map (r_games st) \<and> (\<forall>e \<in> set (r_games st). game_ok e))"

definition live :: "rvf \<Rightarrow> string \<Rightarrow> bool" where
  \<comment> \<open>a timer is pending that will act when it fires\<close>
  "live st k = ((k, get_or 0 k (r_gen st)) \<in> set (r_timers st))"

definition running :: "rvf \<Rightarrow> string \<Rightarrow> bool" where
  "running st k = (k \<in> fst ` set (r_games st))"

definition timers_upto :: "string set \<Rightarrow> rvf \<Rightarrow> bool" where
  "timers_upto K st =
     (distinct (r_timers st) \<and> (\<forall>k. 0 \<le> get_or 0 k (r_gen st)) \<and>
      (\<forall>(k, n) \<in> set (r_timers st). 1 \<le> n \<and> n \<le> get_or 0 k (r_gen st)) \<and>
      (\<forall>k. k \<notin> K \<longrightarrow> live st k = running st k))"

definition rest_inv :: "rvf \<Rightarrow> bool" where
  \<comment> \<open>the leaderboard is sorted, and the module is loaded\<close>
  "rest_inv st =
     (\<not> r_unloaded st \<and> length (r_hiscores st) \<le> 10 \<and> sorted_wrt (\<lambda>a b. s_score b \<le> s_score a) (r_hiscores st) \<and>
      (\<forall>s \<in> set (r_hiscores st). 0 < s_score s))"

definition rvf_inv :: "rvf \<Rightarrow> bool" where
  "rvf_inv st = (games_inv st \<and> timers_upto {} st \<and> rest_inv st)"

lemma get_or_update [simp]: "get_or d k (AList.update k' v m) = (if k = k' then v else get_or d k m)"
  by (simp add: get_or_def)

lemma upto_arm:
  assumes "timers_upto (insert key K) st"
  shows "timers_upto K (arm_timer key (put_game key g st))"
proof -
  let ?n = "get_or 0 key (r_gen st) + 1"
  from assms have d: "distinct (r_timers st)" and p: "\<And>k. 0 \<le> get_or 0 k (r_gen st)"
    and b: "\<And>k n. (k, n) \<in> set (r_timers st) \<Longrightarrow> 1 \<le> n \<and> n \<le> get_or 0 k (r_gen st)"
    and l: "\<And>k. k \<noteq> key \<Longrightarrow> k \<notin> K \<Longrightarrow> live st k = running st k" by (auto simp: timers_upto_def)
  have new: "(key, ?n) \<notin> set (r_timers st)" using b [of key ?n] by auto
  show ?thesis
    unfolding timers_upto_def
  proof (intro conjI allI ballI impI)
    show "distinct (r_timers (arm_timer key (put_game key g st)))"
      using d new by (simp add: arm_timer_def put_game_def)
    fix k
    show "0 \<le> get_or 0 k (r_gen (arm_timer key (put_game key g st)))"
      using p [of k] p [of key] by (simp add: arm_timer_def put_game_def)
    show "live (arm_timer key (put_game key g st)) k = running (arm_timer key (put_game key g st)) k"
      if "k \<notin> K"
      using l [of k] that by (auto simp: arm_timer_def put_game_def live_def running_def)
  next
    fix e assume m: "e \<in> set (r_timers (arm_timer key (put_game key g st)))"
    obtain k n where e: "e = (k, n)" by (cases e)
    have "(k, n) \<in> set (r_timers st) \<or> (k, n) = (key, ?n)"
      using m unfolding e by (auto simp: arm_timer_def put_game_def)
    then show "case e of (k, n) \<Rightarrow> 1 \<le> n \<and> n \<le> get_or 0 k (r_gen (arm_timer key (put_game key g st)))"
      using b [of k n] p [of key] unfolding e by (auto simp add: arm_timer_def put_game_def)
  qed
qed

lemma upto_end:
  assumes "timers_upto {key} st"
  shows "timers_upto {} (snd (end_game key st))"
proof -
  let ?n = "get_or 0 key (r_gen st) + 1"
  from assms have d: "distinct (r_timers st)" and p: "\<And>k. 0 \<le> get_or 0 k (r_gen st)"
    and b: "\<And>k n. (k, n) \<in> set (r_timers st) \<Longrightarrow> 1 \<le> n \<and> n \<le> get_or 0 k (r_gen st)"
    and l: "\<And>k. k \<noteq> key \<Longrightarrow> live st k = running st k" by (auto simp: timers_upto_def)
  have new: "(key, ?n) \<notin> set (r_timers st)" using b [of key ?n] by auto
  show ?thesis
    unfolding timers_upto_def
  proof (intro conjI allI ballI impI)
    show "distinct (r_timers (snd (end_game key st)))" using d by (simp add: end_game_def)
    fix k
    show "0 \<le> get_or 0 k (r_gen (snd (end_game key st)))"
      using p [of k] p [of key] by (simp add: end_game_def)
    show "live (snd (end_game key st)) k = running (snd (end_game key st)) k"
      using l [of k] new by (auto simp: end_game_def live_def running_def)
  next
    fix e assume "e \<in> set (r_timers (snd (end_game key st)))"
    then show "case e of (k, n) \<Rightarrow> 1 \<le> n \<and> n \<le> get_or 0 k (r_gen (snd (end_game key st)))"
      using b [of "fst e" "snd e"] by (cases e) (auto simp: end_game_def)
  qed
qed

lemma upto_weaken: "timers_upto {} st \<Longrightarrow> timers_upto K st"
  by (simp add: timers_upto_def)

lemma upto_fired:
  assumes "timers_upto {} st"
  shows "timers_upto {fst t} (st\<lparr>r_timers := remove1 t (r_timers st)\<rparr>)"
    and "get_or 0 (fst t) (r_gen st) \<noteq> snd t \<Longrightarrow>
      timers_upto {} (st\<lparr>r_timers := remove1 t (r_timers st)\<rparr>)"
  using assms by (auto simp: timers_upto_def live_def running_def)

lemma games_put:
  "games_inv st \<Longrightarrow> game_ok (key, g) \<Longrightarrow> games_inv (arm_timer key (put_game key g st))"
  unfolding games_inv_def arm_timer_def put_game_def Let_def
  by (auto intro: update_all [of _ game_ok, THEN bspec])

lemma games_end: "games_inv st \<Longrightarrow> games_inv (snd (end_game key st))"
  by (auto simp: games_inv_def end_game_def set_delete)

lemma games_get: "games_inv st \<Longrightarrow> map_of (r_games st) key = Some g \<Longrightarrow> game_ok (key, g)"
  unfolding games_inv_def by (blast dest: map_of_SomeD)

lemma hiscores_keep:
  "rest_inv (arm_timer key st) = rest_inv st"
  "rest_inv (put_game key g st) = rest_inv st"
  "rest_inv (snd (end_game key st)) = rest_inv st"
  by (simp_all add: rest_inv_def arm_timer_def put_game_def end_game_def)

lemma put_inv:
  assumes "games_inv st" and "timers_upto {key} st" and "rest_inv st" and "game_ok (key, g)"
  shows "rvf_inv (arm_timer key (put_game key g st))"
  using assms by (simp add: rvf_inv_def games_put upto_arm hiscores_keep)

lemma end_inv:
  assumes "games_inv st" and "timers_upto {key} st" and "rest_inv st"
  shows "rvf_inv (snd (end_game key st))"
  using assms by (simp add: rvf_inv_def games_end upto_end hiscores_keep)

lemma missed_inv:
  "game_inv g \<Longrightarrow> g_players g \<noteq> [] \<Longrightarrow>
   game_inv (set_missed i n g) \<and> g_players (set_missed i n g) \<noteq> []"
proof -
  assume g: "game_inv g" "g_players g \<noteq> []"
  have "list_all player_ok ((g_players g)[i := (g_players g ! i)\<lparr>p_missed := n\<rparr>])"
  proof (cases "i < length (g_players g)")
    case True
    then have "player_ok ((g_players g ! i)\<lparr>p_missed := n\<rparr>)"
      using g by (auto simp: game_inv_def player_ok_def list_all_length)
    with g show ?thesis by (simp add: game_inv_def money_update)
  next
    case False
    then show ?thesis using g by (simp add: game_inv_def list_update_beyond)
  qed
  with g show ?thesis by (auto simp: game_inv_def set_missed_def)
qed

lemma status_some: "game_inv g \<Longrightarrow> g_players g \<noteq> [] \<Longrightarrow> \<exists>s. status env g = Some s"
  using current_some by (fastforce simp: status_def turn_line_def)

definition goes_on :: "(bool \<times> rvf_out list \<times> rvf) option \<Rightarrow> bool" where
  \<comment> \<open>a move that returns and keeps the invariant\<close>
  "goes_on r = (\<exists>b outs st'. r = Some (b, outs, st') \<and> rvf_inv st')"

lemma goes_on_Some [simp]: "goes_on (Some (b, outs, st')) = rvf_inv st'"
  by (simp add: goes_on_def)

lemma reply_done_inv:
  assumes "rvf_inv st" and "game_inv g" and "g_players g \<noteq> []"
  shows "goes_on (reply_done env chan key parts flag g mover st)"
proof -
  obtain s where s: "(if flag then status env g else Some []) = Some s"
    using status_some [OF assms(2,3), of env] by (cases flag) auto
  have "rvf_inv (arm_timer key (put_game key (set_missed mover 0 g) st))"
    using assms missed_inv [OF assms(2,3)] upto_weaken
    by (intro put_inv) (simp_all add: rvf_inv_def game_ok_def)
  then show ?thesis by (simp add: reply_done_def s move_done_def)
qed

lemma games_frame: "r_games st' = r_games st \<Longrightarrow> games_inv st' = games_inv st"
  by (simp add: games_inv_def)

lemma timers_frame:
  "r_games st' = r_games st \<Longrightarrow> r_gen st' = r_gen st \<Longrightarrow> r_timers st' = r_timers st \<Longrightarrow>
   timers_upto K st' = timers_upto K st"
  by (simp add: timers_upto_def live_def running_def)

lemma hiscores_frame:
  "r_hiscores st' = r_hiscores st \<Longrightarrow> r_unloaded st' = r_unloaded st \<Longrightarrow> rest_inv st' = rest_inv st"
  by (simp add: rest_inv_def)

lemma roll_inv: "roll env n st = (i, st') \<Longrightarrow> rvf_inv st' = rvf_inv st \<and> r_games st' = r_games st"
proof -
  assume "roll env n st = (i, st')"
  then have f: "r_games st' = r_games st" "r_gen st' = r_gen st" "r_timers st' = r_timers st"
    "r_hiscores st' = r_hiscores st" "r_unloaded st' = r_unloaded st" by (auto simp: roll_def)
  show ?thesis
    unfolding rvf_inv_def games_frame [OF f(1)] timers_frame [OF f(1,2,3)] hiscores_frame [OF f(4,5)] f(1)
    by simp
qed

lemma letter_move_inv:
  assumes "rvf_inv st" and "game_inv g" and "g_players g \<noteq> []"
  shows "goes_on (letter_move env chan key g letter st)"
proof -
  obtain res g' where c: "call_letter letter g = Some (res, g')" and g': "game_inv g'" "g_players g' \<noteq> []"
    using call_letter_inv [OF assms(2,3)] by blast
  have m: "rvf_inv (snd (move_done key g' mover st))" for mover
    using assms(1) missed_inv [OF g'] upto_weaken
    unfolding move_done_def snd_conv by (intro put_inv) (simp_all add: rvf_inv_def game_ok_def)
  show ?thesis
    unfolding letter_move_def c using reply_done_inv [OF assms(1) g'] m
    by (cases "o_kind res") (auto simp: move_done_def)
qed

lemma spin_move_inv:
  assumes "rvf_inv st" and "game_inv g" and "g_players g \<noteq> []" and "g_state g = StateAction"
  shows "goes_on (spin_move env chan key g st)"
proof -
  obtain i st1 where r: "roll env (length wheel) st = (i, st1)" by (cases "roll env (length wheel) st")
  have st1: "rvf_inv st1" using roll_inv [OF r] assms(1) by simp
  obtain seg fx g' where sp: "spin i g = Some (seg, fx, g')" and g': "game_inv g'" "g_players g' \<noteq> []"
    using spin_inv [OF assms(2-4)] by blast
  obtain p where p: "current g' = Some p" using current_some [OF g'] by blast
  show ?thesis
    unfolding spin_move_def r using sp p reply_done_inv [OF st1 g'] by (cases "fst seg") auto
qed

lemma buy_move_inv:
  assumes "rvf_inv st" and "game_inv g" and "g_players g \<noteq> []"
  shows "goes_on (buy_move env chan key g letter st)"
proof -
  obtain res g' where c: "buy_vowel letter (e_vowel_cost env) g = Some (res, g')"
    and g': "game_inv g'" "g_players g' \<noteq> []"
    using buy_vowel_inv [OF assms(2,3)] by blast
  show ?thesis
    unfolding buy_move_def c using reply_done_inv [OF assms(1) g'] by (cases "o_kind res") auto
qed

lemma record_score_inv:
  assumes "rest_inv st" and "record_score s st = (pos, outs, st')"
  shows "rest_inv st'" and "games_inv st' = games_inv st" and "timers_upto K st' = timers_upto K st"
    and "r_games st' = r_games st"
proof -
  let ?hs = "take 10 (sort_key (\<lambda>x. - s_score x) (r_hiscores st @ [s]))"
  have "sorted (map (\<lambda>x. - s_score x) (sort_key (\<lambda>x. - s_score x) (r_hiscores st @ [s])))" by simp
  then have "sorted_wrt (\<lambda>a b. s_score b \<le> s_score a) (sort_key (\<lambda>x. - s_score x) (r_hiscores st @ [s]))"
    by (simp only: sorted_map neg_le_iff_le)
  then have "sorted_wrt (\<lambda>a b. s_score b \<le> s_score a) ?hs" by (rule sorted_wrt_take)
  moreover have "\<forall>x \<in> set ?hs. 0 < s_score x" if "0 < s_score s"
    using assms(1) that by (auto simp: rest_inv_def dest!: in_set_takeD)
  ultimately show "rest_inv st'"
    using assms by (auto simp: record_score_def rest_inv_def split: if_splits)
  have f: "r_games st' = r_games st" "r_gen st' = r_gen st" "r_timers st' = r_timers st"
    using assms(2) by (auto simp: record_score_def split: if_splits)
  show "games_inv st' = games_inv st" by (rule games_frame [OF f(1)])
  show "timers_upto K st' = timers_upto K st" by (rule timers_frame [OF f])
  show "r_games st' = r_games st" by (rule f(1))
qed

lemma solve_move_inv:
  assumes st: "rvf_inv st" and g: "game_inv g" and ps: "g_players g \<noteq> []"
  shows "goes_on (solve_move env chan key g attempt st)"
proof -
  obtain p where p: "current g = Some p" using current_some [OF g ps] by blast
  obtain b g' where s: "solve attempt g = Some (b, g')" and g': "game_inv g'" "g_players g' \<noteq> []"
    using solve_inv [OF g ps] by blast
  show ?thesis
  proof (cases b)
    case False
    then show ?thesis using p s reply_done_inv [OF st g'] by (auto simp: solve_move_def)
  next
    case True
    obtain art st1 where r: "roll env victory_arts st = (art, st1)" by (cases "roll env victory_arts st")
    have st1: "rvf_inv st1" using roll_inv [OF r] st by simp
    define sc where "sc = \<lparr>s_nick = p_nick p, s_channel = key_channel key, s_lang = g_lang g,
       s_score = p_money p, s_when = e_now env, s_puzzle = g_puzzle g\<rparr>"
    obtain pos outs st2 where h: "record_score sc st1 = (pos, outs, st2)" by (cases "record_score sc st1")
    have "rvf_inv (snd (end_game key st2))"
      using record_score_inv [OF _ h] st1 upto_weaken by (intro end_inv) (auto simp: rvf_inv_def)
    then show ?thesis
      using p s r True h by (simp add: solve_move_def flip: sc_def) (simp add: end_game_def)
  qed
qed

lemma handle_move_inv:
  assumes st: "rvf_inv st" and g: "game_inv g" and ps: "g_players g \<noteq> []"
  shows "goes_on (handle_move env chan key g txt st)"
proof -
  obtain p where p: "current g = Some p" using current_some [OF g ps] by blast
  obtain i st1 where r: "roll env 4 st = (i, st1)" by (cases "roll env 4 st")
  have st1: "rvf_inv st1" using roll_inv [OF r] st by simp
  show ?thesis
  proof (cases "g_state g")
    case StateLetter
    then show ?thesis
      using p r st st1 letter_move_inv [OF st g ps]
      by (cases "letter_re txt") (auto simp: handle_move_def)
  next
    case act: StateAction
    obtain g' where g': "pass g = Some g'" "game_inv g'" "g_players g' \<noteq> []"
      using advance_inv [OF g ps] by (auto simp: pass_def)
    have pass: "goes_on (reply_done env chan key [] True g' (g_turn g) st)"
      using reply_done_inv [OF st g'(2,3)] by blast
    show ?thesis
      using p act r st st1 g'(1) pass spin_move_inv [OF st g ps act] buy_move_inv [OF st g ps]
        solve_move_inv [OF st g ps]
      by (cases "buy_re (g_lang g) txt"; cases "solve_re (g_lang g) txt")
        (simp_all add: handle_move_def)
  qed
qed

lemma on_msg_inv:
  assumes st: "rvf_inv st"
  shows "\<exists>h outs st'. on_msg env ev st = Some (h, outs, st') \<and> rvf_inv st'"
proof (cases "sender_me ev \<or> msg ev = [] \<or> map_of (r_games st) (game_key (server ev) (channel ev)) = None")
  case True
  then show ?thesis using st by (auto simp: on_msg_def)
next
  case False
  let ?key = "game_key (server ev) (channel ev)"
  from False obtain g where m: "map_of (r_games st) ?key = Some g" by auto
  have g: "game_inv g" "g_players g \<noteq> []"
    using games_get [OF _ m] st by (auto simp: rvf_inv_def game_ok_def)
  obtain p where p: "current g = Some p" using current_some [OF g] by blast
  obtain b outs st' where hm: "handle_move env (channel ev) ?key g (msg ev) st = Some (b, outs, st')" "rvf_inv st'"
    using handle_move_inv [OF st g] unfolding goes_on_def by blast
  show ?thesis
    using False m p hm st by (auto simp: on_msg_def)
qed

lemma turn_timeout_inv:
  assumes "games_inv st" and t: "timers_upto {key} st" and "rest_inv st"
    and m: "map_of (r_games st) key = Some g0"
  shows "\<exists>outs st'. turn_timeout env key st = Some (outs, st') \<and> rvf_inv st'"
proof -
  have g0: "game_inv g0" "g_players g0 \<noteq> []"
    using games_get [OF assms(1) m] by (auto simp: game_ok_def)
  obtain cur where c: "current g0 = Some cur" using current_some [OF g0] by blast
  let ?g = "set_missed (g_turn g0) (p_missed cur + 1) g0"
  have g: "game_inv ?g" "g_players ?g \<noteq> []" using missed_inv [OF g0] by simp_all
  show ?thesis
  proof (cases "e_max_missed env \<le> p_missed cur + 1")
    case True
    obtain who g' where d: "drop_current ?g = Some (who, g')" "game_inv g'"
      using drop_current_inv [OF g] by blast
    show ?thesis
    proof (cases "g_players g' = []")
      case e: True
      then show ?thesis
        using c m d True end_inv [OF assms(1-3)] by (simp add: turn_timeout_def end_game_def)
    next
      case ne: False
      obtain s where "status env g' = Some s" using status_some [OF d(2) ne] by blast
      then show ?thesis
        using c m d True ne put_inv [OF assms(1-3), of g'] by (simp add: turn_timeout_def game_ok_def)
    qed
  next
    case False
    obtain g' where p: "pass ?g = Some g'" "game_inv g'" "g_players g' \<noteq> []"
      using advance_inv [OF g] by (auto simp: pass_def)
    obtain s where "status env g' = Some s" using status_some [OF p(2,3)] by blast
    then show ?thesis
      using c m p False put_inv [OF assms(1-3), of g'] by (auto simp add: turn_timeout_def game_ok_def)
  qed
qed

lemma fire_inv:
  assumes st: "rvf_inv st" and t: "t \<in> set (r_timers st)"
  shows "\<exists>outs st'. fire_timer env t st = Some (outs, st') \<and> rvf_inv st'"
proof -
  let ?st = "st\<lparr>r_timers := remove1 t (r_timers st)\<rparr>"
  have u: "timers_upto {} st" and g: "games_inv ?st" and h: "rest_inv ?st"
    using st by (auto simp: rvf_inv_def games_inv_def rest_inv_def)
  show ?thesis
  proof (cases "get_or 0 (fst t) (r_gen st) = snd t")
    case True
    then have "live st (fst t)" using t by (simp add: live_def)
    then have "fst t \<in> fst ` set (r_games st)" using u by (simp add: timers_upto_def running_def)
    then have "map_of (r_games ?st) (fst t) \<noteq> None" by (simp add: map_of_None_iff)
    then obtain g0 where "map_of (r_games ?st) (fst t) = Some g0" by blast
    from turn_timeout_inv [OF g upto_fired(1) [OF u] h this] show ?thesis
      using True st by (simp add: fire_timer_def rvf_inv_def rest_inv_def)
  next
    case False
    then show ?thesis
      using upto_fired(2) [OF u] g h by (auto simp: fire_timer_def rvf_inv_def)
  qed
qed

section \<open>Runs\<close>

datatype rvf_op =
    Op_msg event
  | Op_start event string
  | Op_stop event
  | Op_fire nat  \<comment> \<open>one of the pending timers, in any order\<close>
  | Op_admin string

primrec rvf_step :: "rvf_env \<Rightarrow> rvf_op \<Rightarrow> rvf \<Rightarrow> (rvf_out list \<times> rvf) option" where
  "rvf_step env (Op_msg ev) st = map_option snd (on_msg env ev st)"
| "rvf_step env (Op_start ev data) st = cb_start env ev data st"
| "rvf_step env (Op_stop ev) st = Some (cb_stop ev st)"
| "rvf_step env (Op_fire i) st =
     (if i < length (r_timers st) then fire_timer env (r_timers st ! i) st else Some ([], st))"
| "rvf_step env (Op_admin line) st = Some (snd (admin_run env line st))"

fun rvf_run :: "(rvf_env \<times> rvf_op) list \<Rightarrow> rvf \<Rightarrow> rvf option" where
  \<comment> \<open>each operation sees the settings, members and clock of its moment\<close>
  "rvf_run [] st = Some st"
| "rvf_run ((env, op) # ops) st =
     (case rvf_step env op st of None \<Rightarrow> None | Some (outs, st') \<Rightarrow> rvf_run ops st')"

lemma start_nicks_inr: "start_players env ev data = Inr nicks \<Longrightarrow> nicks \<noteq> []"
  by (auto simp: start_players_def split: sum.splits if_splits option.splits)

lemma pick_puzzle_frame:
  assumes "pick_puzzle env lang st = (p, outs, st')"
  shows "r_games st' = r_games st" and "r_gen st' = r_gen st" and "r_timers st' = r_timers st"
    and "r_hiscores st' = r_hiscores st" and "r_unloaded st' = r_unloaded st"
  using assms by (auto simp: pick_puzzle_def roll_def split: if_splits)

lemma new_game_ok: "nicks \<noteq> [] \<Longrightarrow> game_ok (key, (new_game lang cat tx nicks)\<lparr>g_query := q\<rparr>)"
  using new_game_inv [of lang cat tx nicks] by (simp add: game_ok_def game_inv_def new_game_def)

lemma cb_start_inv:
  assumes st: "rvf_inv st"
  shows "\<exists>outs st'. cb_start env ev data st = Some (outs, st') \<and> rvf_inv st'"
proof (cases "start_players env ev data")
  case (Inl p)
  then show ?thesis using st by (auto simp: cb_start_def)
next
  case (Inr nicks)
  let ?lang = "lang_for env (channel ev)"
  let ?key = "game_key (server ev) (channel ev)"
  obtain p outs st1 where pp: "pick_puzzle env ?lang st = (p, outs, st1)"
    by (cases "pick_puzzle env ?lang st")
  note f = pick_puzzle_frame [OF pp]
  have st1: "games_inv st1" "timers_upto {} st1" "rest_inv st1"
    using st unfolding rvf_inv_def
    by (simp_all only: games_frame [OF f(1)] timers_frame [OF f(1-3)] hiscores_frame [OF f(4,5)])
  show ?thesis
  proof (cases p)
    case None
    then show ?thesis using Inr pp st st1 by (auto simp: cb_start_def rvf_inv_def)
  next
    case (Some z)
    let ?g = "(new_game ?lang (z_category z) (z_text z) nicks)\<lparr>g_query := query ev\<rparr>"
    have g: "game_ok (?key, ?g)" using new_game_ok start_nicks_inr [OF Inr] by blast
    then obtain s where s: "status env ?g = Some s" using status_some by (fastforce simp: game_ok_def)
    have "rvf_inv (arm_timer ?key (put_game ?key ?g st1))"
      using put_inv [OF st1(1) upto_weaken [OF st1(2)] st1(3) g] .
    then show ?thesis
      using Inr pp st Some s by (cases "query ev") (auto simp: cb_start_def)
  qed
qed

lemma cb_stop_inv: "rvf_inv st \<Longrightarrow> rvf_inv (snd (cb_stop ev st))"
proof -
  assume "rvf_inv st"
  then have "rvf_inv (snd (end_game key st))" for key
    using end_inv upto_weaken unfolding rvf_inv_def by blast
  with \<open>rvf_inv st\<close> show ?thesis
    by (auto simp: cb_stop_def end_game_def split: option.splits)
qed

lemma admin_frame:
  "r_games (snd (snd (admin_run env line st))) = r_games st"
  "r_gen (snd (snd (admin_run env line st))) = r_gen st"
  "r_timers (snd (snd (admin_run env line st))) = r_timers st"
  "r_hiscores (snd (snd (admin_run env line st))) = r_hiscores st"
  "r_unloaded (snd (snd (admin_run env line st))) = r_unloaded st"
  by (simp_all add: admin_run_def admin_add_def admin_del_def split: option.splits list.splits)

lemma rvf_step_inv:
  assumes "rvf_inv st"
  shows "\<exists>outs st'. rvf_step env op st = Some (outs, st') \<and> rvf_inv st'"
proof (cases op)
  case (Op_msg ev)
  obtain h outs st' where "on_msg env ev st = Some (h, outs, st')" "rvf_inv st'"
    using on_msg_inv [OF assms] by blast
  then show ?thesis using Op_msg by simp
next
  case (Op_start ev data)
  then show ?thesis using cb_start_inv [OF assms] by simp
next
  case (Op_stop ev)
  then show ?thesis using cb_stop_inv [OF assms] by (cases "cb_stop ev st") (metis rvf_step.simps(3) snd_conv)
next
  case (Op_fire i)
  then show ?thesis using fire_inv [OF assms _, of "r_timers st ! i"] assms by simp
next
  case (Op_admin line)
  have "rvf_inv (snd (snd (admin_run env line st)))"
    using assms(1) unfolding rvf_inv_def
    by (simp only: games_frame [OF admin_frame(1)] timers_frame [OF admin_frame(1-3)]
      hiscores_frame [OF admin_frame(4,5)] simp_thms)
  then show ?thesis using Op_admin by (cases "snd (admin_run env line st)") auto
qed

lemma rvf_run_inv: "rvf_inv st \<Longrightarrow> \<exists>st'. rvf_run ops st = Some st' \<and> rvf_inv st'"
proof (induction ops st rule: rvf_run.induct)
  case (2 env op ops st)
  obtain outs st' where s: "rvf_step env op st = Some (outs, st')" "rvf_inv st'"
    using rvf_step_inv [OF "2.prems"] by blast
  with "2.IH" [OF s(1) refl s(2)] show ?case by simp
qed simp

lemma load_inv:
  assumes "\<forall>e \<in> set es. game_ok e \<and> fst e \<in> fst ` set (r_games st)"
    and "games_inv st" and "timers_upto (fst ` set es) st" and "rest_inv st"
  shows "rvf_inv (fold load_game es st)"
  using assms
proof (induction es arbitrary: st)
  case (Cons e es)
  define g where "g = (if key_channel (fst e) \<noteq> [] \<and> hd (key_channel (fst e)) \<notin> set ''#&+!''
      then (snd e)\<lparr>g_query := True\<rparr> else snd e)"
  let ?st = "arm_timer (fst e) (put_game (fst e) g st)"
  have "game_inv (g0\<lparr>g_query := q\<rparr>) = game_inv g0" for g0 q by (simp add: game_inv_def)
  then have ok: "game_ok (fst e, g)" using Cons.prems(1) by (simp add: game_ok_def g_def)
  have t: "timers_upto (fst ` set es) ?st" using Cons.prems(3) by (intro upto_arm) simp
  have f: "fst ` set (r_games st) \<subseteq> fst ` set (r_games ?st)" by (auto simp: arm_timer_def put_game_def)
  have "rvf_inv (fold load_game es ?st)"
    using Cons.prems f by (intro Cons.IH games_put ok t) (auto simp: hiscores_keep)
  moreover have "load_game e st = ?st" unfolding load_game_def g_def Let_def by (rule refl)
  ultimately show ?case by simp
qed (simp add: rvf_inv_def)

section \<open>Properties\<close>


definition demo_env :: rvf_env where
  "demo_env = \<lparr>e_vowel_cost = 250, e_max_missed = 2, e_chans_nl = ''#rad'', e_chans_en = [],
     e_corpus = (\<lambda>_. ''Spel: koek''), e_members = (\<lambda>_. []), e_rand = (\<lambda>_ _. 0), e_now = 0\<rparr>"

definition demo_game :: game where
  "demo_game = new_game ''nl'' ''Spel'' ''koek'' [''jan'', ''piet'']"


end
