(* ===== verification/Guard.thy ===== *)
theory Guard
  imports Conf Bus Go_Utf8 "HOL-Library.Monad_Syntax"
begin

text \<open>
  modules/guard: the spam gatekeeper, guard.go and enforce.go. The state has the residents, the
  suspects and the counters of the module, and the settings registry it shares with the core, read and
  changed through the operations of \<open>Conf\<close>. What it sends is a list of \<open>guard_out\<close>; an operation is
  \<open>None\<close> when it panics, which it does when a setting is read that was not created. Instants are
  integers in nanoseconds since the epoch.
\<close>

section \<open>State\<close>

record stamp =
  st_text :: string
  st_when :: int

record suspect =
  su_nick :: string
  su_host :: string
  su_lines :: "stamp list"
  su_joins :: "stamp list"
  su_channels :: "(string \<times> bool) list"
  su_actioned :: bool

record guard =
  gd_conf :: conf
  gd_residents :: "(string \<times> (string \<times> int) list) list"
  gd_dirty :: bool
  gd_strangers :: int
  gd_actions :: int
  gd_suspects :: "(string \<times> suspect) list"

datatype guard_out = Send_raw string | Say string string | Put_residents "(string \<times> (string \<times> int) list) list"

type_synonym float_ok = "string \<Rightarrow> bool"

definition seen_slack :: int where "seen_slack = 3600"

definition nanos :: int where "nanos = 1000000000"

definition unix :: "int \<Rightarrow> int" where
  "unix now = now div nanos"

definition guard_settings :: "float_ok \<Rightarrow> conf \<Rightarrow> conf" where
  "guard_settings fo c =
     create_string fo ''guard_auth_password'' []
       (create_int fo ''guard_line_window_sec'' 4
         (create_int fo ''guard_line_rate'' 6
           (create_int fo ''guard_join_window_sec'' 20
             (create_int fo ''guard_join_channels'' 4
               (create_int fo ''guard_dup_channels'' 2
                 (create_int fo ''guard_gline_seconds'' 3600
                   (create_int fo ''guard_resident_days'' 90
                     (create_bool fo ''guard_enabled'' False c))))))))"

definition enabled :: "float_ok \<Rightarrow> guard \<Rightarrow> bool option" where
  "enabled fo g = conf_bool fo (gd_conf g) ''guard_enabled''"

definition mask_of :: "event \<Rightarrow> string" where
  "mask_of ev =
     (let s = ev_sender ev in
      if sender_me ev \<or> user s = [] \<or> host s = [] then [] else to_lower (user s @ ''@'' @ host s))"

definition residents_of :: "string \<Rightarrow> guard \<Rightarrow> (string \<times> int) list" where
  "residents_of srv g = (case map_of (gd_residents g) srv of Some m \<Rightarrow> m | None \<Rightarrow> [])"

definition is_resident :: "string \<Rightarrow> string \<Rightarrow> guard \<Rightarrow> bool" where
  "is_resident srv mk g = (map_of (residents_of srv g) mk \<noteq> None)"

definition put_resident :: "string \<Rightarrow> string \<Rightarrow> int \<Rightarrow> guard \<Rightarrow> guard" where
  "put_resident srv mk t g =
     g\<lparr>gd_residents := AList.update srv (AList.update mk t (residents_of srv g)) (gd_residents g),
       gd_dirty := True\<rparr>"

definition record_seen :: "float_ok \<Rightarrow> int \<Rightarrow> string \<Rightarrow> string \<Rightarrow> guard \<Rightarrow> guard option" where
  \<comment> \<open>\<open>record\<close>\<close>
  "record_seen fo now srv mk g =
     (if mk = [] then Some g
      else
        (case map_of (residents_of srv g) mk of
           Some prev \<Rightarrow> Some (if unix now - prev < seen_slack then g else put_resident srv mk (unix now) g)
         | None \<Rightarrow>
             do { on \<leftarrow> enabled fo g;
                  Some (if on then g else put_resident srv mk (unix now) g) }))"

section \<open>Enforcement\<close>

definition prune :: "stamp list \<Rightarrow> int \<Rightarrow> int \<Rightarrow> stamp list" where
  "prune stamps now window = dropWhile (\<lambda>s. st_when s < now - window) stamps"

definition distinct_texts :: "stamp list \<Rightarrow> int" where
  "distinct_texts stamps = int (length (remdups (map st_text stamps)))"

definition dup_channels :: "suspect \<Rightarrow> string \<Rightarrow> int" where
  "dup_channels s txt =
     min (int (length (filter (\<lambda>l. st_text l = txt) (su_lines s)))) (int (length (su_channels s)))"

definition no_suspect :: suspect where
  "no_suspect = \<lparr>su_nick = [], su_host = [], su_lines = [], su_joins = [], su_channels = [], su_actioned = False\<rparr>"

definition suspect_for :: "string \<Rightarrow> string \<Rightarrow> string \<Rightarrow> guard \<Rightarrow> suspect" where
  "suspect_for mk who hst g =
     (case map_of (gd_suspects g) mk of Some s \<Rightarrow> s | None \<Rightarrow> no_suspect)\<lparr>su_nick := who, su_host := hst\<rparr>"

definition put_suspect :: "string \<Rightarrow> suspect \<Rightarrow> guard \<Rightarrow> guard" where
  \<comment> \<open>what is assigned through the pointer in the map\<close>
  "put_suspect mk s g = g\<lparr>gd_suspects := AList.update mk s (gd_suspects g)\<rparr>"

definition gline :: "string \<Rightarrow> int \<Rightarrow> string \<Rightarrow> string" where
  "gline hst secs why = ''GLINE *@'' @ hst @ '' '' @ int_str secs @ ''s :'' @ why"

definition enforce :: "float_ok \<Rightarrow> string \<Rightarrow> suspect \<Rightarrow> string \<Rightarrow> guard \<Rightarrow> (guard_out list \<times> guard) option" where
  "enforce fo mk s why g =
     do { secs \<leftarrow> conf_int fo (gd_conf g) ''guard_gline_seconds'';
          let reason = ''spam guard: '' @ why;
          Some (Send_raw (gline (su_host s) secs reason) #
                  map (\<lambda>ch. Send_raw (''KICK '' @ ch @ '' '' @ su_nick s @ '' :'' @ reason))
                    (map fst (su_channels s)),
                (put_suspect mk (s\<lparr>su_actioned := True\<rparr>) g)\<lparr>gd_actions := gd_actions g + 1\<rparr>) }"

definition watched :: "float_ok \<Rightarrow> event \<Rightarrow> string \<Rightarrow> guard \<Rightarrow> bool option" where
  \<comment> \<open>the early return both watchers start with\<close>
  "watched fo ev mk g =
     (if mk = [] then Some False
      else do { on \<leftarrow> enabled fo g; Some (on \<and> \<not> is_resident (server ev) mk g) })"

definition watch_line :: "float_ok \<Rightarrow> int \<Rightarrow> event \<Rightarrow> string \<Rightarrow> guard \<Rightarrow> (guard_out list \<times> guard) option" where
  "watch_line fo now ev mk g =
     do { w \<leftarrow> watched fo ev mk g;
          if \<not> w then Some ([], g)
          else
            (let s0 = suspect_for mk (nick (ev_sender ev)) (host (ev_sender ev)) g in
             if su_actioned s0 then Some ([], put_suspect mk s0 g)
             else do {
               window \<leftarrow> conf_int fo (gd_conf g) ''guard_line_window_sec'';
               let s = s0\<lparr>su_channels := AList.update (channel ev) True (su_channels s0),
                          su_lines := prune (su_lines s0 @ [\<lparr>st_text = msg ev, st_when = now\<rparr>]) now
                                        (window * nanos)\<rparr>;
               rate \<leftarrow> conf_int fo (gd_conf g) ''guard_line_rate'';
               if rate \<le> int (length (su_lines s)) then enforce fo mk s ''line flooding'' g
               else do {
                 dups \<leftarrow> conf_int fo (gd_conf g) ''guard_dup_channels'';
                 if dups \<le> dup_channels s (msg ev)
                 then enforce fo mk s ''same message to multiple channels'' g
                 else Some ([], put_suspect mk s g) } }) }"

definition watch_join :: "float_ok \<Rightarrow> int \<Rightarrow> event \<Rightarrow> string \<Rightarrow> guard \<Rightarrow> (guard_out list \<times> guard) option" where
  "watch_join fo now ev mk g =
     do { w \<leftarrow> watched fo ev mk g;
          if \<not> w then Some ([], g)
          else
            (let s0 = suspect_for mk (nick (ev_sender ev)) (host (ev_sender ev)) g in
             if su_actioned s0 then Some ([], put_suspect mk s0 g)
             else do {
               window \<leftarrow> conf_int fo (gd_conf g) ''guard_join_window_sec'';
               let s = s0\<lparr>su_channels := AList.update (channel ev) True (su_channels s0),
                          su_joins := prune (su_joins s0 @ [\<lparr>st_text = channel ev, st_when = now\<rparr>]) now
                                        (window * nanos)\<rparr>;
               chans \<leftarrow> conf_int fo (gd_conf g) ''guard_join_channels'';
               if chans \<le> distinct_texts (su_joins s)
               then enforce fo mk s ''joining many channels at once'' g
               else Some ([], put_suspect mk s g) }) }"

definition try_auth :: "float_ok \<Rightarrow> int \<Rightarrow> event \<Rightarrow> guard \<Rightarrow> (bool \<times> guard_out list \<times> guard) option" where
  "try_auth fo now ev g =
     (let txt = trim_space (msg ev); who = nick (ev_sender ev); mk = mask_of ev in
      if \<not> has_prefix ''auth'' txt then Some (False, [], g)
      else do {
        let pass = trim_space (drop 4 txt);
        want \<leftarrow> conf_string fo (gd_conf g) ''guard_auth_password'';
        if want = [] \<or> pass \<noteq> want then
          Some (True, [Say who ''Guard: authentication failed.''], g)
        else
          (let g' = put_resident (server ev) mk (unix now) g in
           Some (True, [Say who ''Guard: you are cleared. Welcome.''],
                 g'\<lparr>gd_suspects := AList.delete mk (gd_suspects g')\<rparr>)) })"

section \<open>Hooks and commands\<close>

definition on_seen :: "float_ok \<Rightarrow> int \<Rightarrow> event \<Rightarrow> guard \<Rightarrow> (guard_out list \<times> guard) option" where
  "on_seen fo now ev g =
     do { (handled, outs0, g0) \<leftarrow> (if query ev then try_auth fo now ev g else Some (False, [], g));
          if handled then Some (outs0, g0)
          else do {
            (outs, g1) \<leftarrow> watch_line fo now ev (mask_of ev) g0;
            g2 \<leftarrow> record_seen fo now (server ev) (mask_of ev) g1;
            Some (outs0 @ outs, g2) } }"

definition on_join_seen :: "float_ok \<Rightarrow> int \<Rightarrow> event \<Rightarrow> guard \<Rightarrow> (guard_out list \<times> guard) option" where
  "on_join_seen fo now ev g =
     (let mk = mask_of ev in
      do { w \<leftarrow> watched fo ev mk g;
           (outs, g1) \<leftarrow> (if w then watch_join fo now ev mk (g\<lparr>gd_strangers := gd_strangers g + 1\<rparr>)
                          else Some ([], g));
           g2 \<leftarrow> record_seen fo now (server ev) mk g1;
           Some (outs, g2) })"

definition guard_flush :: "bool \<Rightarrow> guard \<Rightarrow> guard_out list \<times> guard" where
  \<comment> \<open>the flag says whether the store accepts the write\<close>
  "guard_flush put_ok g =
     (if \<not> gd_dirty g then ([], g)
      else ([Put_residents (gd_residents g)], if put_ok then g\<lparr>gd_dirty := False\<rparr> else g))"

definition guard_on :: "float_ok \<Rightarrow> guard \<Rightarrow> conf_error + guard" where
  "guard_on fo g =
     (case conf_set fo ''guard_enabled'' ''true'' (gd_conf g) of
        Inl e \<Rightarrow> Inl e
      | Inr (_, c) \<Rightarrow> Inr (g\<lparr>gd_conf := c\<rparr>))"

definition guard_off :: "float_ok \<Rightarrow> guard \<Rightarrow> conf_error + guard" where
  "guard_off fo g =
     (case conf_set fo ''guard_enabled'' ''false'' (gd_conf g) of
        Inl e \<Rightarrow> Inl e
      | Inr (_, c) \<Rightarrow> Inr (g\<lparr>gd_conf := c, gd_suspects := []\<rparr>))"

definition resident_total :: "guard \<Rightarrow> int" where
  "resident_total g = int (sum_list (map (\<lambda>(srv, m). length m) (gd_residents g)))"

definition guard_status :: "float_ok \<Rightarrow> guard \<Rightarrow> string option" where
  "guard_status fo g =
     do { on \<leftarrow> enabled fo g;
          Some (''Guard: '' @ (if on then ''{r}ON{/} (trust set frozen)'' else ''{g}off{/} (learning residents)'') @
            ''. '' @ int_str (resident_total g) @ '' resident'' @ (if resident_total g = 1 then [] else ''s'') @
            '' known, '' @ int_str (gd_strangers g) @ '' stranger joins seen, '' @
            int_str (gd_actions g) @ '' enforced (since load).'') }"

definition age :: "float_ok \<Rightarrow> int \<Rightarrow> guard \<Rightarrow> guard option" where
  "age fo now g =
     do { days \<leftarrow> conf_int fo (gd_conf g) ''guard_resident_days'';
          let cutoff = unix (now - days * 24 * 3600 * nanos);
          let kept = map (\<lambda>(srv, m). (srv, filter (\<lambda>(mk, seen). \<not> seen < cutoff) m)) (gd_residents g);
          let old = list_ex (\<lambda>(srv, m). list_ex (\<lambda>(mk, seen). seen < cutoff) m) (gd_residents g);
          Some (g\<lparr>gd_residents := filter (\<lambda>(srv, m). m \<noteq> []) kept, gd_dirty := gd_dirty g \<or> old\<rparr>) }"

definition guard_load ::
  "float_ok \<Rightarrow> int \<Rightarrow> conf \<Rightarrow> (string \<times> (string \<times> int) list) list \<Rightarrow> guard option" where
  "guard_load fo now c stored_residents =
     age fo now \<lparr>gd_conf = guard_settings fo c, gd_residents = stored_residents, gd_dirty = False,
       gd_strangers = 0, gd_actions = 0, gd_suspects = []\<rparr>"

section \<open>Runs\<close>

datatype guard_op = Seen int event | Joined int event | Flush bool

primrec guard_step :: "float_ok \<Rightarrow> guard_op \<Rightarrow> guard \<Rightarrow> (guard_out list \<times> guard) option" where
  "guard_step fo (Seen now ev) g = on_seen fo now ev g"
| "guard_step fo (Joined now ev) g = on_join_seen fo now ev g"
| "guard_step fo (Flush put_ok) g = Some (guard_flush put_ok g)"

fun guard_run :: "float_ok \<Rightarrow> guard_op list \<Rightarrow> guard \<Rightarrow> ((guard_op \<times> guard_out list) list \<times> guard) option" where
  "guard_run fo [] g = Some ([], g)"
| "guard_run fo (op # ops) g =
     do { (outs, g1) \<leftarrow> guard_step fo op g;
          (trace, g2) \<leftarrow> guard_run fo ops g1;
          Some ((op, outs) # trace, g2) }"

primrec is_gline :: "guard_out \<Rightarrow> bool" where
  "is_gline (Send_raw l) = has_prefix ''GLINE'' l"
| "is_gline (Say who txt) = False"
| "is_gline (Put_residents r) = False"

definition glines :: "guard_out list \<Rightarrow> bool" where
  "glines outs = list_ex is_gline outs"

definition spent :: "string \<Rightarrow> string \<Rightarrow> guard \<Rightarrow> bool" where
  \<comment> \<open>the guard will not act on the mask again\<close>
  "spent srv mk g =
     (is_resident srv mk g \<or> (\<exists>s. map_of (gd_suspects g) mk = Some s \<and> su_actioned s))"

definition settings_ok :: "conf \<Rightarrow> bool" where
  "settings_ok c =
     (has_kind c ''guard_enabled'' Kind_bool \<and> has_kind c ''guard_auth_password'' Kind_string \<and>
      list_all (\<lambda>n. has_kind c n Kind_int)
        [''guard_resident_days'', ''guard_gline_seconds'', ''guard_dup_channels'', ''guard_join_channels'',
         ''guard_join_window_sec'', ''guard_line_rate'', ''guard_line_window_sec''])"

lemma put_suspect_simps [simp]:
  "gd_conf (put_suspect mk s g) = gd_conf g"
  "gd_residents (put_suspect mk s g) = gd_residents g"
  "is_resident srv mk' (put_suspect mk s g) = is_resident srv mk' g"
  by (simp_all add: put_suspect_def is_resident_def residents_of_def)

lemma spent_put:
  "spent srv mk' (put_suspect mk s g) =
    (is_resident srv mk' g \<or> (if mk' = mk then su_actioned s
      else \<exists>s'. map_of (gd_suspects g) mk' = Some s' \<and> su_actioned s'))"
  by (auto simp: spent_def) (auto simp: put_suspect_def)

lemma suspect_actioned:
  "su_actioned (suspect_for mk who hst g) =
    (\<exists>s. map_of (gd_suspects g) mk = Some s \<and> su_actioned s)"
  by (auto simp: suspect_for_def no_suspect_def split: option.splits)

lemma has_prefix_head: "take (length p) s = p \<Longrightarrow> has_prefix p s"
  by (simp add: has_prefix_def)

lemma enforce_facts:
  assumes "enforce fo mk s why g = Some (outs, g')"
  shows "glines outs" and "gd_conf g' = gd_conf g" and "gd_residents g' = gd_residents g"
    and "spent srv mk g'" and "spent srv mk' g \<Longrightarrow> spent srv mk' g'"
proof -
  obtain secs where s: "conf_int fo (gd_conf g) ''guard_gline_seconds'' = Some secs"
    using assms by (auto simp: enforce_def bind_eq_Some_conv)
  let ?g = "put_suspect mk (s\<lparr>su_actioned := True\<rparr>) g"
  have g': "g' = ?g\<lparr>gd_actions := gd_actions g + 1\<rparr>"
    and outs: "hd outs = Send_raw (gline (su_host s) secs (''spam guard: '' @ why))" "outs \<noteq> []"
    using assms by (auto simp: enforce_def s)
  have "is_gline (hd outs)" unfolding outs(1) is_gline.simps gline_def by (rule has_prefix_head) simp
  then show "glines outs" using outs(2) by (cases outs) (simp_all add: glines_def)
  show "gd_conf g' = gd_conf g" "gd_residents g' = gd_residents g" by (simp_all add: g')
  have sp: "spent srv m g' = spent srv m ?g" for m
    by (simp add: g' spent_def is_resident_def residents_of_def)
  show "spent srv mk g'" by (simp add: sp spent_put)
  show "spent srv mk' g'" if "spent srv mk' g" using that by (simp add: sp spent_put) (simp add: spent_def)
qed

text \<open>What a watcher does: nothing, or note the suspect, or enforce, and never on a spent mask.\<close>

definition watch_ok :: "event \<Rightarrow> string \<Rightarrow> guard \<Rightarrow> guard_out list \<times> guard \<Rightarrow> bool" where
  "watch_ok ev mk g r =
     (case r of (outs, g') \<Rightarrow>
       gd_conf g' = gd_conf g \<and> gd_residents g' = gd_residents g \<and>
       (\<forall>srv mk'. spent srv mk' g \<longrightarrow> spent srv mk' g') \<and>
       (glines outs \<longrightarrow> \<not> spent (server ev) mk g \<and> spent (server ev) mk g'))"

lemma watch_ok_quiet: "watch_ok ev mk g ([], g)"
  by (simp add: watch_ok_def glines_def)

lemma watch_ok_put:
  "(su_actioned s = su_actioned (suspect_for mk who hst g)) \<Longrightarrow> watch_ok ev mk g ([], put_suspect mk s g)"
  by (auto simp: watch_ok_def glines_def spent_put suspect_actioned) (auto simp: spent_def)

lemma watch_ok_enforce:
  assumes "enforce fo mk s why g = Some r" and "\<not> spent (server ev) mk g"
  shows "watch_ok ev mk g r"
  using enforce_facts [of fo mk s why g "fst r" "snd r"] assms by (cases r) (simp add: watch_ok_def)

lemma watched_spent:
  "watched fo ev mk g = Some True \<Longrightarrow> \<not> su_actioned (suspect_for mk who hst g) \<Longrightarrow> \<not> spent (server ev) mk g"
  by (auto simp: watched_def spent_def suspect_actioned bind_eq_Some_conv split: if_splits)

lemma watch_line_ok:
  assumes "watch_line fo now ev mk g = Some r"
  shows "watch_ok ev mk g r"
proof -
  from assms obtain w where w: "watched fo ev mk g = Some w"
    unfolding watch_line_def by (auto simp: bind_eq_Some_conv)
  let ?s0 = "suspect_for mk (nick (ev_sender ev)) (host (ev_sender ev)) g"
  consider "\<not> w" | "w" "su_actioned ?s0" | "w" "\<not> su_actioned ?s0" by blast
  then show ?thesis
  proof cases
    case 1
    then show ?thesis using assms w by (auto simp: watch_line_def watch_ok_quiet)
  next
    case 2
    then show ?thesis using assms w by (auto simp: watch_line_def intro: watch_ok_put)
  next
    case 3
    then have ns: "\<not> spent (server ev) mk g" using w watched_spent by simp
    show ?thesis
      using assms w 3
      by (auto simp: watch_line_def bind_eq_Some_conv split: if_splits
          intro: watch_ok_enforce [OF _ ns] watch_ok_put [where who = "nick (ev_sender ev)" and hst = "host (ev_sender ev)"])
  qed
qed

lemma watch_join_ok:
  assumes "watch_join fo now ev mk g = Some r"
  shows "watch_ok ev mk g r"
proof -
  from assms obtain w where w: "watched fo ev mk g = Some w"
    unfolding watch_join_def by (auto simp: bind_eq_Some_conv)
  let ?s0 = "suspect_for mk (nick (ev_sender ev)) (host (ev_sender ev)) g"
  consider "\<not> w" | "w" "su_actioned ?s0" | "w" "\<not> su_actioned ?s0" by blast
  then show ?thesis
  proof cases
    case 1
    then show ?thesis using assms w by (auto simp: watch_join_def watch_ok_quiet)
  next
    case 2
    then show ?thesis using assms w by (auto simp: watch_join_def intro: watch_ok_put)
  next
    case 3
    then have ns: "\<not> spent (server ev) mk g" using w watched_spent by simp
    show ?thesis
      using assms w 3
      by (auto simp: watch_join_def bind_eq_Some_conv split: if_splits
          intro: watch_ok_enforce [OF _ ns] watch_ok_put [where who = "nick (ev_sender ev)" and hst = "host (ev_sender ev)"])
  qed
qed

lemma resident_put [simp]:
  "is_resident srv' mk' (put_resident srv mk t g) = (is_resident srv' mk' g \<or> srv' = srv \<and> mk' = mk)"
  by (auto simp: is_resident_def residents_of_def put_resident_def)

lemma put_resident_simps [simp]:
  "gd_conf (put_resident srv mk t g) = gd_conf g"
  "gd_suspects (put_resident srv mk t g) = gd_suspects g"
  by (simp_all add: put_resident_def)

lemma resident_known: "is_resident srv mk g = (\<exists>t. map_of (residents_of srv g) mk = Some t)"
  by (auto simp: is_resident_def)

lemma record_seen_frozen:
  assumes "enabled fo g = Some True" and "record_seen fo now srv mk g = Some g'"
  shows "gd_conf g' = gd_conf g" and "gd_suspects g' = gd_suspects g"
    and "is_resident s m g' = is_resident s m g"
  using assms by (auto simp: record_seen_def resident_known split: if_splits option.splits
      simp flip: resident_known) (auto simp: is_resident_def)

definition authed :: "float_ok \<Rightarrow> conf \<Rightarrow> event \<Rightarrow> bool" where
  \<comment> \<open>a query that gives the password of the settings\<close>
  "authed fo c ev =
     (query ev \<and> has_prefix ''auth'' (trim_space (msg ev)) \<and>
      (\<exists>p. conf_string fo c ''guard_auth_password'' = Some p \<and> p \<noteq> [] \<and>
           trim_space (drop 4 (trim_space (msg ev))) = p))"

lemma try_auth_facts:
  assumes "try_auth fo now ev g = Some (b, outs, g')" and "query ev"
  shows "gd_conf g' = gd_conf g" and "\<not> glines outs" and "\<not> b \<Longrightarrow> g' = g \<and> outs = []"
    and "is_resident s m g' \<Longrightarrow>
      is_resident s m g \<or> authed fo (gd_conf g) ev \<and> s = server ev \<and> m = mask_of ev"
    and "spent (server ev) m g \<Longrightarrow> spent (server ev) m g'"
proof -
  have r: "is_resident s m (g1\<lparr>gd_suspects := x\<rparr>) = is_resident s m g1" for s m g1 x
    by (simp add: is_resident_def residents_of_def)
  show "gd_conf g' = gd_conf g" and "\<not> glines outs" and "\<not> b \<Longrightarrow> g' = g \<and> outs = []"
    and "is_resident s m g' \<Longrightarrow>
      is_resident s m g \<or> authed fo (gd_conf g) ev \<and> s = server ev \<and> m = mask_of ev"
    using assms r
    by (auto simp: try_auth_def bind_eq_Some_conv glines_def authed_def split: if_splits)
  show "spent (server ev) m g \<Longrightarrow> spent (server ev) m g'"
    using assms(1) r
    by (auto simp: try_auth_def bind_eq_Some_conv spent_def split: if_splits)
qed

primrec op_event :: "guard_op \<Rightarrow> event option" where
  "op_event (Seen now ev) = Some ev"
| "op_event (Joined now ev) = Some ev"
| "op_event (Flush b) = None"

definition op_at :: "string \<Rightarrow> guard_op \<Rightarrow> bool" where
  "op_at srv op = (case op_event op of Some ev \<Rightarrow> server ev = srv | None \<Rightarrow> True)"

definition op_mask :: "guard_op \<Rightarrow> string" where
  "op_mask op = (case op_event op of Some ev \<Rightarrow> mask_of ev | None \<Rightarrow> [])"

text \<open>What one step may do while the guard is on.\<close>

definition frozen_step :: "float_ok \<Rightarrow> string \<Rightarrow> guard_op \<Rightarrow> guard \<Rightarrow> guard_out list \<Rightarrow> guard \<Rightarrow> bool" where
  "frozen_step fo srv op g outs g' =
     (gd_conf g' = gd_conf g \<and>
      (\<forall>s m. is_resident s m g' \<longrightarrow> is_resident s m g \<or>
         (\<exists>ev. op_event op = Some ev \<and> authed fo (gd_conf g) ev \<and> s = server ev \<and> m = mask_of ev)) \<and>
      (\<forall>m. spent srv m g \<longrightarrow> spent srv m g') \<and>
      (glines outs \<longrightarrow> \<not> spent srv (op_mask op) g \<and> spent srv (op_mask op) g'))"

lemma enabled_conf: "gd_conf g' = gd_conf g \<Longrightarrow> enabled fo g' = enabled fo g"
  by (simp add: enabled_def)

lemma spent_frame:
  "gd_suspects g' = gd_suspects g \<Longrightarrow> (\<And>s m. is_resident s m g' = is_resident s m g) \<Longrightarrow>
   spent srv mk g' = spent srv mk g"
  by (simp add: spent_def)

lemma watch_then_record:
  assumes w: "watch_ok ev (mask_of ev) g (outs, g1)" and on: "enabled fo g = Some True"
    and r: "record_seen fo now (server ev) (mask_of ev) g1 = Some g2" and "op_event op = Some ev"
  shows "frozen_step fo (server ev) op g outs g2"
proof -
  have c: "gd_conf g1 = gd_conf g" and res: "gd_residents g1 = gd_residents g"
    and sp: "\<forall>m. spent (server ev) m g \<longrightarrow> spent (server ev) m g1"
    and gl: "glines outs \<longrightarrow> \<not> spent (server ev) (mask_of ev) g \<and> spent (server ev) (mask_of ev) g1"
    using w by (auto simp: watch_ok_def)
  have on1: "enabled fo g1 = Some True" using on enabled_conf [OF c] by simp
  note f = record_seen_frozen [OF on1 r]
  have i: "is_resident s m g2 = is_resident s m g" for s m
    using f(3) res by (simp add: is_resident_def residents_of_def)
  have s: "spent (server ev) m g2 = spent (server ev) m g1" for m
    by (rule spent_frame [OF f(2) f(3)])
  show ?thesis
    using f(1) c sp gl assms(4) by (simp add: frozen_step_def i s op_mask_def)
qed

lemma guard_step_frozen:
  assumes on: "enabled fo g = Some True" and at: "op_at srv op" and st: "guard_step fo op g = Some (outs, g')"
  shows "frozen_step fo srv op g outs g'"
proof (cases op)
  case (Flush b)
  then show ?thesis
    using st by (auto simp: guard_flush_def frozen_step_def glines_def is_resident_def residents_of_def spent_def
        split: if_splits)
next
  case (Joined now ev)
  then have srv: "server ev = srv" using at by (simp add: op_at_def)
  let ?g = "g\<lparr>gd_strangers := gd_strangers g + 1\<rparr>"
  obtain w where w: "watched fo ev (mask_of ev) g = Some w"
    using st Joined by (auto simp: on_join_seen_def bind_eq_Some_conv)
  have frame: "spent s m ?g = spent s m g" "gd_residents ?g = gd_residents g" "gd_conf ?g = gd_conf g" for s m
    by (auto simp: spent_def is_resident_def residents_of_def)
  obtain g1 where g1: "(if w then watch_join fo now ev (mask_of ev) ?g else Some ([], g)) = Some (outs, g1)"
    and r: "record_seen fo now (server ev) (mask_of ev) g1 = Some g'"
    using st Joined w by (auto simp: on_join_seen_def bind_eq_Some_conv)
  have "watch_ok ev (mask_of ev) g (outs, g1)"
  proof (cases w)
    case True
    with g1 watch_join_ok have "watch_ok ev (mask_of ev) ?g (outs, g1)" by simp
    then show ?thesis by (simp add: watch_ok_def frame)
  next
    case False
    with g1 watch_ok_quiet show ?thesis by auto
  qed
  from watch_then_record [OF this on r] show ?thesis using Joined srv by simp
next
  case (Seen now ev)
  then have srv: "server ev = srv" using at by (simp add: op_at_def)
  obtain b outs0 g0 where a: "(if query ev then try_auth fo now ev g else Some (False, [], g)) = Some (b, outs0, g0)"
    using st Seen by (auto simp: on_seen_def bind_eq_Some_conv split: if_splits)
  show ?thesis
  proof (cases b)
    case True
    then have q: "query ev" and t: "try_auth fo now ev g = Some (True, outs, g')"
      using a st Seen by (auto simp: on_seen_def split: if_splits)
    from try_auth_facts [OF t q] show ?thesis
      using Seen srv by (auto simp: frozen_step_def)
  next
    case False
    have same: "g0 = g" "outs0 = []"
      using a False try_auth_facts(3) [of fo now ev g b outs0 g0] by (auto split: if_splits)
    obtain g1 where l: "watch_line fo now ev (mask_of ev) g = Some (outs, g1)"
      and r: "record_seen fo now (server ev) (mask_of ev) g1 = Some g'"
      using st Seen a False same by (auto simp: on_seen_def bind_eq_Some_conv)
    from watch_then_record [OF watch_line_ok [OF l] on r] show ?thesis using Seen srv by simp
  qed
qed


section \<open>No step panics\<close>

lemma settings_total:
  assumes "settings_ok c"
  shows "\<exists>b. conf_bool fo c ''guard_enabled'' = Some b"
    and "\<exists>p. conf_string fo c ''guard_auth_password'' = Some p"
    and "\<exists>i. conf_int fo c ''guard_gline_seconds'' = Some i"
    and "\<exists>i. conf_int fo c ''guard_dup_channels'' = Some i"
    and "\<exists>i. conf_int fo c ''guard_join_channels'' = Some i"
    and "\<exists>i. conf_int fo c ''guard_join_window_sec'' = Some i"
    and "\<exists>i. conf_int fo c ''guard_line_rate'' = Some i"
    and "\<exists>i. conf_int fo c ''guard_line_window_sec'' = Some i"
  using assms by (simp_all add: settings_ok_def setting_int setting_string setting_bool)

lemma enabled_total: "settings_ok (gd_conf g) \<Longrightarrow> \<exists>b. enabled fo g = Some b"
  by (simp add: enabled_def settings_total)

lemma watched_total: "settings_ok (gd_conf g) \<Longrightarrow> \<exists>b. watched fo ev mk g = Some b"
  using enabled_total [of g fo] by (auto simp: watched_def)

lemma enforce_total: "settings_ok (gd_conf g) \<Longrightarrow> \<exists>r. enforce fo mk s why g = Some r"
  using settings_total(3) [of "gd_conf g" fo] by (auto simp: enforce_def)

lemma record_seen_total: "settings_ok (gd_conf g) \<Longrightarrow> \<exists>r. record_seen fo now srv mk g = Some r"
  using enabled_total [of g fo] by (auto simp: record_seen_def split: option.splits)

lemma watch_line_total:
  assumes ok: "settings_ok (gd_conf g)"
  shows "\<exists>r. watch_line fo now ev mk g = Some r"
proof -
  obtain w win rate dups where
    "watched fo ev mk g = Some w" "conf_int fo (gd_conf g) ''guard_line_window_sec'' = Some win"
    "conf_int fo (gd_conf g) ''guard_line_rate'' = Some rate"
    "conf_int fo (gd_conf g) ''guard_dup_channels'' = Some dups"
    using watched_total [OF ok] settings_total [OF ok] by metis
  then show ?thesis using enforce_total [OF ok] by (simp add: watch_line_def Let_def)
qed

lemma watch_join_total:
  assumes ok: "settings_ok (gd_conf g)"
  shows "\<exists>r. watch_join fo now ev mk g = Some r"
proof -
  obtain w win chans where
    "watched fo ev mk g = Some w" "conf_int fo (gd_conf g) ''guard_join_window_sec'' = Some win"
    "conf_int fo (gd_conf g) ''guard_join_channels'' = Some chans"
    using watched_total [OF ok] settings_total [OF ok] by metis
  then show ?thesis using enforce_total [OF ok] by (simp add: watch_join_def Let_def)
qed

lemma try_auth_total:
  "settings_ok (gd_conf g) \<Longrightarrow> \<exists>r. try_auth fo now ev g = Some r"
  using settings_total(2) [of "gd_conf g" fo] by (auto simp: try_auth_def Let_def)

lemma watch_ok_conf: "watch_ok ev mk g r \<Longrightarrow> gd_conf (snd r) = gd_conf g"
  by (cases r) (simp add: watch_ok_def)

lemma on_seen_total:
  assumes ok: "settings_ok (gd_conf g)"
  shows "\<exists>r. on_seen fo now ev g = Some r"
proof -
  obtain b outs0 g0 where a: "(if query ev then try_auth fo now ev g else Some (False, [], g)) = Some (b, outs0, g0)"
    using try_auth_total [OF ok, of fo now ev] by (cases "query ev") auto
  have ok0: "settings_ok (gd_conf g0)"
    using a ok try_auth_facts(1) [of fo now ev g b outs0 g0] by (auto split: if_splits)
  obtain outs g1 where l: "watch_line fo now ev (mask_of ev) g0 = Some (outs, g1)"
    using watch_line_total [OF ok0] by (metis surj_pair)
  have "settings_ok (gd_conf g1)" using watch_ok_conf [OF watch_line_ok [OF l]] ok0 by simp
  then obtain g2 where "record_seen fo now (server ev) (mask_of ev) g1 = Some g2"
    using record_seen_total by blast
  then show ?thesis using a l by (simp add: on_seen_def)
qed

lemma on_join_seen_total:
  assumes ok: "settings_ok (gd_conf g)"
  shows "\<exists>r. on_join_seen fo now ev g = Some r"
proof -
  let ?g = "g\<lparr>gd_strangers := gd_strangers g + 1\<rparr>"
  have ok': "settings_ok (gd_conf ?g)" using ok by simp
  obtain w where w: "watched fo ev (mask_of ev) g = Some w" using watched_total [OF ok] by blast
  obtain outs g1 where l: "(if w then watch_join fo now ev (mask_of ev) ?g else Some ([], g)) = Some (outs, g1)"
    using watch_join_total [OF ok', of fo now ev "mask_of ev"] by (cases w) auto
  have "settings_ok (gd_conf g1)"
  proof (cases w)
    case True
    with l have "watch_join fo now ev (mask_of ev) ?g = Some (outs, g1)" by simp
    from watch_ok_conf [OF watch_join_ok [OF this]] show ?thesis using ok by simp
  next
    case False
    then show ?thesis using l ok by simp
  qed
  then obtain g2 where "record_seen fo now (server ev) (mask_of ev) g1 = Some g2"
    using record_seen_total by blast
  then show ?thesis using w l by (simp add: on_join_seen_def Let_def)
qed

lemma guard_step_total: "settings_ok (gd_conf g) \<Longrightarrow> \<exists>r. guard_step fo op g = Some r"
  using on_seen_total [of g fo] on_join_seen_total [of g fo] by (cases op) simp_all

section \<open>The trust set is frozen while the guard is on\<close>

definition acted :: "string \<Rightarrow> (guard_op \<times> guard_out list) list \<Rightarrow> nat" where
  \<comment> \<open>how often a run bans a mask\<close>
  "acted m trace = length (filter (\<lambda>(op, outs). op_mask op = m \<and> glines outs) trace)"

definition let_in :: "float_ok \<Rightarrow> conf \<Rightarrow> guard_op list \<Rightarrow> string \<Rightarrow> string \<Rightarrow> bool" where
  "let_in fo c ops s m =
     (\<exists>op ev. op \<in> set ops \<and> op_event op = Some ev \<and> authed fo c ev \<and> s = server ev \<and> m = mask_of ev)"

text \<open>
  C8. While the guard is on, any sequence of lines, joins and flushes of a server runs without a panic,
  changes no setting, makes a resident of nobody who did not give the password, and bans a
  mask at most once, and not at all when it is a resident or has been acted on before.
\<close>

theorem guard_frozen:
  assumes "settings_ok (gd_conf g)" and "enabled fo g = Some True" and "list_all (op_at srv) ops"
  shows "\<exists>trace g'. guard_run fo ops g = Some (trace, g') \<and> map fst trace = ops \<and> gd_conf g' = gd_conf g \<and>
    (\<forall>s m. is_resident s m g' \<longrightarrow> is_resident s m g \<or> let_in fo (gd_conf g) ops s m) \<and>
    (\<forall>m. acted m trace \<le> (if spent srv m g then 0 else 1))"
  using assms
proof (induction ops arbitrary: g)
  case Nil
  then show ?case by (simp add: acted_def)
next
  case (Cons op ops)
  obtain outs g1 where st: "guard_step fo op g = Some (outs, g1)"
    using guard_step_total [OF Cons.prems(1)] by (metis surj_pair)
  have "op_at srv op" using Cons.prems(3) by simp
  note fr = guard_step_frozen [OF Cons.prems(2) this st, unfolded frozen_step_def]
  have c: "gd_conf g1 = gd_conf g" using fr by simp
  have "settings_ok (gd_conf g1)" and "enabled fo g1 = Some True" and "list_all (op_at srv) ops"
    using Cons.prems enabled_conf [OF c] c by simp_all
  from Cons.IH [OF this] obtain trace g' where
    run: "guard_run fo ops g1 = Some (trace, g')" "map fst trace = ops" "gd_conf g' = gd_conf g1"
    and res: "\<And>s m. is_resident s m g' \<Longrightarrow> is_resident s m g1 \<or> let_in fo (gd_conf g1) ops s m"
    and acts: "\<And>m. acted m trace \<le> (if spent srv m g1 then 0 else 1)" by blast
  have "is_resident s m g \<or> let_in fo (gd_conf g) (op # ops) s m" if "is_resident s m g'" for s m
    using res [OF that] fr unfolding c let_in_def by (metis list.set_intros)
  moreover have "acted m ((op, outs) # trace) \<le> (if spent srv m g then 0 else 1)" for m
    using acts [of m] fr by (auto simp: acted_def split: if_splits)
  ultimately show ?case using st run c by (intro exI [of _ "(op, outs) # trace"] exI [of _ g']) simp
qed


text \<open>A guard loaded over a store that has it switched on and a limit of one line, and a stranger who says two.\<close>

definition demo_guard :: "guard option" where
  "demo_guard = guard_load (\<lambda>_. False) 0
     (load_stored [(''guard_enabled'', ''true''), (''guard_line_rate'', ''1'')] conf_new) []"

definition demo_line :: guard_op where
  "demo_line = Seen 1000000000 (no_event\<lparr>server := ''net'', channel := ''#c'', msg := ''spam'',
     ev_sender := \<lparr>nick = ''s'', user = ''u'', host = ''h'', user_id = []\<rparr>\<rparr>)"

lemma settings_created: "settings c = [] \<Longrightarrow> settings_ok (guard_settings fo c)"
  by (simp add: settings_ok_def has_kind_def guard_settings_def create_int_def create_bool_def
      create_string_def create_def)

lemma demo_guard_value:
  "demo_guard = Some \<lparr>gd_conf = \<lparr>settings = [
  (''guard_enabled'', \<lparr>s_kind = Kind_bool, s_raw = ''true''\<rparr>),
  (''guard_resident_days'', \<lparr>s_kind = Kind_int, s_raw = ''90''\<rparr>),
  (''guard_gline_seconds'', \<lparr>s_kind = Kind_int, s_raw = ''3600''\<rparr>),
  (''guard_dup_channels'', \<lparr>s_kind = Kind_int, s_raw = ''2''\<rparr>),
  (''guard_join_channels'', \<lparr>s_kind = Kind_int, s_raw = ''4''\<rparr>),
  (''guard_join_window_sec'', \<lparr>s_kind = Kind_int, s_raw = ''20''\<rparr>),
  (''guard_line_rate'', \<lparr>s_kind = Kind_int, s_raw = ''1''\<rparr>),
  (''guard_line_window_sec'', \<lparr>s_kind = Kind_int, s_raw = ''4''\<rparr>),
  (''guard_auth_password'', \<lparr>s_kind = Kind_string, s_raw = []\<rparr>)],
  stored = [(''guard_enabled'', ''true''), (''guard_line_rate'', ''1'')], overrides = []\<rparr>,
  gd_residents = [], gd_dirty = False, gd_strangers = 0, gd_actions = 0, gd_suspects = []\<rparr>"
  by code_simp

lemma demo_guard_on: "(case demo_guard of Some g \<Rightarrow> enabled (\<lambda>_. False) g = Some True | None \<Rightarrow> False)"
  unfolding demo_guard_value option.case by code_simp

lemma demo_guard_ok: "demo_guard = Some g \<Longrightarrow> settings_ok (gd_conf g)"
  using settings_created [of "load_stored [(''guard_enabled'', ''true''), (''guard_line_rate'', ''1'')] conf_new"]
  by (auto simp: demo_guard_def guard_load_def age_def bind_eq_Some_conv load_stored_def conf_new_def)

lemma demo_guard_acts:
  "(case demo_guard of
     Some g \<Rightarrow> (case guard_run (\<lambda>_. False) [demo_line, demo_line] g of
                 Some (trace, g') \<Rightarrow> acted (op_mask demo_line) trace = 1
               | None \<Rightarrow> False)
   | None \<Rightarrow> False)"
  unfolding demo_guard_value option.case by code_simp

lemma guard_frozen_witness:
  "\<exists>g trace g'. demo_guard = Some g \<and> guard_run (\<lambda>_. False) [demo_line, demo_line] g = Some (trace, g') \<and>
     acted (op_mask demo_line) trace = 1 \<and> (\<forall>m. acted m trace \<le> (if spent ''net'' m g then 0 else 1))"
proof -
  obtain g where g: "demo_guard = Some g" "enabled (\<lambda>_. False) g = Some True"
    using demo_guard_on by (auto split: option.splits)
  have at: "list_all (op_at ''net'') [demo_line, demo_line]"
    by (simp add: list_all_iff demo_line_def op_at_def)
  from guard_frozen [OF demo_guard_ok [OF g(1)] g(2) at] obtain trace g' where
    r: "guard_run (\<lambda>_. False) [demo_line, demo_line] g = Some (trace, g')"
      "\<forall>m. acted m trace \<le> (if spent ''net'' m g then 0 else 1)" by blast
  have "acted (op_mask demo_line) trace = 1"
    using demo_guard_acts unfolding g(1) option.case r(1) prod.case .
  with r g(1) show ?thesis by blast
qed

end
