(* ===== verification/Auth.thy ===== *)
theory Auth
  imports Storage Go_Utf8 "HOL-Library.Countable"
begin

text \<open>
  internal/auth: the user database. \<open>bcrypt\<close> is the record \<open>hashing\<close> of two functions, the hash of a
  password with its random salt (\<open>None\<close> is its error, for a password longer than 72 bytes) and the
  comparison; the JSON form of the table is the record's other two. The users are persisted in the
  store of \<open>Storage\<close> with every change; whether that write succeeds is drawn with the salt.
\<close>

section \<open>State\<close>

type_synonym users = "(string \<times> string) list"

record hashing =
  hg_generate :: "string \<Rightarrow> string \<Rightarrow> string option"  \<comment> \<open>salt, password\<close>
  hg_compare :: "string \<Rightarrow> string \<Rightarrow> bool"  \<comment> \<open>hash, password\<close>
  hg_json :: "users \<Rightarrow> json"
  hg_users :: "json \<Rightarrow> users option"

record draw =
  dr_salt :: string
  dr_put_ok :: bool

datatype auth_result = No_such_user | Bad_pass | Valid | Super

datatype auth_error = Already_exists string | No_user string | Hash_refused | Put_failed | Load_failed | Bad_spec

record auth =
  au_store :: memory
  au_users :: users
  au_super :: string
  au_super_hash :: string

definition auth_new :: "hashing \<Rightarrow> memory \<Rightarrow> auth_error + auth" where
  "auth_new hg st =
     (let a = \<lparr>au_store = st, au_users = [], au_super = [], au_super_hash = []\<rparr> in
      case mem_get ''Auth'' ''users'' st of
        None \<Rightarrow> Inr a
      | Some j \<Rightarrow> (case hg_users hg j of None \<Rightarrow> Inl Load_failed | Some us \<Rightarrow> Inr (a\<lparr>au_users := us\<rparr>)))"

definition set_superuser :: "string \<Rightarrow> string \<Rightarrow> auth \<Rightarrow> auth" where
  "set_superuser name h a = a\<lparr>au_super := name, au_super_hash := h\<rparr>"

section \<open>Operations\<close>

definition put_users :: "hashing \<Rightarrow> bool \<Rightarrow> auth \<Rightarrow> auth_error option \<times> auth" where
  \<comment> \<open>\<open>a.store.Put(ns, usersKey, a.users)\<close>\<close>
  "put_users hg ok a =
     (case (if ok then mem_put ''Auth'' ''users'' (Some (hg_json hg (au_users a))) (au_store a) else None) of
        None \<Rightarrow> (Some Put_failed, a)
      | Some st \<Rightarrow> (None, a\<lparr>au_store := st\<rparr>))"

definition set_hash :: "hashing \<Rightarrow> draw \<Rightarrow> string \<Rightarrow> string \<Rightarrow> auth \<Rightarrow> auth_error option \<times> auth" where
  "set_hash hg d name pass a =
     (case hg_generate hg (dr_salt d) pass of
        None \<Rightarrow> (Some Hash_refused, a)
      | Some h \<Rightarrow> put_users hg (dr_put_ok d) (a\<lparr>au_users := AList.update name h (au_users a)\<rparr>))"

definition add_user :: "hashing \<Rightarrow> draw \<Rightarrow> string \<Rightarrow> string \<Rightarrow> auth \<Rightarrow> auth_error option \<times> auth" where
  "add_user hg d name pass a =
     (if map_of (au_users a) name \<noteq> None then (Some (Already_exists name), a) else set_hash hg d name pass a)"

definition set_password :: "hashing \<Rightarrow> draw \<Rightarrow> string \<Rightarrow> string \<Rightarrow> auth \<Rightarrow> auth_error option \<times> auth" where
  "set_password hg d name pass a =
     (if map_of (au_users a) name = None then (Some (No_user name), a) else set_hash hg d name pass a)"

definition delete_user :: "hashing \<Rightarrow> bool \<Rightarrow> string \<Rightarrow> auth \<Rightarrow> auth_error option \<times> auth" where
  "delete_user hg ok name a = put_users hg ok (a\<lparr>au_users := AList.delete name (au_users a)\<rparr>)"

definition check :: "hashing \<Rightarrow> string \<Rightarrow> string \<Rightarrow> auth \<Rightarrow> auth_result" where
  "check hg name pass a =
     (if au_super a \<noteq> [] \<and> name = au_super a then
        (if hg_compare hg (au_super_hash a) pass then Super else Bad_pass)
      else
        (case map_of (au_users a) name of
           None \<Rightarrow> No_such_user
         | Some h \<Rightarrow> if hg_compare hg h pass then Valid else Bad_pass))"

definition parse_superuser :: "hashing \<Rightarrow> string \<Rightarrow> string \<Rightarrow> auth_error + string \<times> string" where
  "parse_superuser hg salt spec =
     (let (name, pass, ok) = cut (CHR '':'') spec in
      if \<not> ok \<or> name = [] \<or> pass = [] then Inl Bad_spec
      else if has_prefix ''$2'' pass then Inr (name, pass)
      else (case hg_generate hg salt pass of None \<Rightarrow> Inl Hash_refused | Some h \<Rightarrow> Inr (name, h)))"

definition user_names :: "auth \<Rightarrow> string list" where
  \<comment> \<open>\<open>Users\<close>\<close>
  "user_names a = sort (map fst (au_users a))"


section \<open>What a restart keeps\<close>

datatype auth_op =
    Op_add draw string string | Op_passwd draw string string | Op_delete bool string
  | Op_super string string

primrec auth_step :: "hashing \<Rightarrow> auth_op \<Rightarrow> auth \<Rightarrow> auth_error option \<times> auth" where
  "auth_step hg (Op_add d name pass) a = add_user hg d name pass a"
| "auth_step hg (Op_passwd d name pass) a = set_password hg d name pass a"
| "auth_step hg (Op_delete ok name) a = delete_user hg ok name a"
| "auth_step hg (Op_super name h) a = (None, set_superuser name h a)"

fun auth_run :: "hashing \<Rightarrow> auth_op list \<Rightarrow> auth \<Rightarrow> auth_error option list \<times> auth" where
  "auth_run hg [] a = ([], a)"
| "auth_run hg (op # ops) a =
     (let (e, a1) = auth_step hg op a; (es, a2) = auth_run hg ops a1 in (e # es, a2))"

text \<open>
  What is relied on outside the code: a hash is text, and the JSON form of a table of text decodes to a
  table with the same entries, in any order (bytes that are not UTF-8 do not survive it).
\<close>

definition text_entry :: "string \<times> string \<Rightarrow> bool" where
  "text_entry e = (valid_utf8 (fst e) \<and> valid_utf8 (snd e))"

definition users_ok :: "users \<Rightarrow> bool" where
  "users_ok m = (wf_map m \<and> (\<forall>e \<in> set m. text_entry e))"

definition same_users :: "users \<Rightarrow> users \<Rightarrow> bool" where
  "same_users m m' = (wf_map m' \<and> map_of m' = map_of m)"

definition hashing_ok :: "hashing \<Rightarrow> bool" where
  "hashing_ok hg =
     ((\<forall>m. users_ok m \<longrightarrow> (\<exists>m'. hg_users hg (hg_json hg m) = Some m' \<and> same_users m m')) \<and>
      (\<forall>salt pass h. hg_generate hg salt pass = Some h \<longrightarrow> valid_utf8 h))"

primrec op_text :: "auth_op \<Rightarrow> bool" where
  "op_text (Op_add d name pass) = valid_utf8 name"
| "op_text (Op_passwd d name pass) = valid_utf8 name"
| "op_text (Op_delete ok name) = True"
| "op_text (Op_super name h) = True"

definition saved :: "hashing \<Rightarrow> auth \<Rightarrow> bool" where
  \<comment> \<open>the store holds the table in memory\<close>
  "saved hg a =
     (case mem_get ''Auth'' ''users'' (au_store a) of
        None \<Rightarrow> au_users a = []
      | Some j \<Rightarrow> (\<exists>m. hg_users hg j = Some m \<and> same_users (au_users a) m))"

lemma mem_put_get: "mem_put ns k v m = Some m' \<Longrightarrow> mem_get ns k m' = v"
  by (auto simp: mem_put_def mem_get_def split: option.splits)

lemma auth_new_saved: "auth_new hg st = Inr a \<Longrightarrow> wf_map (au_users a) \<Longrightarrow> saved hg a"
  by (auto simp: auth_new_def saved_def same_users_def split: option.splits)

lemma saved_new:
  "saved hg a \<Longrightarrow> wf_map (au_users a) \<Longrightarrow>
    \<exists>a'. auth_new hg (au_store a) = Inr a' \<and> same_users (au_users a) (au_users a')"
  by (auto simp: auth_new_def saved_def same_users_def split: option.splits)

lemma users_ok_update: "users_ok m \<Longrightarrow> text_entry (k, v) \<Longrightarrow> users_ok (AList.update k v m)"
  using update_all [of m text_entry k v] by (simp add: users_ok_def)

lemma users_ok_delete: "users_ok m \<Longrightarrow> users_ok (AList.delete k m)"
  by (auto simp: users_ok_def set_delete)

lemma put_users_cases:
  assumes "hashing_ok hg" and "users_ok (au_users a)" and "put_users hg ok a = (e, a')"
  shows "au_users a' = au_users a \<and> (if e = None then saved hg a' else e = Some Put_failed)"
  using assms by (auto simp: put_users_def saved_def mem_put_get hashing_ok_def split: option.splits if_splits)

lemma set_hash_cases:
  assumes "hashing_ok hg" and "users_ok (au_users a)" and "valid_utf8 name"
    and "set_hash hg d name pass a = (e, a')"
  shows "users_ok (au_users a') \<and> (e = None \<and> saved hg a' \<or> e = Some Put_failed \<or> e = Some Hash_refused \<and> a' = a)"
proof (cases "hg_generate hg (dr_salt d) pass")
  case None
  then show ?thesis using assms by (simp add: set_hash_def)
next
  case (Some h)
  let ?a = "a\<lparr>au_users := AList.update name h (au_users a)\<rparr>"
  have "valid_utf8 h" using assms(1) Some unfolding hashing_ok_def by blast
  then have ok: "users_ok (au_users ?a)"
    using users_ok_update [OF assms(2), of name h] assms(3) by (simp add: text_entry_def)
  have p: "put_users hg (dr_put_ok d) ?a = (e, a')" using assms(4) Some by (simp add: set_hash_def)
  show ?thesis using put_users_cases [OF assms(1) ok p] ok by (auto split: if_splits)
qed

primrec writes :: "auth_op \<Rightarrow> bool" where
  "writes (Op_add d name pass) = True"
| "writes (Op_passwd d name pass) = True"
| "writes (Op_delete ok name) = True"
| "writes (Op_super name h) = False"

lemma auth_step_saved:
  assumes "hashing_ok hg" and "users_ok (au_users a)" and "op_text op" and st: "auth_step hg op a = (e, a')"
  shows "users_ok (au_users a')"
    and "saved hg a \<or> e = None \<and> writes op \<Longrightarrow> e \<noteq> Some Put_failed \<Longrightarrow> saved hg a'"
proof -
  have "users_ok (au_users a') \<and>
    ((saved hg a \<or> e = None \<and> writes op) \<and> e \<noteq> Some Put_failed \<longrightarrow> saved hg a')"
  proof (cases op)
    case (Op_super name h)
    then show ?thesis using assms by (auto simp: set_superuser_def saved_def cong: option.case_cong)
  next
    case (Op_delete ok name)
    let ?a = "a\<lparr>au_users := AList.delete name (au_users a)\<rparr>"
    have "users_ok (au_users ?a)" using users_ok_delete [OF assms(2)] by simp
    moreover from this have "au_users a' = au_users ?a \<and> (if e = None then saved hg a' else e = Some Put_failed)"
      using put_users_cases [OF assms(1), of ?a ok e a'] st Op_delete by (simp add: delete_user_def)
    ultimately show ?thesis by (auto split: if_splits)
  next
    case (Op_add d name pass)
    then show ?thesis
      using set_hash_cases [OF assms(1,2), of name d pass e a'] assms by (auto simp: add_user_def split: if_splits)
  next
    case (Op_passwd d name pass)
    then show ?thesis
      using set_hash_cases [OF assms(1,2), of name d pass e a'] assms
      by (auto simp: set_password_def split: if_splits)
  qed
  then show "users_ok (au_users a')"
    and "saved hg a \<or> e = None \<and> writes op \<Longrightarrow> e \<noteq> Some Put_failed \<Longrightarrow> saved hg a'" by blast+
qed

fun settled :: "bool \<Rightarrow> auth_op list \<Rightarrow> auth_error option list \<Rightarrow> bool" where
  \<comment> \<open>after the last write that failed another one was made\<close>
  "settled b (op # ops) (e # es) =
     settled (if e = Some Put_failed then False else b \<or> e = None \<and> writes op) ops es"
| "settled b ops es = b"

lemma auth_run_saved:
  assumes "hashing_ok hg" and "users_ok (au_users a)" and "list_all op_text ops" and "b \<longrightarrow> saved hg a"
    and "settled b ops (fst (auth_run hg ops a))"
  shows "users_ok (au_users (snd (auth_run hg ops a))) \<and> saved hg (snd (auth_run hg ops a))"
  using assms(2-)
proof (induction ops arbitrary: b a)
  case Nil
  then show ?case by simp
next
  case (Cons op ops)
  obtain e a1 where st: "auth_step hg op a = (e, a1)" by fastforce
  let ?b = "if e = Some Put_failed then False else b \<or> e = None \<and> writes op"
  have t: "op_text op" "list_all op_text ops" using Cons.prems(2) by simp_all
  note S = auth_step_saved [OF assms(1) Cons.prems(1) t(1) st]
  have "?b \<longrightarrow> saved hg a1" using S(2) Cons.prems(3) by auto
  from Cons.IH [OF S(1) t(2) this] Cons.prems(4) show ?case by (simp add: st split: prod.splits)
qed

lemma same_user_names: "wf_map m \<Longrightarrow> same_users m m' \<Longrightarrow> sort (map fst m') = sort (map fst m)"
proof -
  assume "wf_map m" and m': "same_users m m'"
  then have "set (map fst m') = set (map fst m)"
    using dom_map_of_conv_image_fst [of m] dom_map_of_conv_image_fst [of m'] by (simp add: same_users_def)
  then show ?thesis
    using \<open>wf_map m\<close> m' by (intro sorted_distinct_set_unique) (simp_all add: same_users_def)
qed

text \<open>
  C27. What was written survives. After any additions, password changes and removals over a loaded
  table in which every failed write is followed by one that succeeds, a restart on the store
  loads the same table, so with the same superuser every login is judged as before.
\<close>

theorem auth_restart:
  assumes "hashing_ok hg" and "auth_new hg st = Inr a0" and "users_ok (au_users a0)" and "list_all op_text ops"
    and "settled True ops (fst (auth_run hg ops a0))"
  shows "case auth_run hg ops a0 of (es, a) \<Rightarrow>
    (case auth_new hg (au_store a) of
       Inl e \<Rightarrow> False
     | Inr a' \<Rightarrow>
         user_names a' = user_names a \<and>
         (\<forall>name pass. check hg name pass (set_superuser (au_super a) (au_super_hash a) a') = check hg name pass a))"
proof -
  obtain es a where r: "auth_run hg ops a0 = (es, a)" by fastforce
  have wf0: "wf_map (au_users a0)" using assms(3) by (simp add: users_ok_def)
  have "users_ok (au_users a)" and "saved hg a"
    using auth_run_saved [OF assms(1,3,4) _ assms(5)] auth_new_saved [OF assms(2) wf0] by (simp_all add: r)
  then obtain a' where a': "auth_new hg (au_store a) = Inr a'" "same_users (au_users a) (au_users a')"
      and wf: "wf_map (au_users a)"
    using saved_new [of hg a] by (auto simp: users_ok_def)
  have "user_names a' = user_names a"
    unfolding user_names_def by (rule same_user_names [OF wf a'(2)])
  moreover have "map_of (au_users a') = map_of (au_users a)" using a'(2) by (simp add: same_users_def)
  ultimately show ?thesis using a' by (simp add: r check_def set_superuser_def)
qed

definition demo_hashing :: hashing where
  \<comment> \<open>a table is encoded by its number; the hash of a password is the sum of its bytes, in unary\<close>
  "demo_hashing =
     \<lparr>hg_generate = (\<lambda>salt pass. if 72 < length pass then None else Some (replicate (sum_list (map byte pass)) (CHR ''x''))),
      hg_compare = (\<lambda>h pass. h = replicate (sum_list (map byte pass)) (CHR ''x'')),
      hg_json = (\<lambda>m. replicate (to_nat m) (CHR ''x'')), hg_users = (\<lambda>j. Some (from_nat (length j)))\<rparr>"

definition demo_ops :: "auth_op list" where
  "demo_ops = [Op_add \<lparr>dr_salt = ''a'', dr_put_ok = False\<rparr> ''benv'' ''pw'',
     Op_passwd \<lparr>dr_salt = ''b'', dr_put_ok = True\<rparr> ''benv'' ''pw2'']"

lemma auth_restart_witness:
  "case auth_run demo_hashing demo_ops \<lparr>au_store = mem_new, au_users = [], au_super = [], au_super_hash = []\<rparr> of
    (es, a) \<Rightarrow>
    (case auth_new demo_hashing (au_store a) of
       Inl e \<Rightarrow> False
     | Inr a' \<Rightarrow>
         user_names a' = user_names a \<and>
         (\<forall>name pass. check demo_hashing name pass (set_superuser (au_super a) (au_super_hash a) a') =
           check demo_hashing name pass a))"
proof (rule auth_restart)
  show "auth_new demo_hashing mem_new = Inr \<lparr>au_store = mem_new, au_users = [], au_super = [], au_super_hash = []\<rparr>"
    by (simp add: auth_new_def mem_get_def ns_data_def) (simp add: mem_new_def)
  show "hashing_ok demo_hashing"
    by (auto simp: hashing_ok_def demo_hashing_def same_users_def users_ok_def valid_utf8_ascii split: if_splits)
qed (simp_all add: demo_ops_def demo_hashing_def add_user_def set_password_def set_hash_def put_users_def
    mem_put_def users_ok_def valid_utf8_ascii)

end
