(* ===== verification/Admin.thy ===== *)
theory Admin
  imports Auth Colour Go_Regex
begin

text \<open>
  internal/admin: the telnet console. A session is the record \<open>console\<close>; the accounts and whatever the
  commands work on are the record \<open>desk\<close>. A command of a module is a \<open>spec\<close> with its matcher and a run
  function that may panic; the commands of the console itself are the other runners. What is written
  to the connection is a list of \<open>wire\<close>, coloured as it is sent; an error of the user database is kept as
  a value instead of its text. Every line comes with the draw its hash and write would use.
\<close>

section \<open>The line reader\<close>

definition iac :: char where "iac = CHR 0xFF"

definition max_tries :: nat where "max_tries = 3"

definition do_echo :: string where "do_echo = [iac, CHR 0xFD, CHR 0x01]"

definition will_echo :: string where "will_echo = [iac, CHR 0xFB, CHR 0x01]"

definition wont_echo :: string where "wont_echo = [iac, CHR 0xFC, CHR 0x01]"

definition iac_verb :: "char \<Rightarrow> bool" where
  "iac_verb c = (0xFB \<le> byte c \<and> byte c \<le> 0xFE)"

fun strip_iac :: "string \<Rightarrow> string" where
  "strip_iac [] = []"
| "strip_iac [c] = (if c = iac then [] else [c])"
| "strip_iac (c # d # s) =
     (if c \<noteq> iac then c # strip_iac (d # s)
      else if iac_verb d then strip_iac (drop 1 s) else strip_iac s)"

definition read_lines :: "string \<Rightarrow> string \<Rightarrow> string list \<times> string" where
  \<comment> \<open>what one read of \<open>lineReader\<close> hands on, and what stays pending\<close>
  "read_lines pending chunk =
     (let ps = split_on (CHR 0x0A) (pending @ strip_iac chunk)
      in (map (trim_right {CHR 0x0D}) (butlast ps), last ps))"

fun read_all :: "string \<Rightarrow> string list \<Rightarrow> string list \<times> string" where
  "read_all pending [] = ([], pending)"
| "read_all pending (b # bs) =
     (let (ls, rest) = read_lines pending b; (ms, rest') = read_all rest bs in (ls @ ms, rest'))"

section \<open>Commands\<close>

datatype answer = Output string | Auth_error auth_error

datatype ran = Ran answer | Panics string

datatype 'w runner =
    Module_run "string \<Rightarrow> string \<Rightarrow> 'w \<Rightarrow> ran \<times> 'w"  \<comment> \<open>the rest of the line, the line\<close>
  | Help_run | Adduser_run | Passwd_run | Users_run

record 'w spec =
  sp_name :: string
  sp_match :: "string \<Rightarrow> (nat \<times> nat) option"  \<comment> \<open>\<open>FindStringIndex\<close>\<close>
  sp_help :: string
  sp_args :: "string list"
  sp_su :: bool
  sp_run :: "'w runner"

record 'w desk =
  dk_auth :: auth
  dk_rest :: 'w

definition quit_re :: "string \<Rightarrow> bool" where
  \<comment> \<open>\<open>^(?i)(q(uit)?|exit)$\<close>\<close>
  "quit_re line = (to_lower line \<in> {''q'', ''quit'', ''exit''})"

definition adduser_re :: "string \<Rightarrow> (string \<times> string) option" where
  \<comment> \<open>the groups of \<open>^(?i)adduser\s+(\S+)\s+(\S+)$\<close>\<close>
  "adduser_re line =
     (case ci_segs ''adduser'' (segs line) of
        None \<Rightarrow> None
      | Some gs \<Rightarrow>
          (let (u, w, rest) = two_words gs in
           if u = [] \<or> rest = [] \<or> list_ex ws_seg rest then None else Some (u, concat rest)))"

definition passwd_re :: "string \<Rightarrow> (string \<times> string) option" where
  \<comment> \<open>the groups of \<open>^(?i)passwd\s+(\S+)\s+(.+)$\<close>; blanks at the end give the last of them to the group\<close>
  "passwd_re line =
     (case ci_segs ''passwd'' (segs line) of
        None \<Rightarrow> None
      | Some gs \<Rightarrow>
          (let (u, w, rest) = two_words gs;
               g = (if rest = [] \<and> 2 \<le> length w then [last w] else rest) in
           if u = [] \<or> g = [] \<or> [CHR 0x0A] \<in> set g then None else Some (u, concat g)))"

definition whole :: "bool \<Rightarrow> string \<Rightarrow> (nat \<times> nat) option" where
  \<comment> \<open>the index of a match of an anchored pattern\<close>
  "whole b line = (if b then Some (0, length line) else None)"

definition builtins :: "'w spec list" where
  "builtins =
     [\<lparr>sp_name = ''help'', sp_match = (\<lambda>l. whole (l = ''help'' \<or> l = ''?'') l), sp_help = ''Print this help text'',
        sp_args = [], sp_su = False, sp_run = Help_run\<rparr>,
      \<lparr>sp_name = ''adduser'', sp_match = (\<lambda>l. whole (adduser_re l \<noteq> None) l), sp_help = ''Add user to botje'',
        sp_args = [''<newuser>'', ''<newpass>''], sp_su = True, sp_run = Adduser_run\<rparr>,
      \<lparr>sp_name = ''passwd'', sp_match = (\<lambda>l. whole (passwd_re l \<noteq> None) l),
        sp_help = ''Password change for specified user'', sp_args = [''<user>'', ''<new pass>''], sp_su = True,
        sp_run = Passwd_run\<rparr>,
      \<lparr>sp_name = ''users'', sp_match = (\<lambda>l. whole (l = ''users'') l), sp_help = ''List known users'',
        sp_args = [], sp_su = True, sp_run = Users_run\<rparr>]"

definition specs :: "('w desk \<Rightarrow> 'w spec list) \<Rightarrow> 'w desk \<Rightarrow> 'w spec list" where
  "specs cmds w = cmds w @ builtins"

definition help_line :: "'w spec \<Rightarrow> string" where
  "help_line sp =
     (let name = (if sp_args sp = [] then sp_name sp else sp_name sp @ '' '' @ join '' '' (sp_args sp)) in
      ''  {y}'' @ name @ replicate (40 - length (runes name)) (CHR '' '') @ ''{/} '' @ sp_help sp @ [CHR 0x0A])"

definition may_run :: "bool \<Rightarrow> 'w spec \<Rightarrow> bool" where
  \<comment> \<open>the negation of \<open>spec.Su && !se.su\<close>\<close>
  "may_run su sp = (\<not> sp_su sp \<or> su)"

definition help_text :: "bool \<Rightarrow> 'w spec list \<Rightarrow> string" where
  "help_text su sps =
     ''Available commands:'' @ [CHR 0x0A] @ concat (map help_line (filter (may_run su) sps))"

definition auth_answer :: "auth_error option \<Rightarrow> string \<Rightarrow> ran" where
  "auth_answer e good = (case e of Some err \<Rightarrow> Ran (Auth_error err) | None \<Rightarrow> Ran (Output good))"

definition no_group :: ran where
  \<comment> \<open>the index into a submatch that is nil\<close>
  "no_group = Panics ''runtime error: index out of range [1] with length 0''"

definition spec_run ::
  "hashing \<Rightarrow> draw \<Rightarrow> bool \<Rightarrow> 'w spec list \<Rightarrow> 'w spec \<Rightarrow> string \<Rightarrow> string \<Rightarrow> 'w desk \<Rightarrow> ran \<times> 'w desk" where
  "spec_run hg d su sps sp args line w =
     (case sp_run sp of
        Module_run f \<Rightarrow> (case f args line (dk_rest w) of (r, x) \<Rightarrow> (r, w\<lparr>dk_rest := x\<rparr>))
      | Help_run \<Rightarrow> (Ran (Output (help_text su sps)), w)
      | Adduser_run \<Rightarrow>
          (case adduser_re line of
             None \<Rightarrow> (no_group, w)
           | Some (u, p) \<Rightarrow>
               (case add_user hg d u p (dk_auth w) of
                  (e, a) \<Rightarrow> (auth_answer e (''{g}User '' @ u @ '' added.{/}''), w\<lparr>dk_auth := a\<rparr>)))
      | Passwd_run \<Rightarrow>
          (case passwd_re line of
             None \<Rightarrow> (no_group, w)
           | Some (u, p) \<Rightarrow>
               (case set_password hg d u p (dk_auth w) of
                  (e, a) \<Rightarrow> (auth_answer e ''{g}Password changed.{/}'', w\<lparr>dk_auth := a\<rparr>)))
      | Users_run \<Rightarrow> (Ran (Output (join [CHR 0x0A] (user_names (dk_auth w)))), w))"

section \<open>The session\<close>

datatype login_state = State_user | State_pass | State_in

record console =
  cn_state :: login_state
  cn_user :: string
  cn_su :: bool
  cn_tries :: nat

datatype wire = Wire string | Wire_error auth_error

definition console_new :: console where
  "console_new = \<lparr>cn_state = State_user, cn_user = [], cn_su = False, cn_tries = 0\<rparr>"

definition wr :: "string \<Rightarrow> wire" where
  \<comment> \<open>\<open>write\<close>\<close>
  "wr s = Wire (to_ansi s)"

definition greeting :: "wire list" where
  "greeting = [wr do_echo, wr ''login: '']"

definition prompt :: "console \<Rightarrow> wire list" where
  "prompt c = [wr ((if cn_su c then ''{r}'' else ''{g}'') @ cn_user c @ ''{w}@'' @ ''{/}{c}Botje{w}>{/} '')]"

definition nl :: "string \<Rightarrow> string" where
  "nl s = s @ [CHR 0x0A]"

definition check_login :: "hashing \<Rightarrow> string \<Rightarrow> console \<Rightarrow> auth \<Rightarrow> bool \<times> wire list \<times> console" where
  "check_login hg pass c a =
     (let res = check hg (cn_user c) pass a in
      if res \<noteq> Valid \<and> res \<noteq> Super then
        (let c1 = c\<lparr>cn_tries := cn_tries c + 1\<rparr> in
         if max_tries \<le> cn_tries c1 then (True, [wr (nl ''H-h-h-h-HACKER!!!'')], c1)
         else (False, [wr (nl (nl ''Invalid username or password. Try again!'')), wr ''login: ''],
               c1\<lparr>cn_state := State_user\<rparr>))
      else
        (let c1 = c\<lparr>cn_su := (res = Super), cn_state := State_in\<rparr> in
         (False,
          wr (nl [] @ nl (nl ''Welcome to botje! Enter '{y}?{/}' or '{y}help{/}' for help.'')) # prompt c1, c1)))"

definition ends_line :: "string \<Rightarrow> string" where
  "ends_line out = (if out \<noteq> [] \<and> \<not> has_suffix [CHR 0x0A] out then nl out else out)"

definition show_ran :: "'w spec \<Rightarrow> ran \<Rightarrow> wire" where
  \<comment> \<open>the output of \<open>run\<close>, with its recovered panic, as \<open>dispatch\<close> writes it\<close>
  "show_ran sp r =
     (case r of
        Ran (Output out) \<Rightarrow> wr (ends_line out)
      | Ran (Auth_error e) \<Rightarrow> Wire_error e
      | Panics v \<Rightarrow> wr (ends_line (''{R}ERROR{/}: command '' @ sp_name sp @ '' crashed: '' @ v)))"

definition matches :: "string \<Rightarrow> 'w spec \<Rightarrow> bool" where
  "matches line sp = (case sp_match sp line of Some (b, e) \<Rightarrow> b = 0 | None \<Rightarrow> False)"

definition console_dispatch ::
  "hashing \<Rightarrow> draw \<Rightarrow> ('w desk \<Rightarrow> 'w spec list) \<Rightarrow> string \<Rightarrow> console \<Rightarrow> 'w desk \<Rightarrow> wire list \<times> 'w desk" where
  "console_dispatch hg d cmds line c w =
     (let sps = specs cmds w in
      case find (\<lambda>sp. may_run (cn_su c) sp \<and> matches line sp) sps of
        None \<Rightarrow> ([wr (nl (nl ''Sorry, that command is unknown.''))], w)
      | Some sp \<Rightarrow>
          (let e = (case sp_match sp line of Some (b, e) \<Rightarrow> e | None \<Rightarrow> 0);
               (r, w') = spec_run hg d (cn_su c) sps sp (trim_left {CHR '' '', CHR 0x09} (drop e line)) line w
           in ([show_ran sp r], w')))"

definition console_line ::
  "hashing \<Rightarrow> draw \<Rightarrow> ('w desk \<Rightarrow> 'w spec list) \<Rightarrow> string \<Rightarrow> console \<Rightarrow> 'w desk \<Rightarrow>
     bool \<times> wire list \<times> console \<times> 'w desk" where
  \<comment> \<open>\<open>handleLine\<close>\<close>
  "console_line hg d cmds line c w =
     (case cn_state c of
        State_user \<Rightarrow>
          (False, [wr will_echo, wr ''password: ''], c\<lparr>cn_user := line, cn_state := State_pass\<rparr>, w)
      | State_pass \<Rightarrow>
          (let (b, outs, c') = check_login hg line c (dk_auth w) in
           (b, wr wont_echo # wr (nl []) # outs, c', w))
      | State_in \<Rightarrow>
          (let line' = trim_space line in
           if quit_re line' then (True, [wr (nl ''Bye!'')], c, w)
           else (let (outs, w') = console_dispatch hg d cmds line' c w in (False, outs @ prompt c, c, w'))))"

fun console_run ::
  "hashing \<Rightarrow> ('w desk \<Rightarrow> 'w spec list) \<Rightarrow> (draw \<times> string) list \<Rightarrow> console \<Rightarrow> 'w desk \<Rightarrow>
     bool \<times> wire list \<times> console \<times> 'w desk" where
  \<comment> \<open>the lines of \<open>handle\<close>, up to the one that disconnects\<close>
  "console_run hg cmds [] c w = (False, [], c, w)"
| "console_run hg cmds ((d, line) # ls) c w =
     (let (closed, outs, c1, w1) = console_line hg d cmds line c w in
      if closed then (True, outs, c1, w1)
      else (let (closed', outs', c2, w2) = console_run hg cmds ls c1 w1 in (closed', outs @ outs', c2, w2)))"


section \<open>The line reader and the cuts of the stream\<close>

fun whole_commands :: "string \<Rightarrow> bool" where
  \<comment> \<open>the text does not end inside a telnet command\<close>
  "whole_commands [] = True"
| "whole_commands [c] = (c \<noteq> iac)"
| "whole_commands (c # d # s) =
     (if c \<noteq> iac then whole_commands (d # s)
      else if iac_verb d then s \<noteq> [] \<and> whole_commands (drop 1 s) else whole_commands s)"

lemma strip_iac_Cons: "c \<noteq> iac \<Longrightarrow> strip_iac (c # s) = c # strip_iac s"
  by (cases s) simp_all

lemma strip_iac_append: "whole_commands a \<Longrightarrow> strip_iac (a @ b) = strip_iac a @ strip_iac b"
proof (induction a rule: whole_commands.induct)
  case (3 c d s)
  then show ?case by (cases s) (auto split: if_splits)
qed (auto simp: strip_iac_Cons)

lemma split_on_append:
  "split_on c (a @ b) = butlast (split_on c a) @ split_on c (last (split_on c a) @ b)"
proof (induction a)
  case (Cons x a)
  obtain p ps where a: "split_on c a = p # ps" using split_on_not_Nil [of c a] by (cases "split_on c a") auto
  show ?case
  proof (cases "x = c")
    case True
    then show ?thesis using Cons by simp
  next
    case False
    then show ?thesis using Cons a by (cases ps) (simp_all split: list.splits)
  qed
qed simp

lemma read_all_chunks:
  assumes "\<forall>b \<in> set bs. whole_commands b" and "CHR 0x0A \<notin> set pending"
  shows "read_all pending bs =
    (let ps = split_on (CHR 0x0A) (pending @ strip_iac (concat bs))
     in (map (trim_right {CHR 0x0D}) (butlast ps), last ps))"
  using assms
proof (induction bs arbitrary: pending)
  case Nil
  then show ?case by (simp add: split_on_id)
next
  case (Cons b bs)
  let ?ps = "split_on (CHR 0x0A) (pending @ strip_iac b)"
  have l: "CHR 0x0A \<notin> set (last ?ps)" by (rule split_on_no_sep [OF last_in_set]) simp
  have "butlast (split_on (CHR 0x0A) (pending @ strip_iac b @ strip_iac (concat bs))) =
      butlast ?ps @ butlast (split_on (CHR 0x0A) (last ?ps @ strip_iac (concat bs)))"
    and "last (split_on (CHR 0x0A) (pending @ strip_iac b @ strip_iac (concat bs))) =
      last (split_on (CHR 0x0A) (last ?ps @ strip_iac (concat bs)))"
    using split_on_append [of "CHR 0x0A" "pending @ strip_iac b" "strip_iac (concat bs)"]
    by (simp_all add: butlast_append)
  then show ?case
    using Cons.IH [OF _ l] Cons.prems by (simp add: read_lines_def Let_def strip_iac_append)
qed

lemma trim_right_suffix:
  assumes "c \<in> cs"
  shows "\<not> has_suffix [c] (trim_right cs l)"
proof -
  define r where r: "r = dropWhile (\<lambda>c. c \<in> cs) (rev l)"
  then have "r \<noteq> [] \<Longrightarrow> hd r \<notin> cs" using hd_dropWhile [of "\<lambda>c. c \<in> cs" "rev l"] by blast
  moreover have "trim_right cs l = rev r" by (simp add: trim_right_def r)
  ultimately show ?thesis using assms by (cases r) (auto simp: has_suffix_def has_prefix_def)
qed

text \<open>
  The console reads the same lines however the stream is cut, as long as no cut falls inside a
  telnet command: the lines and the rest are those of one read of everything, no line has a newline and
  none ends in a carriage return.
\<close>

theorem console_chunking:
  assumes "\<forall>b \<in> set bs. whole_commands b"
  shows "read_all [] bs = read_lines [] (concat bs) \<and>
    (\<forall>l \<in> set (fst (read_all [] bs)). CHR 0x0A \<notin> set l \<and> \<not> has_suffix [CHR 0x0D] l)"
proof -
  let ?ps = "split_on (CHR 0x0A) (strip_iac (concat bs))"
  have r: "read_all [] bs = (map (trim_right {CHR 0x0D}) (butlast ?ps), last ?ps)"
    using read_all_chunks [OF assms, of "[]"] by (simp add: Let_def)
  have "CHR 0x0A \<notin> set (trim_right {CHR 0x0D} l)" if "l \<in> set (butlast ?ps)" for l
    using split_on_no_sep [OF in_set_butlastD [OF that]]
    by (auto simp: trim_right_def dest: set_dropWhileD)
  moreover have "\<not> has_suffix [CHR 0x0D] (trim_right {CHR 0x0D} l)" for l
    by (rule trim_right_suffix) simp
  ultimately have "\<forall>l \<in> set (fst (read_all [] bs)). CHR 0x0A \<notin> set l \<and> \<not> has_suffix [CHR 0x0D] l"
    unfolding r fst_conv set_map by blast
  then show ?thesis by (simp add: r read_lines_def Let_def)
qed

lemma console_chunking_witness:
  "read_all [] [''us'' @ will_echo, ''ers'' @ [CHR 0x0D, CHR 0x0A]] =
    read_lines [] (concat [''us'' @ will_echo, ''ers'' @ [CHR 0x0D, CHR 0x0A]])"
  using console_chunking [of "[''us'' @ will_echo, ''ers'' @ [CHR 0x0D, CHR 0x0A]]"]
  by (simp add: will_echo_def iac_def iac_verb_def)

text \<open>A command cut in two leaks its last bytes into the line.\<close>

lemma cut_command_leaks:
  "read_all [] [[iac], [CHR 0xFD, CHR 0x01] @ ''x'' @ [CHR 0x0A]] = ([[CHR 0xFD, CHR 0x01] @ ''x''], [])"
  "read_all [] [[iac] @ [CHR 0xFD, CHR 0x01] @ ''x'' @ [CHR 0x0A]] = ([''x''], [])"
  by code_simp+

section \<open>Logging in\<close>

datatype login_end = Waiting | Thrown_out | Logged_in string bool "(draw \<times> string) list"

fun login_spec :: "hashing \<Rightarrow> auth \<Rightarrow> nat \<Rightarrow> (draw \<times> string) list \<Rightarrow> login_end" where
  \<comment> \<open>what the lines of a new connection come to: names and passwords in turn, three tries\<close>
  "login_spec hg a tries ((d, name) # (d', pass) # ls) =
     (case check hg name pass a of
        Super \<Rightarrow> Logged_in name True ls
      | Valid \<Rightarrow> Logged_in name False ls
      | _ \<Rightarrow> if 3 \<le> tries + 1 then Thrown_out else login_spec hg a (tries + 1) ls)"
| "login_spec hg a tries ls = Waiting"

lemma run_two:
  "cn_state c = State_user \<Longrightarrow>
   console_run hg cmds ((d, name) # (d', pass) # ls) c w =
     (let (b, outs, c1) = check_login hg pass (c\<lparr>cn_user := name, cn_state := State_pass\<rparr>) (dk_auth w);
          pre = [wr will_echo, wr ''password: '', wr wont_echo, wr (nl [])] @ outs in
      if b then (True, pre, c1, w)
      else (let (closed, outs', c2, w2) = console_run hg cmds ls c1 w in (closed, pre @ outs', c2, w2)))"
  by (simp add: console_line_def Let_def split: prod.split)

definition login_ok ::
  "hashing \<Rightarrow> ('w desk \<Rightarrow> 'w spec list) \<Rightarrow> login_end \<Rightarrow> 'w desk \<Rightarrow> bool \<times> wire list \<times> console \<times> 'w desk \<Rightarrow> bool" where
  \<comment> \<open>a run is what its login came to\<close>
  "login_ok hg cmds e w r =
     (case r of (closed, outs, c, w') \<Rightarrow>
       (case e of
          Waiting \<Rightarrow> \<not> closed \<and> cn_state c \<noteq> State_in \<and> w' = w
        | Thrown_out \<Rightarrow> closed \<and> w' = w \<and> outs \<noteq> [] \<and> last outs = wr (nl ''H-h-h-h-HACKER!!!'')
        | Logged_in name su rest \<Rightarrow>
            (\<exists>pre tries outs'. tries < 3 \<and> outs = pre @ outs' \<and>
              console_run hg cmds rest \<lparr>cn_state = State_in, cn_user = name, cn_su = su, cn_tries = tries\<rparr> w =
                (closed, outs', c, w'))))"

lemma login_ok_pre:
  "login_ok hg cmds e w (closed, outs, c, w') \<Longrightarrow> login_ok hg cmds e w (closed, pre @ outs, c, w')"
  by (cases e) (force simp: login_ok_def)+

lemma login_in:
  assumes "console_run hg cmds ls \<lparr>cn_state = State_in, cn_user = name, cn_su = su, cn_tries = tries\<rparr> w = (b, outs, c, w')"
    and "tries < 3"
  shows "login_ok hg cmds (Logged_in name su ls) w (b, outs, c, w')"
proof -
  have "outs = [] @ outs" by simp
  with assms show ?thesis unfolding login_ok_def by (simp del: append_Nil) blast
qed

lemma login_run:
  assumes "cn_state c = State_user" and "n < 3" and "n = cn_tries c" and "a = dk_auth w"
  shows "login_ok hg cmds (login_spec hg a n ls) w (console_run hg cmds ls c w)"
  using assms
proof (induction hg a n ls arbitrary: c rule: login_spec.induct)
  case (1 hg a n d name d' pass ls)
  note [simp] = 1(5,6)
  have "cn_tries c < 3" using 1(4) by simp
  let ?c1 = "c\<lparr>cn_user := name, cn_state := State_pass\<rparr>"
  let ?res = "check hg name pass (dk_auth w)"
  obtain b outs c2 where cl: "check_login hg pass ?c1 (dk_auth w) = (b, outs, c2)" by (metis prod_cases3)
  let ?pre = "[wr will_echo, wr ''password: '', wr wont_echo, wr (nl [])] @ outs"
  obtain closed outs' c3 w3 where r2: "console_run hg cmds ls c2 w = (closed, outs', c3, w3)"
    by (metis prod_cases4)
  have run: "console_run hg cmds ((d, name) # (d', pass) # ls) c w =
      (if b then (True, ?pre, c2, w) else (closed, ?pre @ outs', c3, w3))"
    unfolding run_two [OF 1(3)] cl r2 by (simp add: r2)
  consider "?res = Super \<or> ?res = Valid" | "?res \<noteq> Super" "?res \<noteq> Valid" "3 \<le> cn_tries c + 1"
    | "?res \<noteq> Super" "?res \<noteq> Valid" "\<not> 3 \<le> cn_tries c + 1" by blast
  then show ?case
  proof cases
    case A: 1
    then have b: "\<not> b"
      and c2: "c2 = \<lparr>cn_state = State_in, cn_user = name, cn_su = (?res = Super), cn_tries = cn_tries c\<rparr>"
      using cl by (auto simp: check_login_def)
    have e: "login_spec hg a n ((d, name) # (d', pass) # ls) = Logged_in name (?res = Super) ls"
      using A by auto
    show ?thesis unfolding run e using b login_ok_pre [OF login_in [OF r2 [unfolded c2] \<open>cn_tries c < 3\<close>], of ?pre] by simp
  next
    case A: 2
    then have b: "b" "last outs = wr (nl ''H-h-h-h-HACKER!!!'')" "outs \<noteq> []"
      using cl by (auto simp: check_login_def max_tries_def)
    have e: "login_spec hg a n ((d, name) # (d', pass) # ls) = Thrown_out"
      using A by (cases ?res) auto
    show ?thesis unfolding run e using b by (simp add: login_ok_def)
  next
    case A: 3
    then have b: "\<not> b" "cn_state c2 = State_user" "cn_tries c2 = cn_tries c + 1"
      using cl by (auto simp: check_login_def max_tries_def)
    have e: "login_spec hg a n ((d, name) # (d', pass) # ls) = login_spec hg a (n + 1) ls"
      using A by (cases ?res) auto
    have "login_ok hg cmds (login_spec hg a (n + 1) ls) w (closed, outs', c3, w3)"
      unfolding r2 [symmetric] using 1(1,2) [of c2] A b by (cases ?res) auto
    from login_ok_pre [OF this, of ?pre] show ?thesis unfolding run e using b(1) by simp
  qed
qed (auto simp: login_ok_def console_line_def)

text \<open>
  C10. A session is its login and then its commands. The lines of a new connection are read as names and
  passwords in turn: until a pair is accepted nothing runs and nothing changes, the third refusal ends the
  connection, and after an accepted pair the rest of the lines run as that user, as a superuser
  exactly when the superuser's own password was given.
\<close>

theorem console_login:
  "case console_run hg cmds ls console_new w of (closed, outs, c, w') \<Rightarrow>
    (case login_spec hg (dk_auth w) 0 ls of
       Waiting \<Rightarrow> \<not> closed \<and> cn_state c \<noteq> State_in \<and> w' = w
     | Thrown_out \<Rightarrow> closed \<and> w' = w \<and> outs \<noteq> [] \<and> last outs = wr (nl ''H-h-h-h-HACKER!!!'')
     | Logged_in name su rest \<Rightarrow>
         (\<exists>pre tries outs'. tries < 3 \<and> outs = pre @ outs' \<and>
           console_run hg cmds rest \<lparr>cn_state = State_in, cn_user = name, cn_su = su, cn_tries = tries\<rparr> w =
             (closed, outs', c, w')))"
  using login_run [of console_new 0 "dk_auth w" w hg cmds ls] by (simp add: console_new_def login_ok_def)

section \<open>What a user without the superuser's password can do\<close>

definition modules_only :: "('w desk \<Rightarrow> 'w spec list) \<Rightarrow> bool" where
  "modules_only cmds = (\<forall>w. \<forall>sp \<in> set (cmds w). \<exists>f. sp_run sp = Module_run f)"

definition plain_specs :: "('w desk \<Rightarrow> 'w spec list) \<Rightarrow> 'w desk \<Rightarrow> 'w spec list" where
  "plain_specs cmds w = filter (\<lambda>sp. \<not> sp_su sp) (cmds w)"

definition not_super :: "login_end \<Rightarrow> bool" where
  "not_super e = (case e of Logged_in name su rest \<Rightarrow> \<not> su | _ \<Rightarrow> True)"

definition stays_plain :: "hashing \<Rightarrow> auth \<Rightarrow> console \<Rightarrow> (draw \<times> string) list \<Rightarrow> bool" where
  "stays_plain hg a c ls =
     (case cn_state c of
        State_in \<Rightarrow> \<not> cn_su c
      | State_user \<Rightarrow> not_super (login_spec hg a (cn_tries c) ls)
      | State_pass \<Rightarrow> (\<forall>d. not_super (login_spec hg a (cn_tries c) ((d, cn_user c) # ls))))"

lemma find_filter: "find (\<lambda>x. Q x \<and> M x) xs = find M (filter Q xs)"
  by (induction xs) auto

lemma find_in: "find M xs = Some x \<Longrightarrow> x \<in> set xs"
  by (induction xs) (auto split: if_splits)

lemma login_spec_draw: "login_spec hg a n ((d, x) # ls) = login_spec hg a n ((d', x) # ls)"
  by (cases ls) auto

lemma plain_filter: "filter (may_run False) (specs cmds w) = plain_specs cmds w @ filter (\<lambda>sp. \<not> sp_su sp) builtins"
  by (simp add: specs_def plain_specs_def may_run_def [abs_def])

lemma plain_builtin: "filter (\<lambda>sp. \<not> sp_su sp) builtins = [hd builtins]" "sp_run (hd builtins) = Help_run"
  by (simp_all add: builtins_def)

lemma dispatch_plain:
  assumes "modules_only cmds" and "plain_specs cmds w = plain_specs cmds' w" and "\<not> cn_su c"
  shows "console_dispatch hg d cmds line c w = console_dispatch hg d cmds' line c w"
    and "dk_auth (snd (console_dispatch hg d cmds line c w)) = dk_auth w"
proof -
  have fs: "filter (may_run False) (specs cmds w) = filter (may_run False) (specs cmds' w)"
    using assms(2) by (simp add: plain_filter)
  have "help_text False (specs cmds w) = help_text False (specs cmds' w)"
    by (simp add: help_text_def fs)
  then have "spec_run hg d False (specs cmds w) sp = spec_run hg d False (specs cmds' w) sp" for sp
    by (intro ext) (simp add: spec_run_def split: runner.split)
  then show "console_dispatch hg d cmds line c w = console_dispatch hg d cmds' line c w"
    using assms(3) by (simp add: console_dispatch_def Let_def find_filter fs split: option.split)
  have "sp_run sp = Help_run \<or> (\<exists>f. sp_run sp = Module_run f)"
    if "find (matches line) (filter (may_run False) (specs cmds w)) = Some sp" for sp
    using find_in [OF that] assms(1) unfolding plain_filter plain_builtin(1)
    by (auto simp: plain_builtin(2) plain_specs_def modules_only_def)
  then have "dk_auth (snd (spec_run hg d False sps sp args line w)) = dk_auth w"
    if "find (matches line) (filter (may_run False) (specs cmds w)) = Some sp" for sp sps args
    using that by (fastforce simp: spec_run_def split: prod.splits)
  then show "dk_auth (snd (console_dispatch hg d cmds line c w)) = dk_auth w"
    using assms(3)
    by (cases "find (matches line) (filter (may_run False) (specs cmds w))")
      (simp_all add: console_dispatch_def Let_def find_filter case_prod_beta)
qed

lemma line_plain:
  assumes "modules_only cmds" and "plain_specs cmds w = plain_specs cmds' w"
    and "stays_plain hg (dk_auth w) c ((d, line) # ls)"
    and "console_line hg d cmds line c w = (b, outs, c1, w1)"
  shows "console_line hg d cmds' line c w = (b, outs, c1, w1)" and "dk_auth w1 = dk_auth w"
    and "\<not> b \<Longrightarrow> stays_plain hg (dk_auth w) c1 ls"
proof -
  have "console_line hg d cmds' line c w = (b, outs, c1, w1) \<and> dk_auth w1 = dk_auth w \<and>
    (\<not> b \<longrightarrow> stays_plain hg (dk_auth w) c1 ls)"
  proof (cases "cn_state c")
    case State_user
    have "\<forall>d'. not_super (login_spec hg (dk_auth w) (cn_tries c) ((d', line) # ls))"
      using assms(3) State_user by (simp add: stays_plain_def) (metis login_spec_draw)
    then show ?thesis using assms(4) State_user by (auto simp: console_line_def stays_plain_def)
  next
    case State_pass
    have "not_super (login_spec hg (dk_auth w) (cn_tries c) ((d, cn_user c) # (d, line) # ls))"
      using assms(3) State_pass by (simp add: stays_plain_def)
    then show ?thesis using assms(4) State_pass
      by (auto simp: console_line_def check_login_def Let_def stays_plain_def not_super_def max_tries_def
          split: if_splits auth_result.splits)
  next
    case State_in
    then have "\<not> cn_su c" using assms(3) by (simp add: stays_plain_def)
    note D = dispatch_plain [OF assms(1,2) this, of hg d "trim_space line"]
    show ?thesis
      using assms(4) State_in D \<open>\<not> cn_su c\<close>
      by (auto simp: console_line_def Let_def stays_plain_def split: if_splits prod.splits)
  qed
  then show "console_line hg d cmds' line c w = (b, outs, c1, w1)" and "dk_auth w1 = dk_auth w"
    and "\<not> b \<Longrightarrow> stays_plain hg (dk_auth w) c1 ls" by blast+
qed

lemma run_plain:
  assumes "modules_only cmds" and "\<And>w. plain_specs cmds w = plain_specs cmds' w"
    and "stays_plain hg (dk_auth w) c ls"
  shows "console_run hg cmds' ls c w = console_run hg cmds ls c w \<and>
    dk_auth (snd (snd (snd (console_run hg cmds ls c w)))) = dk_auth w"
  using assms(3)
proof (induction ls arbitrary: c w)
  case Nil
  then show ?case by simp
next
  case (Cons x ls)
  obtain d line where x: "x = (d, line)" by fastforce
  obtain b outs c1 w1 where l: "console_line hg d cmds line c w = (b, outs, c1, w1)" by (metis prod_cases4)
  note L = line_plain [OF assms(1) assms(2) Cons.prems [unfolded x] l]
  show ?case
  proof (cases b)
    case True
    then show ?thesis using l L(1,2) by (simp add: x)
  next
    case False
    have "stays_plain hg (dk_auth w1) c1 ls" using L(2,3) False by simp
    note IH = Cons.IH [OF this]
    obtain closed outs' c2 w2 where r: "console_run hg cmds ls c1 w1 = (closed, outs', c2, w2)"
      by (metis prod_cases4)
    show ?thesis using IH l L(1,2) False by (simp add: x r)
  qed
qed

text \<open>
  C9. The superuser commands are out of reach. A connection that does not log in as the superuser writes
  the same answers and does the same to the program whatever superuser commands the modules
  offer, help included, and the user table and the superuser stay as they are.
\<close>

theorem console_su_gate:
  assumes "modules_only cmds" and "\<And>w. plain_specs cmds w = plain_specs cmds' w"
    and "not_super (login_spec hg (dk_auth w) 0 ls)"
  shows "console_run hg cmds' ls console_new w = console_run hg cmds ls console_new w \<and>
    dk_auth (snd (snd (snd (console_run hg cmds ls console_new w)))) = dk_auth w"
  using run_plain [OF assms(1,2), of hg w console_new ls] assms(3)
  by (simp add: stays_plain_def console_new_def)

text \<open>A console over two modules, one command of which is the superuser's.\<close>

definition demo_spec :: "string \<Rightarrow> bool \<Rightarrow> nat spec" where
  "demo_spec name su =
     \<lparr>sp_name = name, sp_match = (\<lambda>l. if has_prefix name l then Some (0, length name) else None), sp_help = ''demo'',
      sp_args = [], sp_su = su, sp_run = Module_run (\<lambda>args line n. (Ran (Output args), n + 1))\<rparr>"

definition demo_desk :: "nat desk" where
  "demo_desk = \<lparr>dk_auth = \<lparr>au_store = mem_new, au_users = [(''jan'', replicate 112 (CHR ''x''))], au_super = ''root'',
     au_super_hash = []\<rparr>, dk_rest = 0\<rparr>"

definition demo_lines :: "(draw \<times> string) list" where
  "demo_lines = map (Pair \<lparr>dr_salt = [], dr_put_ok = True\<rparr>) [''jan'', ''p'', ''say hi'', ''die'', ''quit'']"

lemma console_su_gate_witness:
  "console_run demo_hashing (\<lambda>w. [demo_spec ''say'' False]) demo_lines console_new demo_desk =
    console_run demo_hashing (\<lambda>w. [demo_spec ''say'' False, demo_spec ''die'' True]) demo_lines console_new demo_desk \<and>
   login_spec demo_hashing (dk_auth demo_desk) 0 demo_lines = Logged_in ''jan'' False (drop 2 demo_lines)"
proof -
  have l: "login_spec demo_hashing (dk_auth demo_desk) 0 demo_lines = Logged_in ''jan'' False (drop 2 demo_lines)"
    by (simp add: demo_lines_def demo_desk_def demo_hashing_def check_def)
  have m: "modules_only (\<lambda>w. [demo_spec ''say'' False, demo_spec ''die'' True])"
    by (simp add: modules_only_def demo_spec_def)
  have p: "plain_specs (\<lambda>w. [demo_spec ''say'' False, demo_spec ''die'' True]) w =
      plain_specs (\<lambda>w. [demo_spec ''say'' False]) w" for w
    by (simp add: plain_specs_def demo_spec_def)
  have "not_super (login_spec demo_hashing (dk_auth demo_desk) 0 demo_lines)"
    by (simp only: l not_super_def login_end.case) simp
  from console_su_gate [OF m p this] l show ?thesis by blast
qed

end
