(* ===== verification/Go_Case.thy ===== *)
theory Go_Case
  imports Go_Utf8
begin

text \<open>
  Case and printable text. The case tables of package unicode beyond ASCII are the record
  \<open>case_tables\<close>; \<open>strings.ToLower\<close> and conversions from runes write U+FFFD for an invalid byte. A
  \<open>clean\<close> text has no control character below the blank.
\<close>

section \<open>Case\<close>

record case_tables =
  ct_lower :: "nat \<Rightarrow> nat"
  ct_upper :: "nat \<Rightarrow> nat"

definition lower_rune :: "case_tables \<Rightarrow> nat \<Rightarrow> nat" where
  "lower_rune U r =
     (if 0x41 \<le> r \<and> r \<le> 0x5A then r + 32 else if r < 0x80 then r else ct_lower U r)"

definition title_rune :: "case_tables \<Rightarrow> nat \<Rightarrow> nat" where
  \<comment> \<open>\<open>unicode.ToUpper\<close>\<close>
  "title_rune U r =
     (if 0x61 \<le> r \<and> r \<le> 0x7A then r - 32 else if r < 0x80 then r else ct_upper U r)"

definition from_runes :: "nat list \<Rightarrow> string" where
  "from_runes rs = concat (map encode_rune rs)"

definition lower_text :: "case_tables \<Rightarrow> string \<Rightarrow> string" where
  \<comment> \<open>\<open>strings.ToLower\<close>\<close>
  "lower_text U s = from_runes (map (lower_rune U) (runes s))"

definition capitalize :: "case_tables \<Rightarrow> string \<Rightarrow> string" where
  "capitalize U w =
     (case runes w of [] \<Rightarrow> w | r # rs \<Rightarrow> from_runes (title_rune U r # rs))"

section \<open>No control characters\<close>

definition clean :: "string \<Rightarrow> bool" where
  \<comment> \<open>without the bytes below the blank\<close>
  "clean w = (\<forall>c \<in> set w. 0x20 \<le> byte c)"

definition printing :: "case_tables \<Rightarrow> bool" where
  \<comment> \<open>the case tables lead to no control character\<close>
  "printing U = (\<forall>r. 0x20 \<le> r \<longrightarrow> 0x20 \<le> ct_lower U r \<and> 0x20 \<le> ct_upper U r)"

lemma decode_low:
  assumes "s \<noteq> []" and "fst (decode_rune s) < 0x80"
  shows "byte (hd s) = fst (decode_rune s)"
  using assms(1)
proof (cases rule: decode_cases)
  case (two c0 c1 t)
  then have "194 \<le> byte c0" by (simp add: two_ok_def)
  then have "2 \<le> byte c0 - 0xC0" by linarith
  with two have "128 \<le> fst (decode_rune s)" by (simp add: decode2)
  with assms(2) show ?thesis by simp
next
  case (three c0 c1 c2 t)
  then have "128 \<le> (byte c0 - 0xE0) * 4096 + (byte c1 - 0x80) * 64"
    by (cases "byte c0 = 0xE0") (auto simp: three_ok_def second_ok_def)
  with three have "128 \<le> fst (decode_rune s)" by (simp add: decode3)
  with assms(2) show ?thesis by simp
next
  case (four c0 c1 c2 c3 t)
  then have "128 \<le> (byte c0 - 0xF0) * 262144 + (byte c1 - 0x80) * 4096"
    by (cases "byte c0 = 0xF0") (auto simp: four_ok_def second_ok_def)
  with four have "128 \<le> fst (decode_rune s)" by (simp add: decode4)
  with assms(2) show ?thesis by simp
next
  case (invalid c0 t)
  with assms(2) show ?thesis by (simp add: rune_error_def)
qed simp_all

lemma segs_set: "g \<in> set (segs s) \<Longrightarrow> set g \<subseteq> set s"
  by (metis UN_upper concat_segs set_concat)

lemma clean_runes: "clean w \<Longrightarrow> r \<in> set (runes w) \<Longrightarrow> 0x20 \<le> r"
proof -
  assume w: "clean w" and "r \<in> set (runes w)"
  then obtain g where g: "g \<in> set (segs w)" "r = seg_rune g" by (auto simp: runes_def)
  with segs_decode have ne: "g \<noteq> []" by blast
  then have "hd g \<in> set w" using segs_set [OF g(1)] by auto
  with w have "0x20 \<le> byte (hd g)" by (auto simp: clean_def)
  then show ?thesis using decode_low [OF ne] by (cases "r < 0x80") (auto simp: g(2) seg_rune_def)
qed

lemma encode_clean: "0x20 \<le> r \<Longrightarrow> clean (encode_rune r)"
  by (auto simp: clean_def encode_rune_def Let_def byte_char_of rune_error_def)

lemma clean_from_runes: "\<forall>r \<in> set rs. 0x20 \<le> r \<Longrightarrow> clean (from_runes rs)"
  using encode_clean by (fastforce simp: from_runes_def clean_def)

lemma clean_append [simp]: "clean (a @ b) \<longleftrightarrow> clean a \<and> clean b"
  by (auto simp: clean_def)

lemma clean_Cons: "clean (c # s) \<longleftrightarrow> 0x20 \<le> byte c \<and> clean s"
  by (simp add: clean_def)

lemma clean_Nil [simp]: "clean []"
  by (simp add: clean_def)

lemma clean_subset: "set a \<subseteq> set b \<Longrightarrow> clean b \<Longrightarrow> clean a"
  by (auto simp: clean_def)

lemma trim_space_subset: "set (trim_space s) \<subseteq> set s"
proof -
  have "set (rev (dropWhile seg_space (rev (dropWhile seg_space (segs s))))) \<subseteq> set (segs s)"
    by (auto dest!: set_dropWhileD)
  then have "set (trim_space s) \<subseteq> set (concat (segs s))"
    unfolding trim_space_def set_concat by (rule UN_mono) simp
  then show ?thesis by (simp only: concat_segs)
qed

lemma clean_title: "printing U \<Longrightarrow> 0x20 \<le> r \<Longrightarrow> 0x20 \<le> title_rune U r"
  unfolding title_rune_def printing_def by (simp; linarith?)

lemma clean_capitalize: "printing U \<Longrightarrow> clean w \<Longrightarrow> clean (capitalize U w)"
  by (auto simp: capitalize_def clean_title clean_runes split: list.split intro!: clean_from_runes)

lemma capitalize_Nil_iff [simp]: "capitalize U w = [] \<longleftrightarrow> w = []"
proof (cases "w = []")
  case False
  then have "segs w \<noteq> []" by (simp add: segs_step)
  then obtain r rs where "runes w = r # rs" by (cases "segs w") (auto simp: runes_def)
  with False show ?thesis by (simp add: capitalize_def from_runes_def encode_length)
qed (simp add: capitalize_def runes_def)

text \<open>What is made from runes is UTF-8.\<close>

lemma valid_from_runes: "valid_utf8 (from_runes rs)"
proof (induction rs)
  case (Cons r rs)
  obtain q where q: "scalar q" "encode_rune r = encode_rune q"
  proof
    show "scalar (if scalar r then r else rune_error)" by (simp add: scalar_def rune_error_def)
    show "encode_rune r = encode_rune (if scalar r then r else rune_error)"
      by (simp add: encode_rune_def scalar_def rune_error_def)
  qed
  have d: "decode_rune (encode_rune q @ t) = (q, length (encode_rune q))" for t
    by (rule decode_encode [OF q(1)])
  have "segs (encode_rune q @ t) = encode_rune q # segs t" for t
    using encode_length(1) [of q] by (simp add: segs_step d)
  moreover have "\<not> seg_invalid (encode_rune q)"
    using d [of "[]"] by (auto simp: seg_invalid_def encode_rune_def rune_error_def)
  ultimately show ?case using Cons q(2) by (simp add: from_runes_def valid_utf8_def)
qed (simp add: from_runes_def valid_utf8_def)

lemma valid_lower_text [simp]: "valid_utf8 (lower_text U s)"
  by (simp add: lower_text_def valid_from_runes)

section \<open>Plain ASCII\<close>

lemma runes_ascii: "\<forall>c \<in> set s. byte c < 0x80 \<Longrightarrow> runes s = map byte s"
  by (simp add: runes_def segs_ascii seg_rune_def decode_ascii)

lemma from_runes_ascii: "\<forall>c \<in> set s. byte c < 0x80 \<Longrightarrow> from_runes (map byte s) = s"
  by (induction s) (simp_all add: from_runes_def encode_rune_def)

lemma lower_text_ascii:
  assumes "\<forall>c \<in> set s. byte c < 0x80"
  shows "lower_text U s = to_lower s"
proof -
  have u: "is_upper c \<longleftrightarrow> 0x41 \<le> byte c \<and> byte c \<le> 0x5A" for c :: char
    by (simp add: is_upper_def less_eq_char_def)
  have l: "lower_rune U (byte c) = byte (lower_char c)" if "byte c < 0x80" for c
    using that by (simp add: lower_rune_def lower_char_def u byte_char_of)
  have "byte (lower_char c) < 0x80" if "byte c < 0x80" for c
    using that by (simp add: lower_char_def u byte_char_of)
  then have "\<forall>c \<in> set (to_lower s). byte c < 0x80" using assms by (simp add: to_lower_def)
  from from_runes_ascii [OF this] show ?thesis
    using assms l by (simp add: lower_text_def runes_ascii to_lower_def comp_def cong: map_cong)
qed

end
