(* ===== verification/Markov_Trie.thy ===== *)
theory Markov_Trie
  imports Go_Prelude "HOL-Library.Sublist"
begin

text \<open>
  modules/markov: the chains. compact.go, the table of interned words and the compact trie with its
  conversions, and the learning of markov.go: the windows of a token sequence, \<open>LearnLine\<close> on the stored
  shape, \<open>learnTokens\<close> on the compact one, and the reverse dictionary derived from the forward one. A
  counter of the compact shape is an \<open>int32\<close>, an integer brought back into range by \<open>wrap32\<close>; a word id
  is a natural number (the table would need four thousand million words to exhaust its \<open>uint32\<close>). A node
  is a tree: no two places share one.
\<close>

section \<open>The two shapes\<close>

datatype node = Node (nd_count: int) (nd_children: "(string \<times> node) list")

datatype cnode = Cnode (cn_count: int) (cn_kids: "(nat \<times> cnode) list")

definition wrap32 :: "int \<Rightarrow> int" where
  "wrap32 i = (i + 2 ^ 31) mod 2 ^ 32 - 2 ^ 31"

record interner =
  in_ids :: "(string \<times> nat) list"
  in_strs :: "string list"

definition intern :: "string \<Rightarrow> interner \<Rightarrow> nat \<times> interner" where
  \<comment> \<open>\<open>id\<close>\<close>
  "intern w tab =
     (case map_of (in_ids tab) w of
        Some i \<Rightarrow> (i, tab)
      | None \<Rightarrow> (let i = length (in_strs tab) in
                 (i, \<lparr>in_ids = AList.update w i (in_ids tab), in_strs = in_strs tab @ [w]\<rparr>)))"

definition lookup_word :: "string \<Rightarrow> interner \<Rightarrow> nat option" where
  "lookup_word w tab = map_of (in_ids tab) w"

definition word_str :: "interner \<Rightarrow> nat \<Rightarrow> string" where
  "word_str tab i = in_strs tab ! i"

definition tok_start :: string where "tok_start = [CHR 0x02]"

definition tok_end :: string where "tok_end = [CHR 0x03]"

definition word_tab :: interner where
  \<comment> \<open>the table once the sentinels are interned\<close>
  "word_tab = snd (intern tok_end (snd (intern tok_start \<lparr>in_ids = [], in_strs = []\<rparr>)))"

text \<open>\<open>slices.BinarySearchFunc\<close> over the word ids.\<close>

function bs_loop :: "(nat \<times> 'a) list \<Rightarrow> nat \<Rightarrow> nat \<Rightarrow> nat \<Rightarrow> nat" where
  "bs_loop xs t i j =
     (if i < j then (let h = (i + j) div 2 in if fst (xs ! h) < t then bs_loop xs t (h + 1) j else bs_loop xs t i h)
      else i)"
  by pat_completeness auto
termination by (relation "measure (\<lambda>(xs, t, i, j). j - i)") auto

declare bs_loop.simps [simp del]

definition bsearch :: "(nat \<times> 'a) list \<Rightarrow> nat \<Rightarrow> nat \<times> bool" where
  "bsearch xs t = (let i = bs_loop xs t 0 (length xs) in (i, i < length xs \<and> fst (xs ! i) = t))"

definition child :: "nat \<Rightarrow> cnode \<Rightarrow> cnode option" where
  "child w nd = (case bsearch (cn_kids nd) w of (i, ok) \<Rightarrow> if ok then Some (snd (cn_kids nd ! i)) else None)"

definition ensure_child :: "nat \<Rightarrow> (cnode \<Rightarrow> cnode) \<Rightarrow> (nat \<times> cnode) list \<Rightarrow> (nat \<times> cnode) list" where
  \<comment> \<open>\<open>ensureChild\<close> and what is then done to the child it returns\<close>
  "ensure_child w f kids =
     (case bsearch kids w of (i, ok) \<Rightarrow>
        if ok then kids[i := (w, f (snd (kids ! i)))]
        else take i kids @ (w, f (Cnode 0 [])) # drop i kids)"

fun to_compact :: "interner \<Rightarrow> node \<Rightarrow> cnode \<times> interner"
  and to_kids :: "interner \<Rightarrow> (string \<times> node) list \<Rightarrow> (nat \<times> cnode) list \<times> interner" where
  "to_compact tab (Node c ch) = (let (kids, tab') = to_kids tab ch in (Cnode (wrap32 c) (sort_key fst kids), tab'))"
| "to_kids tab [] = ([], tab)"
| "to_kids tab ((w, n) # ch) =
     (let (i, tab1) = intern w tab; (nd, tab2) = to_compact tab1 n; (kids, tab3) = to_kids tab2 ch
      in ((i, nd) # kids, tab3))"

fun from_compact :: "interner \<Rightarrow> cnode \<Rightarrow> node"
  and from_kids :: "interner \<Rightarrow> (nat \<times> cnode) list \<Rightarrow> (string \<times> node) list \<Rightarrow> (string \<times> node) list" where
  "from_compact tab (Cnode c kids) = Node c (from_kids tab kids [])"
| "from_kids tab [] acc = acc"
| "from_kids tab ((i, nd) # kids) acc =
     from_kids tab kids (AList.update (word_str tab i) (from_compact tab nd) acc)"

section \<open>Learning\<close>

fun slide :: "'a list \<Rightarrow> 'a list \<Rightarrow> 'a list list" where
  "slide prev [] = []"
| "slide prev (t # ts) = (prev @ [t]) # slide (tl (prev @ [t])) ts"

definition windows :: "int \<Rightarrow> 'a list \<Rightarrow> 'a list list" where
  "windows order toks =
     (if toks = [] then []
      else (let prev = take (nat order) toks; rest = drop (nat order) toks
            in if rest = [] then [prev] else slide prev rest))"

fun add_path :: "string list \<Rightarrow> (string \<times> node) list \<Rightarrow> (string \<times> node) list" where
  "add_path [] ch = ch"
| "add_path (w # ws) ch =
     (let nd = (case map_of ch w of Some n \<Rightarrow> n | None \<Rightarrow> Node 0 [])
      in AList.update w (Node (nd_count nd + 1) (add_path ws (nd_children nd))) ch)"

definition add_words :: "int \<Rightarrow> string list \<Rightarrow> (string \<times> node) list \<Rightarrow> (string \<times> node) list" where
  "add_words order ws dic = add_path (take (nat (order + 1)) ws) dic"

definition learn_line :: "int \<Rightarrow> string list \<Rightarrow> (string \<times> node) list \<Rightarrow> (string \<times> node) list" where
  \<comment> \<open>\<open>LearnLine\<close> on the tokens of the line\<close>
  "learn_line order toks dic = fold (add_words order) (windows order toks) dic"

type_synonym chain_map = "(nat \<times> cnode) list"

definition bump :: "int \<Rightarrow> cnode \<Rightarrow> cnode" where
  "bump k nd = Cnode (wrap32 (cn_count nd + k)) (cn_kids nd)"

fun bump_path :: "int \<Rightarrow> nat list \<Rightarrow> cnode \<Rightarrow> cnode" where
  "bump_path k [] nd = nd"
| "bump_path k (w # ws) nd =
     Cnode (cn_count nd) (ensure_child w (\<lambda>ch. bump_path k ws (bump k ch)) (cn_kids nd))"

fun top_path :: "int \<Rightarrow> nat list \<Rightarrow> chain_map \<Rightarrow> chain_map" where
  "top_path k [] ch = ch"
| "top_path k (w # ws) ch =
     AList.update w (bump_path k ws (bump k (case map_of ch w of Some nd \<Rightarrow> nd | None \<Rightarrow> Cnode 0 []))) ch"

fun intern_all :: "string list \<Rightarrow> interner \<Rightarrow> nat list \<times> interner" where
  "intern_all [] tab = ([], tab)"
| "intern_all (w # ws) tab =
     (let (i, tab1) = intern w tab; (is, tab2) = intern_all ws tab1 in (i # is, tab2))"

definition learn_window :: "string list \<Rightarrow> interner \<times> chain_map \<Rightarrow> interner \<times> chain_map" where
  "learn_window win = (\<lambda>(tab, ch). let (is, tab') = intern_all win tab in (tab', top_path 1 is ch))"

definition learn_tokens :: "int \<Rightarrow> string list \<Rightarrow> interner \<times> chain_map \<Rightarrow> interner \<times> chain_map" where
  "learn_tokens order toks st = fold learn_window (windows order toks) st"

section \<open>The reverse dictionary\<close>

definition insert_reversed :: "nat list \<times> int \<Rightarrow> chain_map \<Rightarrow> chain_map" where
  "insert_reversed = (\<lambda>(path, k) ch. top_path k (rev path) ch)"

definition kid_sum :: "(nat \<times> cnode) list \<Rightarrow> int" where
  "kid_sum kids = fold (\<lambda>(w, nd) s. wrap32 (s + cn_count nd)) kids 0"

fun walk :: "nat list \<Rightarrow> cnode \<Rightarrow> (nat list \<times> int) list"
  and walk_kids :: "nat list \<Rightarrow> (nat \<times> cnode) list \<Rightarrow> (nat list \<times> int) list" where
  \<comment> \<open>the calls of \<open>insertReversed\<close> that \<open>walk\<close> makes\<close>
  "walk path (Cnode c kids) =
     walk_kids path kids @
     (let excess = wrap32 (c - kid_sum kids) in if 0 < excess then [(path, excess)] else [])"
| "walk_kids path [] = []"
| "walk_kids path ((w, nd) # kids) = walk (path @ [w]) nd @ walk_kids path kids"

definition derive_reverse :: "chain_map \<Rightarrow> chain_map \<Rightarrow> chain_map" where
  "derive_reverse rev_chains main =
     (if rev_chains \<noteq> [] \<or> main = [] then rev_chains
      else fold insert_reversed (concat (map (\<lambda>(i, nd). walk [i] nd) main)) rev_chains)"


section \<open>Reading a trie\<close>

lemma wrap32_id: "- (2 ^ 31) \<le> i \<Longrightarrow> i < 2 ^ 31 \<Longrightarrow> wrap32 i = i"
  by (simp add: wrap32_def)

fun nget :: "(string \<times> node) list \<Rightarrow> string list \<Rightarrow> int option" where
  \<comment> \<open>the count at a path of words\<close>
  "nget ch [] = None"
| "nget ch (w # ws) =
     (case map_of ch w of
        None \<Rightarrow> None
      | Some nd \<Rightarrow> if ws = [] then Some (nd_count nd) else nget (nd_children nd) ws)"

fun cget :: "chain_map \<Rightarrow> nat list \<Rightarrow> int option" where
  "cget dic [] = None"
| "cget dic (w # ws) =
     (case map_of dic w of
        None \<Rightarrow> None
      | Some nd \<Rightarrow> if ws = [] then Some (cn_count nd) else cget (cn_kids nd) ws)"

definition cnt :: "int option \<Rightarrow> int" where
  "cnt o' = (case o' of Some c \<Rightarrow> c | None \<Rightarrow> 0)"

lemma cnt_simps [simp]: "cnt None = 0" "cnt (Some c) = c"
  by (simp_all add: cnt_def)

lemma nget_Nil [simp]: "nget [] p = None"
  by (cases p) simp_all

lemma cget_Nil [simp]: "cget [] p = None"
  by (cases p) simp_all

lemma nget_add_path:
  "nget (add_path win ch) p = (if p \<noteq> [] \<and> prefix p win then Some (cnt (nget ch p) + 1) else nget ch p)"
proof (induction win arbitrary: ch p)
  case Nil
  then show ?case by simp
next
  case (Cons w ws)
  show ?case
  proof (cases p)
    case Nil
    then show ?thesis by simp
  next
    case (Cons x q)
    then show ?thesis by (cases "q = []") (auto simp: Cons.IH Let_def split: option.split)
  qed
qed

text \<open>The kids of a node are sorted by word id, without duplicates.\<close>

primrec sorted_node :: "cnode \<Rightarrow> bool" where
  "sorted_node (Cnode c kids) =
     (sorted_wrt (<) (map fst kids) \<and> list_all snd (map (map_prod id sorted_node) kids))"

definition sorted_kids :: "(nat \<times> cnode) list \<Rightarrow> bool" where
  "sorted_kids kids = (sorted_wrt (<) (map fst kids) \<and> (\<forall>e \<in> set kids. sorted_node (snd e)))"

definition good_map :: "chain_map \<Rightarrow> bool" where
  "good_map dic = (wf_map dic \<and> (\<forall>e \<in> set dic. sorted_node (snd e)))"

lemma sorted_node_iff: "sorted_node nd = sorted_kids (cn_kids nd)"
  by (cases nd) (auto simp: sorted_kids_def list_all_iff)

lemma sorted_kids_good: "sorted_kids kids \<Longrightarrow> good_map kids"
  by (simp add: sorted_kids_def good_map_def strict_sorted_iff)

lemma bs_loop_spec:
  assumes "i \<le> j" and "j \<le> length xs" and "sorted_wrt (<) (map fst xs)"
    and "\<forall>k < i. fst (xs ! k) < t" and "\<forall>k. j \<le> k \<and> k < length xs \<longrightarrow> t \<le> fst (xs ! k)"
  shows "bs_loop xs t i j \<le> length xs \<and> (\<forall>k < bs_loop xs t i j. fst (xs ! k) < t) \<and>
    (\<forall>k. bs_loop xs t i j \<le> k \<and> k < length xs \<longrightarrow> t \<le> fst (xs ! k))"
  using assms
proof (induction xs t i j rule: bs_loop.induct)
  case (1 xs t i j)
  show ?case
  proof (cases "i < j")
    case False
    then have "bs_loop xs t i j = i" by (subst bs_loop.simps) simp
    then show ?thesis using "1.prems" False by simp
  next
    case True
    let ?h = "(i + j) div 2"
    have h: "i \<le> ?h" "?h < j" using True by auto
    have mono: "fst (xs ! a) < fst (xs ! b)" if "a < b" "b < length xs" for a b
      using that "1.prems"(3) by (simp add: sorted_wrt_iff_nth_less)
    show ?thesis
    proof (cases "fst (xs ! ?h) < t")
      case A: True
      have "\<forall>k < ?h + 1. fst (xs ! k) < t"
      proof (intro allI impI)
        fix k assume "k < ?h + 1"
        then show "fst (xs ! k) < t" using A mono [of k ?h] h "1.prems"(2) by (cases "k = ?h") auto
      qed
      then have "bs_loop xs t (?h + 1) j \<le> length xs \<and> (\<forall>k < bs_loop xs t (?h + 1) j. fst (xs ! k) < t) \<and>
        (\<forall>k. bs_loop xs t (?h + 1) j \<le> k \<and> k < length xs \<longrightarrow> t \<le> fst (xs ! k))"
        using "1.IH"(1) [OF True refl A _ "1.prems"(2,3) _ "1.prems"(5)] h(2) by fastforce
      moreover have "bs_loop xs t i j = bs_loop xs t (?h + 1) j"
        using True A by (subst bs_loop.simps) (simp add: Let_def)
      ultimately show ?thesis by simp
    next
      case A: False
      have "\<forall>k. ?h \<le> k \<and> k < length xs \<longrightarrow> t \<le> fst (xs ! k)"
      proof (intro allI impI)
        fix k assume "?h \<le> k \<and> k < length xs"
        then show "t \<le> fst (xs ! k)" using A mono [of ?h k] by (cases "k = ?h") auto
      qed
      then have "bs_loop xs t i ?h \<le> length xs \<and> (\<forall>k < bs_loop xs t i ?h. fst (xs ! k) < t) \<and>
        (\<forall>k. bs_loop xs t i ?h \<le> k \<and> k < length xs \<longrightarrow> t \<le> fst (xs ! k))"
        using "1.IH"(2) [OF True refl A h(1) _ "1.prems"(3,4)] "1.prems"(2) h(2) by fastforce
      moreover have "bs_loop xs t i j = bs_loop xs t i ?h"
        using True A by (subst bs_loop.simps) (simp add: Let_def)
      ultimately show ?thesis by simp
    qed
  qed
qed

lemma bsearch_split:
  assumes "sorted_wrt (<) (map fst (xs :: (nat \<times> 'a) list))"
  obtains A B where "xs = A @ B" and "bsearch xs t = (length A, B \<noteq> [] \<and> fst (hd B) = t)"
    and "\<forall>e \<in> set A. fst e < t" and "\<forall>e \<in> set B. t \<le> fst e"
proof -
  let ?i = "bs_loop xs t 0 (length xs)"
  have i: "?i \<le> length xs" "\<forall>k < ?i. fst (xs ! k) < t" "\<forall>k. ?i \<le> k \<and> k < length xs \<longrightarrow> t \<le> fst (xs ! k)"
    using bs_loop_spec [of 0 "length xs" xs t] assms by simp_all
  show ?thesis
  proof (rule that [of "take ?i xs" "drop ?i xs"])
    show "bsearch xs t = (length (take ?i xs), drop ?i xs \<noteq> [] \<and> fst (hd (drop ?i xs)) = t)"
      using i(1) by (auto simp: bsearch_def Let_def hd_drop_conv_nth)
    show "\<forall>e \<in> set (take ?i xs). fst e < t"
    proof
      fix e assume "e \<in> set (take ?i xs)"
      then obtain k where "k < ?i" "e = xs ! k" by (auto simp: in_set_conv_nth)
      then show "fst e < t" using i(2) by blast
    qed
    show "\<forall>e \<in> set (drop ?i xs). t \<le> fst e"
    proof
      fix e assume "e \<in> set (drop ?i xs)"
      then obtain k where k: "k < length xs - ?i" "e = xs ! (?i + k)" using i(1) by (auto simp: in_set_conv_nth)
      then have "?i + k < length xs" by linarith
      then show "t \<le> fst e" using i(3) k(2) by simp
    qed
  qed simp
qed

lemma child_map: "sorted_node nd \<Longrightarrow> child w nd = map_of (cn_kids nd) w"
proof -
  assume "sorted_node nd"
  then have s: "sorted_wrt (<) (map fst (cn_kids nd))" by (cases nd) simp
  obtain A B where k: "cn_kids nd = A @ B" and b: "bsearch (cn_kids nd) w = (length A, B \<noteq> [] \<and> fst (hd B) = w)"
    and A: "\<forall>e \<in> set A. fst e < w" and B: "\<forall>e \<in> set B. w \<le> fst e"
    by (rule bsearch_split [OF s])
  have a: "map_of A w = None" using A by (auto simp: map_of_eq_None_iff)
  show ?thesis
  proof (cases B)
    case Nil
    then show ?thesis using b k a by (simp add: child_def map_add_def)
  next
    case (Cons e es)
    have "map_of es w = None" if "fst e \<noteq> w"
      using B s k Cons that by (force simp: map_of_eq_None_iff sorted_wrt_append)
    then show ?thesis using b k a Cons by (cases e) (auto simp: child_def map_add_def)
  qed
qed

definition kid_or_new :: "nat \<Rightarrow> chain_map \<Rightarrow> cnode" where
  "kid_or_new w dic = (case map_of dic w of Some nd \<Rightarrow> nd | None \<Rightarrow> Cnode 0 [])"

lemma ensure_shape:
  assumes "sorted_kids kids"
  obtains A B where "ensure_child w f kids = A @ (w, f (kid_or_new w kids)) # B"
    and "\<forall>e \<in> set A. fst e < w" and "\<forall>e \<in> set B. w < fst e" and "set A \<union> set B \<subseteq> set kids"
    and "sorted_wrt (<) (map fst A)" and "sorted_wrt (<) (map fst B)"
    and "\<forall>w'. w' \<noteq> w \<longrightarrow> map_of kids w' = (map_of B ++ map_of A) w'"
proof -
  have s: "sorted_wrt (<) (map fst kids)" using assms by (simp add: sorted_kids_def)
  obtain A B where k: "kids = A @ B" and b: "bsearch kids w = (length A, B \<noteq> [] \<and> fst (hd B) = w)"
    and A: "\<forall>e \<in> set A. fst e < w" and B: "\<forall>e \<in> set B. w \<le> fst e"
    by (rule bsearch_split [OF s])
  have a: "map_of A w = None" using A by (auto simp: map_of_eq_None_iff)
  have sA: "sorted_wrt (<) (map fst A)" "sorted_wrt (<) (map fst B)" using s k by (simp_all add: sorted_wrt_append)
  show ?thesis
  proof (cases "B \<noteq> [] \<and> fst (hd B) = w")
    case True
    then obtain n es where B': "B = (w, n) # es" by (cases B) auto
    then have "ensure_child w f kids = A @ (w, f (kid_or_new w kids)) # es"
      using b k a by (simp add: ensure_child_def kid_or_new_def map_add_def list_update_append)
    moreover have "\<forall>w'. w' \<noteq> w \<longrightarrow> map_of kids w' = (map_of es ++ map_of A) w'"
      using k B' by (auto simp: map_add_def split: option.split)
    ultimately show ?thesis using that [of A es] A B' sA k by auto
  next
    case False
    then have gt: "\<forall>e \<in> set B. w < fst e"
      using B sA(2) by (cases B) force+
    then have "map_of B w = None" by (auto simp: map_of_eq_None_iff)
    then have "ensure_child w f kids = A @ (w, f (kid_or_new w kids)) # B"
      using b k a False by (simp add: ensure_child_def kid_or_new_def map_add_def)
    then show ?thesis using that [of A B] A gt sA k by auto
  qed
qed

lemma ensure_map:
  assumes "sorted_kids kids"
  shows "map_of (ensure_child w f kids) w' = (if w' = w then Some (f (kid_or_new w kids)) else map_of kids w')"
proof -
  obtain A B where e: "ensure_child w f kids = A @ (w, f (kid_or_new w kids)) # B"
    and A: "\<forall>e \<in> set A. fst e < w" and m: "\<forall>w'. w' \<noteq> w \<longrightarrow> map_of kids w' = (map_of B ++ map_of A) w'"
    by (rule ensure_shape [OF assms])
  have "map_of A w = None" using A by (auto simp: map_of_eq_None_iff)
  then show ?thesis using m by (auto simp: e map_add_def split: option.splits)
qed

lemma kid_or_new_sorted: "\<forall>e \<in> set kids. sorted_node (snd e) \<Longrightarrow> sorted_node (kid_or_new w kids)"
  by (force simp: kid_or_new_def dest: map_of_SomeD split: option.split)

lemma ensure_sorted:
  assumes "sorted_kids kids" and "\<And>nd. sorted_node nd \<Longrightarrow> sorted_node (f nd)"
  shows "sorted_kids (ensure_child w f kids)"
proof -
  obtain A B where e: "ensure_child w f kids = A @ (w, f (kid_or_new w kids)) # B"
    and "\<forall>e \<in> set A. fst e < w" "\<forall>e \<in> set B. w < fst e" and sub: "set A \<union> set B \<subseteq> set kids"
    and "sorted_wrt (<) (map fst A)" and "sorted_wrt (<) (map fst B)"
    by (rule ensure_shape [OF assms(1)])
  moreover have "sorted_node (f (kid_or_new w kids))"
    using assms kid_or_new_sorted [of kids w] by (simp add: sorted_kids_def)
  ultimately show ?thesis
    using assms(1) by (force simp: sorted_kids_def sorted_wrt_append)
qed

lemma bump_simps [simp]:
  "cn_kids (bump k nd) = cn_kids nd" "cn_count (bump k nd) = wrap32 (cn_count nd + k)"
  "sorted_node (bump k nd) = sorted_node nd"
  by (simp_all add: bump_def sorted_node_iff)

lemma bump_path_count [simp]: "cn_count (bump_path k ws nd) = cn_count nd"
  by (cases ws) simp_all

lemma bump_path_sorted: "sorted_node nd \<Longrightarrow> sorted_node (bump_path k ws nd)"
proof (induction ws arbitrary: nd)
  case (Cons w ws)
  then show ?case
    using ensure_sorted [of "cn_kids nd" "\<lambda>ch. bump_path k ws (bump k ch)" w] by (simp add: sorted_node_iff)
qed simp

lemma cget_bump_path:
  assumes "sorted_node nd"
  shows "cget (cn_kids (bump_path k ws nd)) p =
    (if p \<noteq> [] \<and> prefix p ws then Some (wrap32 (cnt (cget (cn_kids nd) p) + k)) else cget (cn_kids nd) p)"
  using assms
proof (induction ws arbitrary: nd p)
  case Nil
  then show ?case by simp
next
  case (Cons w ws)
  have s: "sorted_kids (cn_kids nd)" using Cons.prems by (simp add: sorted_node_iff)
  let ?ch = "kid_or_new w (cn_kids nd)"
  have ch: "sorted_node (bump k ?ch)"
    using kid_or_new_sorted [of "cn_kids nd" w] s by (simp add: sorted_kids_def)
  show ?case
  proof (cases p)
    case Nil
    then show ?thesis by simp
  next
    case (Cons x q)
    then show ?thesis
      using Cons.IH [OF ch, of q] s
      by (cases "q = []") (auto simp: ensure_map kid_or_new_def split: option.splits)
  qed
qed

lemma cget_top_path:
  assumes "good_map dic"
  shows "cget (top_path k ids dic) p =
    (if p \<noteq> [] \<and> prefix p ids then Some (wrap32 (cnt (cget dic p) + k)) else cget dic p)"
proof (cases ids)
  case Nil
  then show ?thesis by simp
next
  case (Cons w ws)
  have ch: "sorted_node (bump k (kid_or_new w dic))"
    using kid_or_new_sorted [of dic w] assms by (simp add: good_map_def)
  show ?thesis
  proof (cases p)
    case Nil
    then show ?thesis by simp
  next
    case p: (Cons x q)
    then show ?thesis
      using cget_bump_path [OF ch, of k ws q] Cons
      by (cases "q = []") (auto simp: kid_or_new_def split: option.splits)
  qed
qed

lemma good_top_path:
  assumes "good_map dic"
  shows "good_map (top_path k ids dic)"
proof (cases ids)
  case (Cons w ws)
  have "sorted_node (bump_path k ws (bump k (kid_or_new w dic)))"
    using bump_path_sorted kid_or_new_sorted [of dic w] assms by (simp add: good_map_def)
  then show ?thesis
    using Cons assms update_all [of dic "\<lambda>e. sorted_node (snd e)"] by (simp add: good_map_def kid_or_new_def)
qed (use assms in simp)


section \<open>A trie is the multiset of its windows\<close>

text \<open>An entry is a path and how often it was inserted.\<close>

definition tally :: "('a list \<times> int) list \<Rightarrow> ('a list \<Rightarrow> bool) \<Rightarrow> int" where
  "tally es P = sum_list (map (\<lambda>(q, k). if P q then k else 0) es)"

lemma tally_simps [simp]:
  "tally [] P = 0" "tally ((q, k) # es) P = (if P q then k else 0) + tally es P"
  "tally (es @ es') P = tally es P + tally es' P"
  by (simp_all add: tally_def)

lemma tally_rev [simp]: "tally (rev es) P = tally es P"
  by (induction es) auto

lemma tally_none [simp]: "tally es (\<lambda>q. False) = 0"
  by (induction es) auto

lemma tally_map: "tally (map (\<lambda>(q, k). (f q, k)) es) P = tally es (\<lambda>q. P (f q))"
  by (induction es) auto

definition counted :: "('a list \<times> int) list \<Rightarrow> bool" where
  "counted es = ((\<forall>e \<in> set es. 0 < snd e) \<and> tally es (\<lambda>q. True) < 2 ^ 31)"

lemma tally_mono:
  "\<forall>e \<in> set es. 0 < snd e \<Longrightarrow> (\<And>q. P q \<Longrightarrow> Q q) \<Longrightarrow> 0 \<le> tally es P \<and> tally es P \<le> tally es Q"
  by (induction es) auto

lemma tally_0:
  "\<forall>e \<in> set es. 0 < snd e \<Longrightarrow> tally es P = 0 \<longleftrightarrow> (\<forall>e \<in> set es. \<not> P (fst e))"
proof (induction es)
  case (Cons e es)
  then show ?case using tally_mono [of es P P] by (cases e) auto
qed simp

definition count_of :: "('a list \<times> int) list \<Rightarrow> 'a list \<Rightarrow> int option" where
  "count_of es p = (if p = [] \<or> tally es (prefix p) = 0 then None else Some (tally es (prefix p)))"

definition insert_all :: "(nat list \<times> int) list \<Rightarrow> chain_map" where
  "insert_all es = fold (\<lambda>(q, k). top_path k q) es []"

lemma cnt_count_of: "p \<noteq> [] \<Longrightarrow> cnt (count_of es p) = tally es (prefix p)"
  by (simp add: count_of_def)

lemma insert_all_counts:
  assumes "counted es"
  shows "good_map (insert_all es) \<and> (\<forall>p. cget (insert_all es) p = count_of es p)"
  using assms
proof (induction es rule: rev_induct)
  case Nil
  then show ?case by (simp add: insert_all_def good_map_def count_of_def)
next
  case (snoc e es)
  obtain q k where e: "e = (q, k)" by fastforce
  have pos: "\<forall>e \<in> set es. 0 < snd e" "0 < k" and lim: "tally es (\<lambda>q. True) + k < 2 ^ 31"
    using snoc.prems by (auto simp: counted_def e)
  then have ih: "good_map (insert_all es)" "\<And>p. cget (insert_all es) p = count_of es p"
    using snoc.IH by (auto simp: counted_def)
  have i: "insert_all (es @ [e]) = top_path k q (insert_all es)" by (simp add: insert_all_def e)
  have "cget (insert_all (es @ [e])) p = count_of (es @ [e]) p" for p
  proof (cases "p \<noteq> [] \<and> prefix p q")
    case True
    have t: "0 \<le> tally es (prefix p)" "tally es (prefix p) \<le> tally es (\<lambda>q. True)"
      using tally_mono [OF pos(1), of "prefix p" "\<lambda>q. True"] by auto
    then have "wrap32 (tally es (prefix p) + k) = tally es (prefix p) + k"
      using lim pos(2) by (intro wrap32_id) linarith+
    then show ?thesis
      using True t pos(2) unfolding i cget_top_path [OF ih(1)] ih(2) cnt_count_of [OF conjunct1 [OF True]]
      by (simp add: count_of_def e)
  next
    case False
    then show ?thesis unfolding i cget_top_path [OF ih(1)] ih(2) by (auto simp: count_of_def e)
  qed
  then show ?case using good_top_path [OF ih(1)] by (simp add: i)
qed

lemma wrap32_wrap32: "wrap32 (wrap32 a + b) = wrap32 (a + b)" "wrap32 (a - wrap32 b) = wrap32 (a - b)"
proof -
  have "(a + 2 ^ 31) mod 2 ^ 32 - 2 ^ 31 + b + 2 ^ 31 = (a + 2 ^ 31) mod 2 ^ 32 + b" for a b :: int by simp
  then show "wrap32 (wrap32 a + b) = wrap32 (a + b)"
    unfolding wrap32_def by (simp add: mod_add_left_eq mod_add_right_eq ac_simps)
  have "(a - ((b + 2 ^ 31) mod 2 ^ 32 - 2 ^ 31) + 2 ^ 31) mod 2 ^ 32 = (a + 2 ^ 32 - (b + 2 ^ 31)) mod 2 ^ 32"
    using mod_diff_right_eq [of "a + 2 ^ 32" "b + 2 ^ 31" "2 ^ 32"] by (simp add: algebra_simps)
  then show "wrap32 (a - wrap32 b) = wrap32 (a - b)" by (simp add: wrap32_def algebra_simps)
qed

lemma kid_sum_wrap: "kid_sum kids = wrap32 (sum_list (map (cn_count \<circ> snd) kids))"
proof -
  have "fold (\<lambda>(w, nd) s. wrap32 (s + cn_count nd)) kids (wrap32 a) =
      wrap32 (a + sum_list (map (cn_count \<circ> snd) kids))" for a
    by (induction kids arbitrary: a) (auto simp: wrap32_wrap32 add.assoc)
  from this [of 0] show ?thesis by (simp add: kid_sum_def wrap32_def)
qed


lemma sum_list_pick: "distinct ws \<Longrightarrow> sum_list (map (\<lambda>w. if w = w0 then k else 0) ws) = (if w0 \<in> set ws then k else (0 :: int))"
  by (induction ws) auto

lemma tally_split:
  assumes "distinct ws"
    and "\<forall>e \<in> set es. prefix pth (fst e) \<and> fst e \<noteq> pth \<longrightarrow> (\<exists>w \<in> set ws. prefix (pth @ [w]) (fst e))"
  shows "tally es (\<lambda>q. prefix pth q \<and> P q) =
    tally es (\<lambda>q. q = pth \<and> P q) + sum_list (map (\<lambda>w. tally es (\<lambda>q. prefix (pth @ [w]) q \<and> P q)) ws)"
  using assms(2)
proof (induction es)
  case Nil
  then show ?case by simp
next
  case (Cons e es)
  obtain q k where e: "e = (q, k)" by fastforce
  have one: "sum_list (map (\<lambda>w. if prefix (pth @ [w]) q \<and> P q then k else 0) ws) =
      (if prefix pth q \<and> q \<noteq> pth \<and> P q then k else 0)"
  proof (cases "prefix pth q \<and> q \<noteq> pth")
    case True
    then obtain w0 r where q: "q = pth @ w0 # r"
      by (metis append_Nil2 neq_Nil_conv prefixE)
    have "w0 \<in> set ws" using Cons.prems True by (auto simp: e q)
    moreover have "prefix (pth @ [w]) q \<longleftrightarrow> w = w0" for w by (auto simp: q)
    ultimately show ?thesis using True sum_list_pick [OF assms(1), of w0 k] by (cases "P q") simp_all
  next
    case False
    then have "\<not> prefix (pth @ [w]) q" for w by (auto simp: prefix_def)
    moreover have "\<not> (prefix pth q \<and> q \<noteq> pth \<and> P q)" using False by blast
    ultimately show ?thesis by auto
  qed
  show ?case using Cons one by (auto simp: e sum_list_addf)
qed

definition stands :: "(nat list \<times> int) list \<Rightarrow> nat list \<Rightarrow> cnode \<Rightarrow> bool" where
  \<comment> \<open>the node at a path counts the entries\<close>
  "stands es pth nd =
     (sorted_node nd \<and> cn_count nd = tally es (prefix pth) \<and>
      (\<forall>p. p \<noteq> [] \<longrightarrow> cget (cn_kids nd) p = count_of es (pth @ p)))"

lemma kid_stands:
  assumes "good_map kids" and "\<And>p. p \<noteq> [] \<Longrightarrow> cget kids p = count_of es (pth @ p)" and "(w, nd) \<in> set kids"
  shows "stands es (pth @ [w]) nd"
proof -
  have m: "map_of kids w = Some nd" using assms(1,3) by (simp add: good_map_def)
  have "Some (cn_count nd) = count_of es (pth @ [w])" using assms(2) [of "[w]"] m by simp
  then have c: "cn_count nd = tally es (prefix (pth @ [w]))" by (simp add: count_of_def split: if_splits)
  moreover have "cget (cn_kids nd) p = count_of es ((pth @ [w]) @ p)" if "p \<noteq> []" for p
    using assms(2) [of "w # p"] m that by simp
  moreover have "sorted_node nd" using assms(1,3) by (force simp: good_map_def)
  ultimately show ?thesis unfolding stands_def by blast
qed

lemma kids_cover:
  assumes "counted es" and "\<And>p. p \<noteq> [] \<Longrightarrow> cget kids p = count_of es (pth @ p)"
  shows "\<forall>e \<in> set es. prefix pth (fst e) \<and> fst e \<noteq> pth \<longrightarrow>
    (\<exists>w \<in> set (map fst kids). prefix (pth @ [w]) (fst e))"
proof (intro ballI impI)
  fix e assume e: "e \<in> set es" "prefix pth (fst e) \<and> fst e \<noteq> pth"
  then obtain w r where q: "fst e = pth @ w # r" by (metis append_Nil2 neq_Nil_conv prefixE)
  have "\<forall>e \<in> set es. 0 < snd e" using assms(1) by (simp add: counted_def)
  then have "tally es (prefix (pth @ [w])) \<noteq> 0" using tally_0 e(1) q by fastforce
  then have "cget kids [w] \<noteq> None" using assms(2) [of "[w]"] by (simp add: count_of_def)
  then have "w \<in> set (map fst kids)" by (auto split: option.splits dest: map_of_SomeD intro: rev_image_eqI)
  then show "\<exists>w \<in> set (map fst kids). prefix (pth @ [w]) (fst e)" using q by auto
qed

lemma walk_tally:
  assumes "counted es"
  shows "stands es pth nd \<Longrightarrow>
      (\<forall>e \<in> set (walk pth nd). 0 < snd e) \<and> tally (walk pth nd) P = tally es (\<lambda>q. prefix pth q \<and> P q)"
    and "(\<forall>e \<in> set kids. stands es (pth @ [fst e]) (snd e)) \<Longrightarrow>
      (\<forall>e \<in> set (walk_kids pth kids). 0 < snd e) \<and>
      tally (walk_kids pth kids) P = sum_list (map (\<lambda>w. tally es (\<lambda>q. prefix (pth @ [w]) q \<and> P q)) (map fst kids))"
proof (induction pth nd and pth kids rule: walk_walk_kids.induct)
  case (1 pth c kids)
  have sk: "sorted_kids kids" "good_map kids" and c: "c = tally es (prefix pth)"
    and ck: "\<And>p. p \<noteq> [] \<Longrightarrow> cget kids p = count_of es (pth @ p)"
    using 1(2) sorted_node_iff [of "Cnode c kids"] sorted_kids_good by (auto simp: stands_def)
  have st: "\<forall>e \<in> set kids. stands es (pth @ [fst e]) (snd e)"
    using kid_stands [OF sk(2) ck] by auto
  note IH = 1(1) [OF st]
  have d: "distinct (map fst kids)" using sk(2) by (simp add: good_map_def)
  note split = tally_split [OF d kids_cover [OF assms ck]]
  let ?here = "tally es (\<lambda>q. q = pth)"
  have "map (cn_count \<circ> snd) kids = map (\<lambda>w. tally es (prefix (pth @ [w]))) (map fst kids)"
    using st by (simp add: stands_def)
  then have "wrap32 (c - kid_sum kids) = wrap32 ?here"
    using split [of "\<lambda>q. True"] by (simp add: kid_sum_wrap wrap32_wrap32 c del: map_map)
  also have "\<dots> = ?here"
    using assms tally_mono [of es "\<lambda>q. q = pth" "\<lambda>q. True"] by (intro wrap32_id) (auto simp: counted_def)
  finally have w: "wrap32 (c - kid_sum kids) = ?here" .
  have h: "0 \<le> ?here" using assms tally_mono [of es "\<lambda>q. q = pth" "\<lambda>q. True"] by (auto simp: counted_def)
  have "tally es (\<lambda>q. q = pth \<and> P q) = (if P pth then ?here else 0)"
    by (cases "P pth") (simp_all cong: conj_cong)
  then show ?case using IH split [of P] h by (auto simp: w Let_def)
next
  case (2 pth)
  then show ?case by simp
next
  case (3 pth w nd kids)
  then show ?case by auto
qed


section \<open>The reverse dictionary is what learning backwards gives\<close>

definition reversed :: "('a list \<times> int) list \<Rightarrow> ('a list \<times> int) list" where
  "reversed es = map (\<lambda>(q, k). (rev q, k)) es"

lemma derive_counts:
  assumes "counted es" and "good_map dic" and "\<And>p. cget dic p = count_of es p" and "\<forall>e \<in> set es. fst e \<noteq> []"
  shows "cget (derive_reverse [] dic) p = count_of (reversed es) p"
proof -
  let ?w = "walk_kids [] dic"
  have "stands es ([] @ [w]) nd" if "(w, nd) \<in> set dic" for w nd
    using kid_stands [OF assms(2), of es "[]" w nd] assms(3) that by simp
  then have st: "\<forall>e \<in> set dic. stands es ([] @ [fst e]) (snd e)" by auto
  note W = walk_tally(2) [OF assms(1) st]
  have d: "distinct (map fst dic)" using assms(2) by (simp add: good_map_def)
  have cover: "\<forall>e \<in> set es. prefix [] (fst e) \<and> fst e \<noteq> [] \<longrightarrow> (\<exists>w \<in> set (map fst dic). prefix ([] @ [w]) (fst e))"
    by (rule kids_cover [OF assms(1)]) (simp add: assms(3))
  have "tally es (\<lambda>q. q = [] \<and> P q) = 0" for P
    using assms(1,4) tally_0 [of es "\<lambda>q. q = [] \<and> P q"] by (auto simp: counted_def)
  then have t: "tally ?w P = tally es P" for P
    using W [of P] tally_split [OF d cover, of P] by simp
  have rw: "counted (reversed ?w)"
  proof -
    have "\<forall>e \<in> set ?w. 0 < snd e" using W [of "\<lambda>q. True"] by blast
    then show ?thesis
      using assms(1) t [of "\<lambda>q. True"] by (auto simp: counted_def reversed_def tally_map)
  qed
  have dr: "derive_reverse [] dic = insert_all (reversed ?w)"
  proof (cases "dic = []")
    case True
    then show ?thesis by (simp add: derive_reverse_def insert_all_def reversed_def)
  next
    case False
    have "concat (map (\<lambda>(i, nd). walk [i] nd) dic) = ?w"
      by (induction dic) auto
    then show ?thesis
      using False by (simp add: derive_reverse_def insert_all_def insert_reversed_def reversed_def fold_map
          comp_def case_prod_beta')
  qed
  show ?thesis
    using insert_all_counts [OF rw] by (simp add: dr count_of_def reversed_def tally_map t)
qed

definition once :: "'a list list \<Rightarrow> ('a list \<times> int) list" where
  "once ws = map (\<lambda>w. (w, 1)) ws"

lemma tally_once: "tally (once ws) P = int (length (filter P ws))"
  by (induction ws) (auto simp: once_def)

lemma counted_once: "counted (once ws) \<longleftrightarrow> int (length ws) < 2 ^ 31"
  by (auto simp: counted_def tally_once) (auto simp: once_def)

lemma slide_windows:
  "slide prev ts = map (\<lambda>i. take (length prev + 1) (drop i (prev @ ts))) [0..<length ts]"
proof (induction prev ts rule: slide.induct)
  case (1 prev)
  then show ?case by simp
next
  case (2 prev t ts)
  have l: "length (tl (prev @ [t])) = length prev" by simp
  have "slide (tl (prev @ [t])) ts = map (\<lambda>i. take (length prev + 1) (drop (Suc i) (prev @ t # ts))) [0..<length ts]"
    using 2 l by (cases prev) simp_all
  also have "\<dots> = map (\<lambda>i. take (length prev + 1) (drop i (prev @ t # ts))) [Suc 0..<Suc (length ts)]"
    by (simp add: map_Suc_upt [symmetric] comp_def del: upt_Suc map_Suc_upt)
  finally show ?case by (simp add: upt_conv_Cons del: upt_Suc)
qed

lemma windows_all:
  "windows order toks =
    (if toks = [] then [] else if length toks \<le> nat order then [toks]
     else map (\<lambda>i. take (nat order + 1) (drop i toks)) [0..<length toks - nat order])"
  by (auto simp: windows_def Let_def slide_windows min_def)

lemma windows_rev: "windows order (rev toks) = rev (map rev (windows order toks))"
proof (cases "length toks \<le> nat order")
  case True
  then show ?thesis by (simp add: windows_all)
next
  case False
  let ?n = "nat order"
  have "take (?n + 1) (drop i (rev toks)) = rev (take (?n + 1) (drop (length toks - ?n - 1 - i) toks))"
    if "i < length toks - ?n" for i
    using that by (intro nth_equalityI) (auto simp: rev_nth nth_append)
  then show ?thesis
    using False by (auto simp: windows_all intro!: nth_equalityI simp: rev_nth)
qed


section \<open>The table of words\<close>

definition in_ok :: "interner \<Rightarrow> bool" where
  "in_ok tab = (\<forall>w i. map_of (in_ids tab) w = Some i \<longleftrightarrow> i < length (in_strs tab) \<and> in_strs tab ! i = w)"

definition extends :: "interner \<Rightarrow> interner \<Rightarrow> bool" where
  "extends tab tab' = prefix (in_strs tab) (in_strs tab')"

lemma extends_refl [simp]: "extends tab tab"
  by (simp add: extends_def)

lemma extends_trans: "extends a b \<Longrightarrow> extends b c \<Longrightarrow> extends a c"
  unfolding extends_def by (rule prefix_order.trans)

lemma extends_str: "extends tab tab' \<Longrightarrow> i < length (in_strs tab) \<Longrightarrow>
    i < length (in_strs tab') \<and> in_strs tab' ! i = in_strs tab ! i"
  by (auto simp: extends_def prefix_def nth_append)

lemma in_okD: "in_ok tab \<Longrightarrow> i < length (in_strs tab) \<Longrightarrow> map_of (in_ids tab) (in_strs tab ! i) = Some i"
  by (simp add: in_ok_def)

lemma word_tab_ok: "in_ok word_tab"
  by (auto simp: in_ok_def word_tab_def intern_def tok_start_def tok_end_def less_Suc_eq nth_Cons')

lemma intern_spec:
  assumes "in_ok tab" and "intern w tab = (i, tab')"
  shows "in_ok tab' \<and> extends tab tab' \<and> map_of (in_ids tab') w = Some i"
proof (cases "map_of (in_ids tab) w")
  case (Some j)
  then show ?thesis using assms by (simp add: intern_def)
next
  case None
  let ?n = "length (in_strs tab)"
  have t: "tab' = \<lparr>in_ids = AList.update w ?n (in_ids tab), in_strs = in_strs tab @ [w]\<rparr>" "i = ?n"
    using assms(2) None by (auto simp: intern_def Let_def)
  have new: "\<not> (j < ?n \<and> in_strs tab ! j = w)" for j using assms(1) None unfolding in_ok_def by (metis option.distinct(1))
  have "in_ok tab'"
    unfolding in_ok_def t(1)
  proof (intro allI)
    fix u j
    show "map_of (in_ids \<lparr>in_ids = AList.update w ?n (in_ids tab), in_strs = in_strs tab @ [w]\<rparr>) u = Some j \<longleftrightarrow>
      j < length (in_strs \<lparr>in_ids = AList.update w ?n (in_ids tab), in_strs = in_strs tab @ [w]\<rparr>) \<and>
      in_strs \<lparr>in_ids = AList.update w ?n (in_ids tab), in_strs = in_strs tab @ [w]\<rparr> ! j = u"
      using assms(1) new [of j] by (cases "u = w") (auto simp: in_ok_def nth_append less_Suc_eq)
  qed
  then show ?thesis by (simp add: t extends_def)
qed

definition ids_of :: "interner \<Rightarrow> string list \<Rightarrow> nat list" where
  "ids_of tab ws = map (\<lambda>w. the (map_of (in_ids tab) w)) ws"

definition known :: "interner \<Rightarrow> string list \<Rightarrow> bool" where
  "known tab ws = (\<forall>w \<in> set ws. map_of (in_ids tab) w \<noteq> None)"

lemma extends_known:
  assumes "in_ok tab" and "in_ok tab'" and "extends tab tab'" and "map_of (in_ids tab) w = Some i"
  shows "map_of (in_ids tab') w = Some i"
  using assms extends_str [OF assms(3)] by (simp add: in_ok_def)

lemma intern_all_spec:
  assumes "in_ok tab" and "intern_all ws tab = (is, tab')"
  shows "in_ok tab' \<and> extends tab tab' \<and> map (map_of (in_ids tab')) ws = map Some is"
  using assms
proof (induction ws arbitrary: tab "is")
  case Nil
  then show ?case by simp
next
  case (Cons w ws)
  obtain i tab1 where i: "intern w tab = (i, tab1)" by fastforce
  obtain js where js: "intern_all ws tab1 = (js, tab')" "is = i # js"
    using Cons.prems(2) i by (auto split: prod.splits)
  note I = intern_spec [OF Cons.prems(1) i]
  note IH = Cons.IH [OF conjunct1 [OF I] js(1)]
  then show ?case using I js(2) extends_known [of tab1 tab' w i] extends_trans [of tab tab1 tab'] by simp
qed

lemma ids_of_all: "map (map_of (in_ids tab)) ws = map Some is \<Longrightarrow> is = ids_of tab ws \<and> known tab ws"
proof (induction ws arbitrary: "is")
  case (Cons w ws)
  then show ?case by (cases "is") (auto simp: ids_of_def known_def)
qed (simp add: ids_of_def known_def)

lemma ids_of_extends:
  assumes "in_ok tab" and "in_ok tab'" and "extends tab tab'" and "known tab ws"
  shows "ids_of tab' ws = ids_of tab ws \<and> known tab' ws"
  using assms(4) extends_known [OF assms(1-3)] by (fastforce simp: ids_of_def known_def)

lemma learn_window_first: "intern_all w tab = (js, tab1) \<Longrightarrow> learn_window w (tab, dic) = (tab1, top_path 1 js dic)"
  by (simp add: learn_window_def)

lemma learn_fold:
  assumes "in_ok tab"
  shows "\<exists>T. fold learn_window wins (tab, dic) = (T, fold (\<lambda>w. top_path 1 (ids_of T w)) wins dic) \<and>
    in_ok T \<and> extends tab T \<and> (\<forall>w \<in> set wins. known T w)"
  using assms
proof (induction wins arbitrary: tab dic)
  case Nil
  then show ?case by simp
next
  case (Cons w wins)
  obtain js tab1 where js: "intern_all w tab = (js, tab1)" by fastforce
  note I = intern_all_spec [OF Cons.prems js]
  then have k: "js = ids_of tab1 w" "known tab1 w" using ids_of_all by blast+
  obtain T where T: "fold learn_window wins (tab1, top_path 1 js dic) =
      (T, fold (\<lambda>w. top_path 1 (ids_of T w)) wins (top_path 1 js dic))"
    "in_ok T" "extends tab1 T" "\<forall>w \<in> set wins. known T w"
    using Cons.IH I by blast
  have "ids_of T w = js \<and> known T w" using ids_of_extends [of tab1 T w] I T k by simp
  then show ?case
    using T I js extends_trans [of tab tab1 T] by (intro exI [of _ T]) (simp add: learn_window_first)
qed

lemma ids_of_prefix:
  assumes "in_ok tab" and "known tab p" and "known tab q"
  shows "prefix (ids_of tab p) (ids_of tab q) = prefix p q"
  using assms(2,3)
proof (induction p arbitrary: q)
  case Nil
  then show ?case by (simp add: ids_of_def)
next
  case (Cons w p)
  show ?case
  proof (cases q)
    case Nil
    then show ?thesis by (simp add: ids_of_def)
  next
    case q: (Cons v r)
    obtain i j where m: "map_of (in_ids tab) w = Some i" "map_of (in_ids tab) v = Some j"
      using Cons.prems q by (auto simp: known_def)
    moreover have "(i = j) = (w = v)"
      using m assms(1) unfolding in_ok_def by (metis option.inject)
    ultimately show ?thesis using Cons q by (simp add: ids_of_def known_def)
  qed
qed

definition all_windows :: "int \<Rightarrow> string list list \<Rightarrow> string list list" where
  "all_windows order lines = concat (map (windows order) lines)"

definition learn_lines :: "int \<Rightarrow> string list list \<Rightarrow> interner \<times> chain_map \<Rightarrow> interner \<times> chain_map" where
  "learn_lines order lines st = fold (learn_tokens order) lines st"

lemma fold_concat_map: "fold (\<lambda>x. fold g (f x)) xs st = fold g (concat (map f xs)) st"
  by (induction xs arbitrary: st) simp_all

lemma learn_lines_windows: "learn_lines order lines st = fold learn_window (all_windows order lines) st"
  unfolding learn_lines_def all_windows_def learn_tokens_def [abs_def] by (rule fold_concat_map)

lemma window_facts: "w \<in> set (all_windows order lines) \<Longrightarrow> w \<noteq> [] \<and> length w \<le> nat order + 1"
  by (auto simp: all_windows_def windows_all split: if_splits)

lemma learned:
  assumes "in_ok tab" and "int (length (all_windows order lines)) < 2 ^ 31"
  obtains T dic where "learn_lines order lines (tab, []) = (T, dic)" and "in_ok T" and "extends tab T"
    and "\<forall>w \<in> set (all_windows order lines). known T w" and "good_map dic"
    and "\<forall>p. cget dic p = count_of (once (map (ids_of T) (all_windows order lines))) p"
    and "counted (once (map (ids_of T) (all_windows order lines)))"
proof -
  let ?ws = "all_windows order lines"
  obtain T where T: "fold learn_window ?ws (tab, []) = (T, fold (\<lambda>w. top_path 1 (ids_of T w)) ?ws [])"
    "in_ok T" "extends tab T" "\<forall>w \<in> set ?ws. known T w"
    using learn_fold [OF assms(1), of ?ws "[]"] by blast
  have c: "counted (once (map (ids_of T) ?ws))" using assms(2) by (simp add: counted_once)
  have "fold (\<lambda>w. top_path 1 (ids_of T w)) ?ws [] = insert_all (once (map (ids_of T) ?ws))"
    by (simp add: insert_all_def once_def fold_map comp_def)
  then show ?thesis
    using that [of T "insert_all (once (map (ids_of T) ?ws))"] T insert_all_counts [OF c] c
    by (simp add: learn_lines_windows)
qed

lemma ids_of_rev: "ids_of T (rev w) = rev (ids_of T w)"
  by (simp add: ids_of_def rev_map)

lemma known_rev: "known T (rev w) = known T w"
  by (simp add: known_def)

lemma all_windows_rev:
  "length (filter P (all_windows order (map rev lines))) = length (filter (P \<circ> rev) (all_windows order lines))"
  by (induction lines) (simp_all add: all_windows_def windows_rev filter_map rev_filter [symmetric] comp_def)

lemma all_windows_known:
  "(\<forall>w \<in> set (all_windows order lines). known T w) \<Longrightarrow> w \<in> set (all_windows order (map rev lines)) \<Longrightarrow> known T w"
  by (fastforce simp: all_windows_def windows_rev known_rev)

text \<open>
  The reverse dictionary derived once from the forward one is the one that learning every line
  backwards would have built: every path of words has the same count, and neither has a path the other
  has not. (The bound is the one of the 32-bit counters.)
\<close>

theorem derived_is_learned:
  assumes "in_ok tab" and "int (length (all_windows order lines)) < 2 ^ 31"
  shows "case learn_lines order lines (tab, []) of (T, dic) \<Rightarrow>
    (case learn_lines order (map rev lines) (T, []) of (T', rdic) \<Rightarrow>
       \<forall>p. cget (derive_reverse [] dic) p = cget rdic p)"
proof -
  let ?ws = "all_windows order lines" and ?rs = "all_windows order (map rev lines)"
  obtain T dic where l: "learn_lines order lines (tab, []) = (T, dic)" "in_ok T" "extends tab T"
    and k: "\<forall>w \<in> set ?ws. known T w" and good: "good_map dic" and g: "\<forall>p. cget dic p = count_of (once (map (ids_of T) ?ws)) p"
    and c: "counted (once (map (ids_of T) ?ws))"
    by (rule learned [OF assms])
  have "length ?rs = length ?ws" using all_windows_rev [of "\<lambda>w. True" order lines] by simp
  then have lim: "int (length ?rs) < 2 ^ 31" using assms(2) by simp
  obtain T' rdic where r: "learn_lines order (map rev lines) (T, []) = (T', rdic)" "in_ok T'" "extends T T'"
    and "\<forall>w \<in> set ?rs. known T' w" and "good_map rdic"
    and rg: "\<forall>p. cget rdic p = count_of (once (map (ids_of T') ?rs)) p"
    and "counted (once (map (ids_of T') ?rs))"
    by (rule learned [OF l(2) lim])
  have ids: "ids_of T' w = ids_of T w" if "w \<in> set ?rs" for w
    using ids_of_extends [OF l(2) r(2,3)] all_windows_known [OF k that] by blast
  have e: "map (ids_of T') ?rs = map (ids_of T) ?rs" by (simp add: ids)
  have ne: "\<forall>e \<in> set (once (map (ids_of T) ?ws)). fst e \<noteq> []"
    using window_facts [of _ order lines] by (auto simp: once_def ids_of_def)
  have "tally (reversed (once (map (ids_of T) ?ws))) P = tally (once (map (ids_of T') ?rs)) P" for P
    using all_windows_rev [of "P \<circ> ids_of T" order lines] unfolding e reversed_def tally_map tally_once
    by (simp add: filter_map comp_def ids_of_rev)
  then have "cget (derive_reverse [] dic) p = cget rdic p" for p
    unfolding derive_counts [OF c good spec [OF g] ne] spec [OF rg] by (simp add: count_of_def)
  then show ?thesis by (simp add: l(1) r(1))
qed

definition demo_talk :: "string list list" where
  "demo_talk = [[tok_start, ''ik'', ''ga'', ''weg'', tok_end], [tok_start, ''ga'', tok_end]]"

lemma derived_is_learned_witness:
  "case learn_lines 2 demo_talk (word_tab, []) of (T, dic) \<Rightarrow>
    (case learn_lines 2 (map rev demo_talk) (T, []) of (T', rdic) \<Rightarrow>
       \<forall>p. cget (derive_reverse [] dic) p = cget rdic p)"
  by (rule derived_is_learned [OF word_tab_ok]) (simp add: all_windows_def demo_talk_def windows_all)

section \<open>The compact learner and the stored shape\<close>

primrec below :: "nat \<Rightarrow> cnode \<Rightarrow> bool" where
  \<comment> \<open>every word id of the subtree is in the table\<close>
  "below n (Cnode c kids) = list_all (\<lambda>(i, b). i < n \<and> b) (map (map_prod id (below n)) kids)"

definition below_all :: "nat \<Rightarrow> chain_map \<Rightarrow> bool" where
  "below_all n dic = (\<forall>e \<in> set dic. fst e < n \<and> below n (snd e))"

lemma below_iff: "below n nd = below_all n (cn_kids nd)"
  by (cases nd) (auto simp: below_all_def list_all_iff)

lemma map_of_from_kids:
  assumes "in_ok T" and "wf_map kids" and "\<forall>e \<in> set kids. fst e < length (in_strs T)"
  shows "map_of (from_kids T kids acc) w =
    (case map_of (in_ids T) w of
       None \<Rightarrow> map_of acc w
     | Some i \<Rightarrow> (case map_of kids i of Some nd \<Rightarrow> Some (from_compact T nd) | None \<Rightarrow> map_of acc w))"
  using assms(2,3)
proof (induction kids arbitrary: acc)
  case Nil
  then show ?case by (simp split: option.split)
next
  case (Cons e kids)
  obtain i nd where e: "e = (i, nd)" by fastforce
  have "map_of (in_ids T) w = Some j \<Longrightarrow> (w = in_strs T ! i) = (j = i)" for j
    using assms(1) Cons.prems(2) in_okD [OF assms(1), of i] unfolding in_ok_def
    by (metis e fst_conv list.set_intros(1) option.inject)
  moreover have "map_of (in_ids T) w = None \<Longrightarrow> w \<noteq> in_strs T ! i"
    using in_okD [OF assms(1), of i] Cons.prems(2) by (auto simp: e)
  moreover have "map_of kids i = None" using Cons.prems(1) by (simp add: e map_of_eq_None_iff)
  ultimately show ?case
    using Cons by (auto simp: e word_str_def split: option.splits)
qed

lemma nget_from_kids:
  assumes "in_ok T" and "good_map dic" and "below_all (length (in_strs T)) dic"
  shows "nget (from_kids T dic []) p = (if known T p then cget dic (ids_of T p) else None)"
  using assms(2,3)
proof (induction p arbitrary: dic)
  case Nil
  then show ?case by (simp add: ids_of_def)
next
  case (Cons w p)
  have m: "map_of (from_kids T dic []) w =
      (case map_of (in_ids T) w of None \<Rightarrow> None | Some i \<Rightarrow> map_option (from_compact T) (map_of dic i))"
    using map_of_from_kids [OF assms(1), of dic "[]" w] Cons.prems
    by (auto simp: good_map_def below_all_def split: option.splits)
  show ?case
  proof (cases "map_of (in_ids T) w")
    case None
    then show ?thesis using m by (simp add: known_def)
  next
    case i: (Some i)
    show ?thesis
    proof (cases "map_of dic i")
      case None
      then show ?thesis using m i by (simp add: ids_of_def)
    next
      case (Some nd)
      then have "(i, nd) \<in> set dic" by (rule map_of_SomeD)
      then have "good_map (cn_kids nd)" and "below_all (length (in_strs T)) (cn_kids nd)"
        using Cons.prems sorted_kids_good [of "cn_kids nd"] sorted_node_iff [of nd] below_iff [of _ nd]
        by (force simp: good_map_def below_all_def)+
      then have "nget (from_kids T (cn_kids nd) []) p = (if known T p then cget (cn_kids nd) (ids_of T p) else None)"
        by (rule Cons.IH)
      then show ?thesis using m i Some by (cases nd) (auto simp: ids_of_def known_def)
    qed
  qed
qed


lemma ensure_below:
  assumes "sorted_kids kids" and "below_all n kids" and "w < n" and "\<And>nd. sorted_node nd \<Longrightarrow> below n nd \<Longrightarrow> below n (f nd)"
  shows "below_all n (ensure_child w f kids)"
proof -
  obtain A B where e: "ensure_child w f kids = A @ (w, f (kid_or_new w kids)) # B"
    and "\<forall>e \<in> set A. fst e < w" and "\<forall>e \<in> set B. w < fst e" and sub: "set A \<union> set B \<subseteq> set kids"
    and "sorted_wrt (<) (map fst A)" and "sorted_wrt (<) (map fst B)"
    and "\<forall>w'. w' \<noteq> w \<longrightarrow> map_of kids w' = (map_of B ++ map_of A) w'"
    by (rule ensure_shape [OF assms(1)])
  have "below n (kid_or_new w kids)"
    using assms(2) by (force simp: kid_or_new_def below_all_def dest: map_of_SomeD split: option.split)
  then have "below n (f (kid_or_new w kids))"
    using assms(1,4) kid_or_new_sorted [of kids w] by (simp add: sorted_kids_def)
  then show ?thesis using sub assms(2,3) by (auto simp: below_all_def e)
qed

lemma bump_below [simp]: "below n (bump k nd) = below n nd"
  by (simp add: bump_def below_iff)

lemma bump_path_below:
  "sorted_node nd \<Longrightarrow> below n nd \<Longrightarrow> \<forall>w \<in> set ws. w < n \<Longrightarrow> below n (bump_path k ws nd)"
proof (induction ws arbitrary: nd)
  case (Cons w ws)
  have "below_all n (ensure_child w (\<lambda>ch. bump_path k ws (bump k ch)) (cn_kids nd))"
    using Cons.prems Cons.IH [of "bump k _"] sorted_node_iff [of nd] below_iff [of n nd]
    by (intro ensure_below) simp_all
  then show ?case by (simp add: below_iff)
qed simp

lemma top_path_below:
  assumes "good_map dic" and "below_all n dic" and "\<forall>w \<in> set ids. w < n"
  shows "below_all n (top_path k ids dic)"
proof (cases ids)
  case (Cons w ws)
  have "below n (kid_or_new w dic)"
    using assms(2) by (force simp: kid_or_new_def below_all_def dest: map_of_SomeD split: option.split)
  then have "below n (bump_path k ws (bump k (kid_or_new w dic)))"
    using bump_path_below [of "bump k (kid_or_new w dic)" n ws k] kid_or_new_sorted [of dic w] assms(1,3) Cons
    by (simp add: good_map_def)
  then have "\<forall>e \<in> set (AList.update w (bump_path k ws (bump k (kid_or_new w dic))) dic). fst e < n \<and> below n (snd e)"
    using assms(2,3) Cons by (intro update_all) (simp_all add: below_all_def)
  then show ?thesis using Cons by (simp add: below_all_def kid_or_new_def)
qed (use assms in simp)

lemma insert_all_below:
  assumes "\<forall>e \<in> set es. \<forall>w \<in> set (fst e). w < n"
  shows "good_map (insert_all es) \<and> below_all n (insert_all es)"
  using assms
proof (induction es rule: rev_induct)
  case Nil
  then show ?case by (simp add: insert_all_def good_map_def below_all_def)
next
  case (snoc e es)
  then have ih: "good_map (insert_all es) \<and> below_all n (insert_all es)" by simp
  have i: "insert_all (es @ [e]) = top_path (snd e) (fst e) (insert_all es)"
    by (simp add: insert_all_def case_prod_beta)
  have ids: "\<forall>w \<in> set (fst e). w < n" using snoc.prems by simp
  show ?case
    unfolding i using good_top_path [OF conjunct1 [OF ih]] top_path_below [OF conjunct1 [OF ih] conjunct2 [OF ih] ids]
    by blast
qed

lemma ids_below:
  assumes "in_ok T" and "known T w" and "i \<in> set (ids_of T w)"
  shows "i < length (in_strs T)"
proof -
  obtain u where u: "u \<in> set w" "i = the (map_of (in_ids T) u)" using assms(3) by (auto simp: ids_of_def)
  then have "map_of (in_ids T) u = Some i" using assms(2) by (fastforce simp: known_def)
  then show ?thesis using assms(1) unfolding in_ok_def by blast
qed

lemma nget_add_all: "nget (fold add_path ws []) p = count_of (once ws) p"
proof (induction ws rule: rev_induct)
  case Nil
  then show ?case by (simp add: once_def count_of_def)
next
  case (snoc w ws)
  have p: "0 \<le> tally (once ws) (prefix p)" by (simp add: tally_once)
  show ?case
  proof (cases "p \<noteq> [] \<and> prefix p w")
    case True
    then have "cnt (count_of (once ws) p) = tally (once ws) (prefix p)" by (simp add: cnt_count_of)
    then show ?thesis using True p snoc by (simp add: nget_add_path) (simp add: count_of_def once_def)
  next
    case False
    then show ?thesis using snoc by (auto simp: nget_add_path count_of_def once_def)
  qed
qed

lemma learn_line_windows:
  assumes "0 \<le> order"
  shows "fold (learn_line order) lines [] = fold add_path (all_windows order lines) []"
proof -
  have "add_words order w = add_path w" if "w \<in> set (all_windows order lines)" for w
    using window_facts [OF that] assms by (simp add: add_words_def [abs_def] nat_add_distrib)
  then have "fold (add_words order) (all_windows order lines) [] = fold add_path (all_windows order lines) []"
    by (intro fold_cong) simp_all
  moreover have "fold (learn_line order) lines [] = fold (add_words order) (all_windows order lines) []"
    unfolding learn_line_def [abs_def] all_windows_def by (rule fold_concat_map)
  ultimately show ?thesis by simp
qed

lemma stored_counts:
  assumes "in_ok T" and "\<forall>w \<in> set ws. known T w" and "int (length ws) < 2 ^ 31"
  shows "nget (from_kids T (insert_all (once (map (ids_of T) ws))) []) p = count_of (once ws) p"
    and "good_map (insert_all (once (map (ids_of T) ws)))"
    and "below_all (length (in_strs T)) (insert_all (once (map (ids_of T) ws)))"
proof -
  let ?es = "once (map (ids_of T) ws)"
  have "counted ?es" using assms(3) by (simp add: counted_once)
  then have g: "\<And>p. cget (insert_all ?es) p = count_of ?es p" using insert_all_counts by blast
  have "\<forall>e \<in> set ?es. \<forall>w \<in> set (fst e). w < length (in_strs T)"
    using assms(1,2) ids_below by (auto simp: once_def)
  then show b: "good_map (insert_all ?es)" "below_all (length (in_strs T)) (insert_all ?es)"
    using insert_all_below by blast+
  show "nget (from_kids T (insert_all ?es) []) p = count_of (once ws) p"
  proof (cases "known T p")
    case True
    have "length (filter (\<lambda>w. prefix (ids_of T p) (ids_of T w)) ws) = length (filter (prefix p) ws)"
      using ids_of_prefix [OF assms(1) True] assms(2) by (intro arg_cong [of _ _ length] filter_cong) simp_all
    then have "tally ?es (prefix (ids_of T p)) = tally (once ws) (prefix p)"
      by (simp add: tally_once filter_map comp_def)
    moreover have "ids_of T p = [] \<longleftrightarrow> p = []" by (simp add: ids_of_def)
    ultimately show ?thesis
      using True by (simp add: nget_from_kids [OF assms(1) b] g count_of_def)
  next
    case False
    then have "\<not> prefix p w" if "w \<in> set ws" for w
      using assms(2) that by (metis known_def set_mono_prefix subsetD)
    then have "filter (prefix p) ws = []" by (simp add: filter_empty_conv)
    then show ?thesis
      using False by (simp add: nget_from_kids [OF assms(1) b] count_of_def tally_once)
  qed
qed

text \<open>
  C14. The live module learns exactly what the bootstrap tool learns. After any lines, the compact
  dictionary converted to the stored shape has the same words at the same paths with the same counts as
  \<open>LearnLine\<close> on that shape, as long as the 32-bit counters of the live one do not overflow.
\<close>

theorem compact_learns:
  assumes "in_ok tab" and "0 \<le> order" and "int (length (all_windows order lines)) < 2 ^ 31"
  shows "case learn_lines order lines (tab, []) of (T, dic) \<Rightarrow>
    \<forall>p. nget (from_kids T dic []) p = nget (fold (learn_line order) lines []) p"
proof -
  obtain T where T: "learn_lines order lines (tab, []) =
      (T, insert_all (once (map (ids_of T) (all_windows order lines))))"
    "in_ok T" "\<forall>w \<in> set (all_windows order lines). known T w"
    using learn_fold [OF assms(1), of "all_windows order lines" "[]"]
    by (auto simp: learn_lines_windows insert_all_def once_def fold_map comp_def)
  show ?thesis
    using stored_counts(1) [OF T(2,3) assms(3)] by (simp add: T(1) learn_line_windows [OF assms(2)] nget_add_all)
qed

lemma compact_learns_witness:
  "case learn_lines 2 demo_talk (word_tab, []) of (T, dic) \<Rightarrow>
    \<forall>p. nget (from_kids T dic []) p = nget (fold (learn_line 2) demo_talk []) p"
  by (rule compact_learns [OF word_tab_ok]) (simp_all add: all_windows_def demo_talk_def windows_all)


section \<open>Loading and saving a subtree\<close>

primrec stored_ok :: "node \<Rightarrow> bool" where
  \<comment> \<open>a node as a JSON object gives it: no key twice, and counters that fit 32 bits\<close>
  "stored_ok (Node c ch) =
     (- (2 ^ 31) \<le> c \<and> c < 2 ^ 31 \<and> wf_map ch \<and> list_all snd (map (map_prod id stored_ok) ch))"

lemma sort_distinct: "wf_map kids \<Longrightarrow> distinct (map fst (sort_key fst kids))"
  by (metis distinct_map distinct_sort set_sort)

lemma sort_map_of: "wf_map kids \<Longrightarrow> map_of (sort_key fst kids) = map_of kids"
  using sort_distinct [of kids] by (intro map_of_inject_set [THEN iffD2]) auto

lemma sort_kids_facts:
  assumes "wf_map kids" and "\<forall>e \<in> set kids. sorted_node (snd e)"
  shows "sorted_kids (sort_key fst kids)"
proof -
  have d: "distinct (map fst (sort_key fst kids))" by (rule sort_distinct [OF assms(1)])
  have "sorted (map fst (sort_key fst kids))" by simp
  with d have "sorted_wrt (<) (map fst (sort_key fst kids))" by (simp add: strict_sorted_iff)
  then show ?thesis using assms(2) by (simp add: sorted_kids_def)
qed

lemma cget_cong: "map_of a = map_of b \<Longrightarrow> cget a p = cget b p"
  by (cases p) simp_all

lemma word_Cons:
  "known T (v # q) \<longleftrightarrow> map_of (in_ids T) v \<noteq> None \<and> known T q"
  "ids_of T (v # q) = the (map_of (in_ids T) v) # ids_of T q"
  "ids_of T q = [] \<longleftrightarrow> q = []" "known T []"
  by (auto simp: known_def ids_of_def)

definition same_at :: "interner \<Rightarrow> chain_map \<Rightarrow> (string \<times> node) list \<Rightarrow> bool" where
  \<comment> \<open>with any later table the two have the same counts\<close>
  "same_at T kids ch =
     (\<forall>T' p. in_ok T' \<and> extends T T' \<longrightarrow> (if known T' p then cget kids (ids_of T' p) else None) = nget ch p)"

lemma same_at_Cons:
  assumes "in_ok T" and "extends T1 T" and "in_ok T1" and "map_of (in_ids T1) w = Some i"
    and "cn_count nd = nd_count n" and "same_at T1 (cn_kids nd) (nd_children n)" and "same_at T kids ch"
    and "map_of ch w = None"
  shows "same_at T ((i, nd) # kids) ((w, n) # ch)"
  unfolding same_at_def
proof (intro allI impI)
  fix T' p assume T': "in_ok T' \<and> extends T T'"
  then have ex: "extends T1 T'" using assms(2) extends_trans by blast
  have w: "map_of (in_ids T') w = Some i"
    using extends_known [OF assms(3) _ ex assms(4)] T' by blast
  have nd: "(if known T' q then cget (cn_kids nd) (ids_of T' q) else None) = nget (nd_children n) q" for q
    using assms(6) T' ex unfolding same_at_def by blast
  have rest: "(if known T' q then cget kids (ids_of T' q) else None) = nget ch q" for q
    using assms(7) T' unfolding same_at_def by blast
  show "(if known T' p then cget ((i, nd) # kids) (ids_of T' p) else None) = nget ((w, n) # ch) p"
  proof (cases p)
    case Nil
    then show ?thesis by (simp add: ids_of_def)
  next
    case (Cons v q)
    show ?thesis
    proof (cases "v = w")
      case True
      then show ?thesis using nd [of q] w assms(5) Cons by (cases "known T' q") (auto simp: word_Cons)
    next
      case False
      have "the (map_of (in_ids T') v) \<noteq> i" if "map_of (in_ids T') v \<noteq> None"
        using that w False T' unfolding in_ok_def by fastforce
      then show ?thesis using rest [of p] Cons False by (auto simp: word_Cons)
    qed
  qed
qed

lemma same_at_sort: "wf_map kids \<Longrightarrow> same_at T kids ch \<Longrightarrow> same_at T (sort_key fst kids) ch"
  unfolding same_at_def by (subst cget_cong [OF sort_map_of]) assumption+

lemma below_mono: "below n nd \<Longrightarrow> n \<le> m \<Longrightarrow> below m nd"
proof (induction nd)
  case (Cnode c kids)
  have "\<forall>e \<in> set kids. below n (snd e) \<longrightarrow> below m (snd e)"
    using Cnode.IH Cnode.prems(2) by (metis snds.intros prod.collapse)
  then show ?case using Cnode.prems unfolding below_iff [of _ "Cnode c kids"] below_all_def by auto
qed

lemma to_compact_spec:
  "stored_ok n \<Longrightarrow> in_ok tab \<Longrightarrow> to_compact tab n = (nd, T) \<Longrightarrow>
    in_ok T \<and> extends tab T \<and> sorted_node nd \<and> below (length (in_strs T)) nd \<and> cn_count nd = nd_count n \<and>
    same_at T (cn_kids nd) (nd_children n)"
  "\<forall>e \<in> set ch. stored_ok (snd e) \<Longrightarrow> wf_map ch \<Longrightarrow> in_ok tab \<Longrightarrow> to_kids tab ch = (kids, T) \<Longrightarrow>
    in_ok T \<and> extends tab T \<and> wf_map kids \<and> (\<forall>e \<in> set kids. sorted_node (snd e)) \<and>
    below_all (length (in_strs T)) kids \<and> map (map_of (in_ids T)) (map fst ch) = map (Some \<circ> fst) kids \<and>
    same_at T kids ch"
proof (induction tab n and tab ch arbitrary: nd T and kids T rule: to_compact_to_kids.induct)
  case (1 tab c ch)
  obtain kids where k: "to_kids tab ch = (kids, T)" and nd: "nd = Cnode (wrap32 c) (sort_key fst kids)"
    using 1(4) by (auto split: prod.splits)
  have ok: "\<forall>e \<in> set ch. stored_ok (snd e)" "wf_map ch" and c: "wrap32 c = c"
    using 1(2) wrap32_id [of c] by (simp_all add: list_all_iff)
  note K = 1(1) [OF ok 1(3) k]
  have "sorted_kids (sort_key fst kids)" using K sort_kids_facts by blast
  then have "sorted_node nd" using sorted_node_iff [of nd] by (simp add: nd)
  moreover have "below (length (in_strs T)) nd" using K below_iff [of _ nd] by (simp add: nd below_all_def)
  moreover have "same_at T (cn_kids nd) ch" using K same_at_sort by (simp add: nd)
  ultimately show ?case using K by (simp add: nd c)
next
  case (2 tab)
  then show ?case by (auto simp: same_at_def below_all_def)
next
  case (3 tab w n ch)
  obtain i T1 where i: "intern w tab = (i, T1)" by fastforce
  obtain nd T2 where n: "to_compact T1 n = (nd, T2)" by fastforce
  obtain ks where ks: "to_kids T2 ch = (ks, T)" and kids: "kids = (i, nd) # ks"
    using 3(6) i n by (auto split: prod.splits)
  note I = intern_spec [OF 3(5) i]
  have N: "in_ok T2 \<and> extends T1 T2 \<and> sorted_node nd \<and> below (length (in_strs T2)) nd \<and> cn_count nd = nd_count n \<and>
      same_at T2 (cn_kids nd) (nd_children n)"
    by (rule 3(1) [OF i [symmetric] refl _ _ n]) (use 3(3) I in simp_all)
  have K: "in_ok T \<and> extends T2 T \<and> wf_map ks \<and> (\<forall>e \<in> set ks. sorted_node (snd e)) \<and>
    below_all (length (in_strs T)) ks \<and> map (map_of (in_ids T)) (map fst ch) = map (Some \<circ> fst) ks \<and> same_at T ks ch"
    by (rule 3(2) [OF i [symmetric] refl n [symmetric] refl _ _ _ ks]) (use 3(3,4) N in simp_all)
  have ex: "extends T1 T" "extends tab T" using I N K extends_trans by blast+
  have w2: "map_of (in_ids T2) w = Some i" and w: "map_of (in_ids T) w = Some i"
    using extends_known [of T1 T2 w i] extends_known [of T1 T w i] I N K ex by blast+
  have new: "map_of ch w = None" using 3(4) by (simp add: map_of_eq_None_iff)
  have "i \<notin> fst ` set ks"
  proof
    assume "i \<in> fst ` set ks"
    then have "Some i \<in> set (map (Some \<circ> fst) ks)" by auto
    then have "Some i \<in> set (map (map_of (in_ids T)) (map fst ch))" using K by simp
    then obtain v where "v \<in> fst ` set ch" "map_of (in_ids T) v = Some i"
      unfolding set_map by (metis (no_types, lifting) imageE)
    then have "v = w" using w K unfolding in_ok_def by metis
    then show False using \<open>v \<in> fst ` set ch\<close> 3(4) by simp
  qed
  moreover have "length (in_strs T2) \<le> length (in_strs T)"
    using K by (simp add: extends_def prefix_length_le)
  moreover have "i < length (in_strs T)" using w K unfolding in_ok_def by blast
  moreover have "same_at T kids ((w, n) # ch)"
    unfolding kids using K N w2 new by (intro same_at_Cons [of T T2]) simp_all
  ultimately show ?case
    using N K ex w below_mono [of "length (in_strs T2)" nd "length (in_strs T)"]
    by (simp add: kids below_all_def)
qed

text \<open>
  A stored subtree survives loading and saving: read into the compact shape, whatever words the
  table already has, and converted back, it has the same count at every path of words. And \<open>child\<close>,
  a binary search, finds in the compact shape exactly the children of the stored one.
\<close>

theorem compact_roundtrip:
  assumes "stored_ok n" and "in_ok tab"
  shows "case to_compact tab n of (nd, T) \<Rightarrow>
    nd_count (from_compact T nd) = nd_count n \<and>
    (\<forall>p. nget (nd_children (from_compact T nd)) p = nget (nd_children n) p) \<and>
    (\<forall>w i. lookup_word w T = Some i \<longrightarrow>
       map_option cn_count (child i nd) = map_option nd_count (map_of (nd_children n) w))"
proof -
  obtain nd T where t: "to_compact tab n = (nd, T)" by fastforce
  have F: "in_ok T" "sorted_node nd" "below (length (in_strs T)) nd" "cn_count nd = nd_count n"
    "same_at T (cn_kids nd) (nd_children n)"
    using to_compact_spec(1) [OF assms t] by simp_all
  have g: "good_map (cn_kids nd)" "below_all (length (in_strs T)) (cn_kids nd)"
    using F sorted_node_iff [of nd] sorted_kids_good below_iff [of _ nd] by simp_all
  have same: "(if known T p then cget (cn_kids nd) (ids_of T p) else None) = nget (nd_children n) p" for p
    using F(1,5) unfolding same_at_def by simp
  have "nget (nd_children (from_compact T nd)) p = nget (nd_children n) p" for p
    using nget_from_kids [OF F(1) g, of p] same [of p] by (cases nd) simp
  moreover have "map_option cn_count (child i nd) = map_option nd_count (map_of (nd_children n) w)"
    if "lookup_word w T = Some i" for w i
    using same [of "[w]"] that
    by (auto simp: child_map [OF F(2)] known_def ids_of_def lookup_word_def split: option.splits)
  ultimately show ?thesis using F(4) by (cases nd) (simp add: t)
qed

lemma compact_roundtrip_witness:
  "case to_compact word_tab (Node 3 [(''weg'', Node 2 []), (tok_end, Node 1 [])]) of (nd, T) \<Rightarrow>
    nd_count (from_compact T nd) = nd_count (Node 3 [(''weg'', Node 2 []), (tok_end, Node 1 [])]) \<and>
    (\<forall>p. nget (nd_children (from_compact T nd)) p =
       nget (nd_children (Node 3 [(''weg'', Node 2 []), (tok_end, Node 1 [])])) p) \<and>
    (\<forall>w i. lookup_word w T = Some i \<longrightarrow>
       map_option cn_count (child i nd) =
         map_option nd_count (map_of (nd_children (Node 3 [(''weg'', Node 2 []), (tok_end, Node 1 [])])) w))"
  by (rule compact_roundtrip [OF _ word_tab_ok]) (simp add: tok_end_def)

end
