(* ===== verification/Markov_Text.thy ===== *)
theory Markov_Text
  imports Go_Case Go_Regex Colour Markov_Trie
begin

text \<open>
  modules/markov/markov.go, the text side: from a line of chatter to the tokens that are learned, and
  from the tokens of a walk to the line that is said.
\<close>

section \<open>Words\<close>

definition ci_find :: "string list \<Rightarrow> string \<Rightarrow> bool" where
  \<comment> \<open>\<open>(?i)(a|b|..)\<close> anywhere in the text\<close>
  "ci_find ws s = list_ex (\<lambda>rs. list_ex (\<lambda>w. ci_word w rs \<noteq> None) ws) (suffixes (runes s))"

definition known_nick :: "string \<Rightarrow> bool" where
  "known_nick w = ci_find [''benv'', ''lotjuh''] w"

definition is_bot :: "string \<Rightarrow> bool" where
  "is_bot n =
     (n = ''X'' \<or> n = ''x'' \<or> ci_find [''the_baby'', ''hoer'', ''dromertje'', ''calvin'', ''bot'', ''lippy''] n)"

definition split_word :: "string \<Rightarrow> string list" where
  \<comment> \<open>the three patterns at the end of \<open>sanitizeWord\<close>\<close>
  "split_word w =
     (let a = takeWhile is_word w; r = dropWhile is_word w in
      if a \<noteq> [] \<and> length (segs r) = 1 then [a, r]
      else if a \<noteq> [] \<and> (r = [] \<or> hd r = CHR 0x27 \<and> tl r \<noteq> [] \<and> list_all is_word (tl r)) then [w]
      else [])"

definition sanitize_word :: "case_tables \<Rightarrow> string \<Rightarrow> string list" where
  "sanitize_word U w0 =
     (let w1 = trim_space (from_runes (filter (\<lambda>r. 0x20 \<le> r) (runes w0)));
          w2 = lower_text U w1
      in split_word (if known_nick w2 then capitalize U w2 else w2))"

definition is_bad_end :: "string \<Rightarrow> bool" where
  "is_bad_end w =
     list_ex (\<lambda>p. ci_word p (runes w) = Some [])
       [''de'', ''het'', ''een'', ''the'', ''a'', ''an'', ''is'', ''or'', ''of'', ''and'', ''en'', '','', '':'']"

definition smiley_at :: "string \<Rightarrow> bool" where
  \<comment> \<open>\<open>[:;>^]-?[)(pdDPX^]\<close> at the head\<close>
  "smiley_at s =
     (case s of
        [] \<Rightarrow> False
      | c # t \<Rightarrow> c \<in> set '':;>^'' \<and>
          (case (if t \<noteq> [] \<and> hd t = CHR ''-'' then tl t else t) of
             [] \<Rightarrow> False | d # _ \<Rightarrow> d \<in> set '')(pdDPX^''))"

definition is_eol :: "string \<Rightarrow> bool" where
  "is_eol w = (w = [] \<or> last w \<in> set ''?!.'' \<or> list_ex smiley_at (suffixes w))"

definition seed_words :: "case_tables \<Rightarrow> string \<Rightarrow> string list" where
  \<comment> \<open>the loop over \<open>strings.FieldsSeq\<close>\<close>
  "seed_words U s = concat (map (sanitize_word U) (go_fields s))"

definition line_tokens :: "case_tables \<Rightarrow> string \<Rightarrow> string list" where
  "line_tokens U msg =
     (let ws = tok_start # seed_words U (strip msg) in
      if length ws = 1 then []
      else (let l = last ws in ws @ (if \<not> is_eol l \<and> \<not> is_bad_end l then [''.''] else []) @ [tok_end]))"

section \<open>What is said\<close>

definition is_sentinel :: "string \<Rightarrow> bool" where
  "is_sentinel w = (w = tok_start \<or> w = tok_end)"

fun join_punct :: "string \<Rightarrow> string" where
  \<comment> \<open>\<open>joinPunctRe\<close> replaced by its group: blanks before a mark go\<close>
  "join_punct [] = []"
| "join_punct (c # s) =
     (let r = dropWhile is_ws s in
      if is_ws c \<and> r \<noteq> [] \<and> hd r \<in> set '',!?.;:%'' then join_punct s else c # join_punct s)"

definition render_words :: "case_tables \<Rightarrow> string list \<Rightarrow> string" where
  "render_words U ws = capitalize U (join_punct (join '' '' (filter (\<lambda>w. \<not> is_sentinel w) ws)))"

section \<open>No control characters\<close>

lemma split_word_parts: "v \<in> set (split_word w) \<Longrightarrow> v \<noteq> [] \<and> set v \<subseteq> set w"
  by (auto simp: split_word_def Let_def dest: set_takeWhileD set_dropWhileD split: if_splits)

lemma sanitize_clean: "printing U \<Longrightarrow> v \<in> set (sanitize_word U w) \<Longrightarrow> v \<noteq> [] \<and> clean v"
proof -
  assume U: "printing U" and v: "v \<in> set (sanitize_word U w)"
  define w1 where "w1 = trim_space (from_runes (filter (\<lambda>r. 0x20 \<le> r) (runes w)))"
  define w2 where "w2 = lower_text U w1"
  have "clean w1" unfolding w1_def by (rule clean_subset [OF trim_space_subset clean_from_runes]) simp
  then have "clean w2"
    unfolding w2_def lower_text_def using U clean_runes
    by (intro clean_from_runes) (fastforce simp: lower_rune_def printing_def)
  then have "clean (if known_nick w2 then capitalize U w2 else w2)" using U clean_capitalize by simp
  moreover have "v \<in> set (split_word (if known_nick w2 then capitalize U w2 else w2))"
    using v unfolding sanitize_word_def Let_def w1_def w2_def .
  ultimately show ?thesis using split_word_parts clean_subset by blast
qed

lemma seed_words_clean: "printing U \<Longrightarrow> v \<in> set (seed_words U s) \<Longrightarrow> v \<noteq> [] \<and> clean v"
  using sanitize_clean by (auto simp: seed_words_def)

lemma clean_not_sentinel: "clean v \<Longrightarrow> v \<noteq> tok_start \<and> v \<noteq> tok_end"
  by (auto simp: clean_def tok_start_def tok_end_def)

lemma join_clean: "clean sep \<Longrightarrow> \<forall>w \<in> set ws. clean w \<Longrightarrow> clean (join sep ws)"
  by (induction sep ws rule: join.induct) auto

lemma join_punct_set: "set (join_punct s) \<subseteq> set s"
  by (induction s rule: join_punct.induct) (auto simp: Let_def)

lemma render_clean:
  assumes "printing U" and "\<forall>w \<in> set ws. clean w \<or> is_sentinel w"
  shows "clean (render_words U ws)"
proof -
  have "clean (join '' '' (filter (\<lambda>w. \<not> is_sentinel w) ws))"
    using assms(2) by (intro join_clean) (auto simp: clean_def)
  then have "clean (join_punct (join '' '' (filter (\<lambda>w. \<not> is_sentinel w) ws)))"
    by (rule clean_subset [OF join_punct_set])
  with assms(1) show ?thesis by (simp add: render_words_def clean_capitalize)
qed

lemma line_tokens_shape:
  assumes "printing U"
  obtains "line_tokens U msg = []"
  | ws where "ws \<noteq> []" "line_tokens U msg = tok_start # ws @ [tok_end]" "\<forall>w \<in> set ws. w \<noteq> [] \<and> clean w"
proof (cases "seed_words U (strip msg) = []")
  case True
  then show ?thesis by (intro that(1)) (simp add: line_tokens_def)
next
  case False
  let ?l = "last (seed_words U (strip msg))"
  let ?ws = "seed_words U (strip msg) @ (if \<not> is_eol ?l \<and> \<not> is_bad_end ?l then [''.''] else [])"
  show ?thesis
  proof (rule that(2) [of ?ws])
    show "line_tokens U msg = tok_start # ?ws @ [tok_end]" using False by (simp add: line_tokens_def Let_def)
    have "clean ''.''" by (simp add: clean_def)
    then show "\<forall>w \<in> set ?ws. w \<noteq> [] \<and> clean w" using seed_words_clean [OF assms] by auto
  qed (use False in simp)
qed

section \<open>Plain ASCII\<close>

lemma sanitize_ascii:
  assumes "\<forall>c \<in> set w. 0x20 < byte c \<and> byte c < 0x80" and "\<not> known_nick (to_lower w)"
  shows "sanitize_word U w = split_word (to_lower w)"
proof -
  have a: "\<forall>c \<in> set w. byte c < 0x80" "\<forall>c \<in> set w. 0x20 \<le> byte c" using assms(1) by auto
  have ns: "\<not> is_space_rune (byte c)" if "c \<in> set w" for c
    using assms(1) that by (force simp: is_space_rune_def)
  have "filter (\<lambda>r. 0x20 \<le> r) (runes w) = map byte w"
    using a by (simp add: runes_ascii filter_map comp_def)
  then have "from_runes (filter (\<lambda>r. 0x20 \<le> r) (runes w)) = w" by (simp add: from_runes_ascii [OF a(1)])
  moreover have "trim_space w = w"
  proof -
    have d: "dropWhile (\<lambda>c. is_space_rune (byte c)) xs = xs" if "set xs \<subseteq> set w" for xs
      using ns that by (cases xs) auto
    show ?thesis by (simp add: trim_space_ascii [OF a(1)] d)
  qed
  ultimately show ?thesis using assms(2) by (simp add: sanitize_word_def lower_text_ascii [OF a(1)] Let_def)
qed

end
