(* ===== verification/Markov_Talk.thy ===== *)
theory Markov_Talk
  imports Markov_Text "HOL-Library.Multiset"
begin

text \<open>
  modules/markov/markov.go, the generation: the walk over a dictionary that makes a line. \<open>m.rand()\<close> is a
  stream of draws, each used in one of two ways, as \<open>int(m.rand() * float64(n))\<close> or in the comparison of
  the variety roll; the record \<open>dice\<close> gives the outcome of draw number \<open>i\<close> for either use, and every
  function threads the number of the next draw. \<open>None\<close> is the slice out of range of a negative order.
\<close>

record dice =
  di_pick :: "nat \<Rightarrow> int \<Rightarrow> int"
  di_drop :: "nat \<Rightarrow> nat \<Rightarrow> bool"  \<comment> \<open>\<open>rand < 0.25 / n / n\<close>\<close>

record mk_dict =
  md_name :: string
  md_chains :: chain_map
  md_keys :: "string list"

definition new_dict :: "string \<Rightarrow> mk_dict" where
  "new_dict n = \<lparr>md_name = n, md_chains = [], md_keys = []\<rparr>"

definition rebuild_keys :: "interner \<Rightarrow> mk_dict \<Rightarrow> mk_dict" where
  \<comment> \<open>0 and 1 are the ids of the sentinels\<close>
  "rebuild_keys tab d =
     d\<lparr>md_keys := sort (map (word_str tab) (filter (\<lambda>i. i \<noteq> 0 \<and> i \<noteq> 1) (map fst (md_chains d))))\<rparr>"

definition chain_at :: "interner \<Rightarrow> mk_dict \<Rightarrow> string \<Rightarrow> cnode option" where
  "chain_at tab d w = (case lookup_word w tab of None \<Rightarrow> None | Some i \<Rightarrow> map_of (md_chains d) i)"

definition last_words :: "int \<Rightarrow> 'a list \<Rightarrow> 'a list option" where
  "last_words order ws =
     (if order < int (length ws)
      then (if order < 0 then None else Some (drop (length ws - nat order) ws))
      else Some ws)"

section \<open>Picking a word\<close>

fun descend :: "interner \<Rightarrow> string list \<Rightarrow> cnode \<Rightarrow> cnode option" where
  "descend tab [] nd = Some nd"
| "descend tab (w # ws) nd =
     (case lookup_word w tab of
        None \<Rightarrow> None
      | Some i \<Rightarrow> (case child i nd of None \<Rightarrow> None | Some nd' \<Rightarrow> descend tab ws nd'))"

fun chain_of :: "interner \<Rightarrow> mk_dict \<Rightarrow> string list \<Rightarrow> cnode option" where
  "chain_of tab d [] = None"
| "chain_of tab d (w # ws) = (case chain_at tab d w of None \<Rightarrow> None | Some nd \<Rightarrow> descend tab ws nd)"

fun drop_orders :: "dice \<Rightarrow> interner \<Rightarrow> mk_dict \<Rightarrow> string list \<Rightarrow> nat \<Rightarrow> nat \<Rightarrow> cnode option \<times> nat" where
  \<comment> \<open>the loop of \<open>findMaxOrderChain\<close>\<close>
  "drop_orders R tab d ws 0 i = (None, i)"
| "drop_orders R tab d ws (Suc n) i =
     (case chain_of tab d (drop (length ws - Suc n) ws) of
        None \<Rightarrow> drop_orders R tab d ws n i
      | Some nd \<Rightarrow>
          if di_drop R i (length (cn_kids nd) + 1) then drop_orders R tab d ws n (Suc i)
          else (Some nd, Suc i))"

definition find_max_order_chain ::
  "int \<Rightarrow> dice \<Rightarrow> interner \<Rightarrow> mk_dict \<Rightarrow> string list \<Rightarrow> nat \<Rightarrow> cnode option \<times> nat" where
  "find_max_order_chain order R tab d ws i = drop_orders R tab d ws (nat (min order (int (length ws)))) i"

definition kids_by_word :: "interner \<Rightarrow> cnode \<Rightarrow> (nat \<times> cnode) list" where
  "kids_by_word tab nd = sort_key (\<lambda>k. word_str tab (fst k)) (cn_kids nd)"

fun pick_kid :: "int \<Rightarrow> int \<Rightarrow> (nat \<times> cnode) list \<Rightarrow> nat option" where
  \<comment> \<open>the first child whose cumulated count reaches \<open>r\<close>\<close>
  "pick_kid r acc [] = None"
| "pick_kid r acc ((w, nd) # kids) =
     (if r \<le> acc + cn_count nd then Some w else pick_kid r (acc + cn_count nd) kids)"

definition weighted_pick :: "dice \<Rightarrow> interner \<Rightarrow> cnode \<Rightarrow> nat \<Rightarrow> string \<times> nat" where
  "weighted_pick R tab nd i =
     (if cn_kids nd = [] then ([], i)
      else (let kids = kids_by_word tab nd; total = sum_list (map (cn_count \<circ> snd) kids) in
            (case pick_kid (di_pick R i total) 0 kids of None \<Rightarrow> [] | Some w \<Rightarrow> word_str tab w, Suc i)))"

definition random_chain_word :: "dice \<Rightarrow> mk_dict \<Rightarrow> nat \<Rightarrow> string \<times> nat" where
  "random_chain_word R d i =
     (if md_keys d = [] then ([], i)
      else (md_keys d ! nat (di_pick R i (int (length (md_keys d))) mod int (length (md_keys d))), Suc i))"

definition random_word :: "int \<Rightarrow> dice \<Rightarrow> interner \<Rightarrow> mk_dict \<Rightarrow> string list \<Rightarrow> nat \<Rightarrow> (string \<times> nat) option" where
  "random_word order R tab d ws i =
     (case last_words order ws of
        None \<Rightarrow> None
      | Some l \<Rightarrow>
          if l = [] \<or> chain_at tab d (last l) = None then Some (random_chain_word R d i)
          else (case find_max_order_chain order R tab d l i of
                  (None, i1) \<Rightarrow> Some (random_chain_word R d i1)
                | (Some nd, i1) \<Rightarrow>
                    (case weighted_pick R tab nd i1 of
                       (w, i2) \<Rightarrow> Some (if w \<noteq> [] then (w, i2) else random_chain_word R d i2))))"

definition pick_next :: "int \<Rightarrow> dice \<Rightarrow> interner \<Rightarrow> mk_dict \<Rightarrow> string list \<Rightarrow> nat \<Rightarrow> (string \<times> nat) option" where
  "pick_next order R tab d ws i =
     (case last_words order ws of
        None \<Rightarrow> None
      | Some l \<Rightarrow>
          (case find_max_order_chain order R tab d l i of
             (None, i1) \<Rightarrow> Some ([], i1)
           | (Some nd, i1) \<Rightarrow> Some (weighted_pick R tab nd i1)))"

section \<open>Walks\<close>

definition stutter :: string where "stutter = ''*BLLEUEURRURUHGHG*.''"

function forward :: "int \<Rightarrow> dice \<Rightarrow> interner \<Rightarrow> mk_dict \<Rightarrow> nat \<Rightarrow> string list \<Rightarrow> nat \<Rightarrow> (string list \<times> nat) option" where
  \<comment> \<open>the loop of \<open>randomMessageFrom\<close>, up to the words it renders\<close>
  "forward order R tab d looper ws i =
     (case random_word order R tab d ws i of
        None \<Rightarrow> None
      | Some (w, i1) \<Rightarrow>
          if w = tok_end then Some (ws, i1)
          else
            (let ws1 = ws @ [if w = [] \<or> w = tok_start then (if 6 < length ws then ''.'' else stutter) else w];
                 ws2 = (if 40 < looper + 1 then ws1 @ [''....''] else ws1)
             in if is_eol (last ws2) then Some (ws2, i1) else forward order R tab d (looper + 1) ws2 i1))"
  by pat_completeness auto
termination
  by (relation "measure (\<lambda>(order, R, tab, d, looper, ws, i). 41 - looper)") (auto simp: is_eol_def split: if_splits)

definition random_message_from ::
  "case_tables \<Rightarrow> int \<Rightarrow> dice \<Rightarrow> interner \<Rightarrow> mk_dict \<Rightarrow> string list \<Rightarrow> nat \<Rightarrow> (string \<times> nat) option" where
  "random_message_from U order R tab d ws i =
     map_option (\<lambda>(out, j). (render_words U out, j))
       (forward order R tab d 0 (if ws = [] \<and> map_of (md_chains d) 0 \<noteq> None then [tok_start] else ws) i)"

fun backward :: "int \<Rightarrow> dice \<Rightarrow> interner \<Rightarrow> mk_dict \<Rightarrow> nat \<Rightarrow> string list \<Rightarrow> nat \<Rightarrow> (string list \<times> nat) option" where
  \<comment> \<open>the loop of \<open>middleOut\<close> with the steps it has left\<close>
  "backward order R tab d 0 ws i = Some (ws, i)"
| "backward order R tab d (Suc n) ws i =
     (case pick_next order R tab d ws i of
        None \<Rightarrow> None
      | Some (w, i1) \<Rightarrow>
          if w = [] \<or> w = tok_end then Some (ws, i1)
          else if w = tok_start then Some (ws @ [w], i1)
          else backward order R tab d n (ws @ [w]) i1)"

definition middle_out ::
  "case_tables \<Rightarrow> int \<Rightarrow> dice \<Rightarrow> interner \<Rightarrow> mk_dict \<Rightarrow> mk_dict \<Rightarrow> string \<Rightarrow> nat \<Rightarrow> (string \<times> nat) option" where
  "middle_out U order R tab main reverse seed i =
     (case backward order R tab reverse 15 [seed] i of
        None \<Rightarrow> None
      | Some (back, i1) \<Rightarrow> random_message_from U order R tab main (rev back) i1)"

definition random_message ::
  "case_tables \<Rightarrow> int \<Rightarrow> dice \<Rightarrow> interner \<Rightarrow> mk_dict \<Rightarrow> string \<Rightarrow> nat \<Rightarrow> (string \<times> nat) option" where
  "random_message U order R tab d seed i = random_message_from U order R tab d (seed_words U seed) i"

definition talk_message ::
  "case_tables \<Rightarrow> int \<Rightarrow> dice \<Rightarrow> interner \<Rightarrow> mk_dict \<Rightarrow> mk_dict \<Rightarrow> string \<Rightarrow> nat \<Rightarrow> (string \<times> nat) option" where
  "talk_message U order R tab main reverse seed i =
     (let ws = seed_words U seed in
      if length ws = 1 \<and> chain_at tab reverse (hd ws) \<noteq> None
      then middle_out U order R tab main reverse (hd ws) i
      else random_message_from U order R tab main ws i)"

section \<open>The weights of a pick\<close>

definition cum :: "nat \<Rightarrow> (nat \<times> cnode) list \<Rightarrow> int" where
  \<comment> \<open>the cumulated count of the first \<open>n\<close> children\<close>
  "cum n ks = sum_list (map (cn_count \<circ> snd) (take n ks))"

lemma cum_simps [simp]: "cum 0 ks = 0" "cum (Suc n) ((w, nd) # ks) = cn_count nd + cum n ks"
  by (simp_all add: cum_def)

lemma cum_Suc: "n < length ks \<Longrightarrow> cum (Suc n) ks = cum n ks + cn_count (snd (ks ! n))"
  by (simp add: cum_def take_Suc_conv_app_nth)

lemma cum_nonneg: "\<forall>k \<in> set ks. 0 < cn_count (snd k) \<Longrightarrow> 0 \<le> cum n ks"
  unfolding cum_def by (intro sum_list_nonneg) (fastforce dest: in_set_takeD)

lemma cum_less:
  assumes "\<forall>k \<in> set ks. 0 < cn_count (snd k)" and "n < length ks"
  shows "cum n ks < cum (length ks) ks"
  using assms
proof (induction ks arbitrary: n)
  case (Cons k ks)
  obtain w nd where k: "k = (w, nd)" by (cases k)
  show ?case
  proof (cases n)
    case 0
    then show ?thesis using Cons.prems(1) k cum_nonneg [of ks "length ks"] by simp
  next
    case (Suc i)
    then show ?thesis using Cons k by simp
  qed
qed simp

lemma pick_kid_iff:
  assumes "\<forall>k \<in> set ks. 0 < cn_count (snd k)" and "distinct (map fst ks)" and "j < length ks"
  shows "pick_kid r acc ks = Some (fst (ks ! j)) \<longleftrightarrow> r \<le> acc + cum (Suc j) ks \<and> (0 < j \<longrightarrow> acc + cum j ks < r)"
  using assms
proof (induction ks arbitrary: acc j)
  case (Cons k ks)
  obtain w nd where k: "k = (w, nd)" by (cases k)
  show ?case
  proof (cases j)
    case 0
    have "pick_kid r (acc + cn_count nd) ks \<noteq> Some w"
    proof
      assume p: "pick_kid r (acc + cn_count nd) ks = Some w"
      have "w' \<in> fst ` set ks" if "pick_kid r a ks = Some w'" for a w'
        using that by (induction ks arbitrary: a) (force split: if_splits)+
      with p Cons.prems(2) k show False by auto
    qed
    with 0 k show ?thesis by simp
  next
    case (Suc i)
    then have i: "i < length ks" using Cons.prems(3) by simp
    have ne: "w \<noteq> fst (ks ! i)" using Cons.prems(2) k i nth_mem [OF i] by force
    have nn: "0 \<le> cum i ks" using Cons.prems(1) by (intro cum_nonneg) simp
    from Cons.IH [of i "acc + cn_count nd"] Cons.prems(1,2) i
    have IH: "pick_kid r (acc + cn_count nd) ks = Some (fst (ks ! i)) \<longleftrightarrow>
        r \<le> acc + cn_count nd + cum (Suc i) ks \<and> (0 < i \<longrightarrow> acc + cn_count nd + cum i ks < r)"
      by simp
    show ?thesis
    proof (cases "r \<le> acc + cn_count nd")
      case True
      then show ?thesis using Suc k ne nn by simp
    next
      case False
      then show ?thesis using Suc k IH by (cases "i = 0") (simp_all add: add.assoc)
    qed
  qed
qed simp

lemma pick_kid_share:
  assumes "\<forall>k \<in> set ks. 0 < cn_count (snd k)" and "distinct (map fst ks)" and "j < length ks"
  shows "card {r. 0 \<le> r \<and> r < cum (length ks) ks \<and> pick_kid r 0 ks = Some (fst (ks ! j))} =
    nat (cn_count (snd (ks ! j)) + (if j = 0 then 1 else 0) - (if Suc j = length ks then 1 else 0))"
proof -
  obtain a b where ab: "cum j ks = a" "cum (Suc j) ks = b" by blast
  obtain c where c: "cum (length ks) ks = c" by blast
  have n: "0 \<le> a" "b = a + cn_count (snd (ks ! j))" "0 < cn_count (snd (ks ! j))" "j = 0 \<Longrightarrow> a = 0"
    using cum_nonneg [OF assms(1), of j] cum_Suc [OF assms(3)] assms(1,3) ab by auto
  have e: "if Suc j = length ks then b = c else b < c"
    using cum_less [OF assms(1), of "Suc j"] assms(3) ab c by auto
  have "{r. 0 \<le> r \<and> r < cum (length ks) ks \<and> pick_kid r 0 ks = Some (fst (ks ! j))} =
      {r. 0 \<le> r \<and> r < c \<and> r \<le> b \<and> (0 < j \<longrightarrow> a < r)}"
    unfolding pick_kid_iff [OF assms] c using ab by simp
  also have "\<dots> = {(if j = 0 then 0 else a + 1)..(if Suc j = length ks then c - 1 else b)}"
    using n e by (auto split: if_splits)
  finally show ?thesis using n e by (auto split: if_splits)
qed

lemma word_str_inj: "in_ok tab \<Longrightarrow> i < length (in_strs tab) \<Longrightarrow> j < length (in_strs tab) \<Longrightarrow>
    word_str tab i = word_str tab j \<Longrightarrow> i = j"
  by (metis in_okD option.inject word_str_def)

lemma kids_by_word_facts:
  "set (kids_by_word tab nd) = set (cn_kids nd)" "length (kids_by_word tab nd) = length (cn_kids nd)"
  "sum_list (map (cn_count \<circ> snd) (kids_by_word tab nd)) = sum_list (map (cn_count \<circ> snd) (cn_kids nd))"
  "distinct (map fst (cn_kids nd)) \<Longrightarrow> distinct (map fst (kids_by_word tab nd))"
proof -
  have m: "mset (kids_by_word tab nd) = mset (cn_kids nd)" by (simp add: kids_by_word_def)
  then have "mset (map (cn_count \<circ> snd) (kids_by_word tab nd)) = mset (map (cn_count \<circ> snd) (cn_kids nd))" by simp
  then show "sum_list (map (cn_count \<circ> snd) (kids_by_word tab nd)) = sum_list (map (cn_count \<circ> snd) (cn_kids nd))"
    by (metis sum_mset_sum_list)
  show "set (kids_by_word tab nd) = set (cn_kids nd)" "length (kids_by_word tab nd) = length (cn_kids nd)"
    by (simp_all add: kids_by_word_def)
  from m have "mset (map fst (kids_by_word tab nd)) = mset (map fst (cn_kids nd))" by simp
  then show "distinct (map fst (cn_kids nd)) \<Longrightarrow> distinct (map fst (kids_by_word tab nd))"
    by (metis mset_eq_imp_distinct_iff)
qed

text \<open>
  C21. The weights of a pick. Of the outcomes \<open>0 .. total - 1\<close> of the draw, a child is picked by as many
  as its count, but for one more of the first child in the order of the words and one less of the last:
  the comparison with the cumulated count is \<open>r <= c\<close> where \<open>r < c\<close> would be exact. So the last word of
  several is never said when it was heard once.
\<close>

theorem weighted_share:
  assumes "in_ok tab" and "below (length (in_strs tab)) nd" and "sorted_node nd"
    and "\<forall>k \<in> set (cn_kids nd). 0 < cn_count (snd k)" and "j < length (cn_kids nd)"
  shows "card {r. 0 \<le> r \<and> r < sum_list (map (cn_count \<circ> snd) (cn_kids nd)) \<and>
        fst (weighted_pick (R\<lparr>di_pick := \<lambda>_ _. r\<rparr>) tab nd i) = word_str tab (fst (kids_by_word tab nd ! j))} =
    nat (cn_count (snd (kids_by_word tab nd ! j)) + (if j = 0 then 1 else 0) -
      (if Suc j = length (cn_kids nd) then 1 else 0))"
proof -
  let ?ks = "kids_by_word tab nd"
  let ?total = "sum_list (map (cn_count \<circ> snd) ?ks)"
  have t: "cum (length ?ks) ?ks = ?total" by (simp add: cum_def)
  note F = kids_by_word_facts
  have d: "distinct (map fst ?ks)"
    using assms(3) F(4) by (simp add: sorted_node_iff [of nd] sorted_kids_def strict_sorted_iff)
  have pos: "\<forall>k \<in> set ?ks. 0 < cn_count (snd k)" using assms(4) F(1) by simp
  have ids: "fst k < length (in_strs tab)" if "k \<in> set ?ks" for k
    using that assms(2) F(1) [of tab nd] by (simp add: below_iff [of _ nd] below_all_def)
  have j: "j < length ?ks" using assms(5) F(2) by simp
  have some: "\<exists>w. pick_kid r 0 ?ks = Some w \<and> w \<in> fst ` set ?ks" if "r < ?total" for r
  proof -
    have "\<exists>w. pick_kid r acc ks = Some w \<and> w \<in> fst ` set ks" if "r < acc + sum_list (map (cn_count \<circ> snd) ks)" "ks \<noteq> []" for acc ks
      using that
    proof (induction ks arbitrary: acc)
      case (Cons k ks)
      show ?case
      proof (cases "r \<le> acc + cn_count (snd k)")
        case False
        then have "ks \<noteq> []" using Cons.prems(1) by (cases ks) auto
        with False Cons.IH [of "acc + cn_count (snd k)"] Cons.prems(1) show ?thesis by (cases k) (auto simp: add.assoc)
      qed (cases k, simp)
    qed simp
    from this [of 0 ?ks] that j show ?thesis by fastforce
  qed
  have "fst (weighted_pick (R\<lparr>di_pick := \<lambda>_ _. r\<rparr>) tab nd i) = word_str tab (fst (?ks ! j)) \<longleftrightarrow>
      pick_kid r 0 ?ks = Some (fst (?ks ! j))" if "r < ?total" for r
  proof -
    obtain w where w: "pick_kid r 0 ?ks = Some w" "w \<in> fst ` set ?ks" using some [OF \<open>r < ?total\<close>] by blast
    have "cn_kids nd \<noteq> []" using assms(5) by auto
    then have "fst (weighted_pick (R\<lparr>di_pick := \<lambda>_ _. r\<rparr>) tab nd i) = word_str tab w"
      using w(1) by (simp add: weighted_pick_def Let_def)
    moreover have "w < length (in_strs tab)" "fst (?ks ! j) < length (in_strs tab)"
      using w(2) ids nth_mem [OF j] by auto
    ultimately show ?thesis using w(1) word_str_inj [OF assms(1), of w "fst (?ks ! j)"] by auto
  qed
  then have "{r. 0 \<le> r \<and> r < sum_list (map (cn_count \<circ> snd) (cn_kids nd)) \<and>
        fst (weighted_pick (R\<lparr>di_pick := \<lambda>_ _. r\<rparr>) tab nd i) = word_str tab (fst (?ks ! j))} =
      {r. 0 \<le> r \<and> r < ?total \<and> pick_kid r 0 ?ks = Some (fst (?ks ! j))}"
    unfolding F(3) by blast
  then show ?thesis using pick_kid_share [OF pos d j] F(2) unfolding t by simp
qed

definition demo_dice :: dice where
  "demo_dice = \<lparr>di_pick = (\<lambda>i n. int i mod n), di_drop = (\<lambda>i n. False)\<rparr>"

definition demo_tab :: interner where
  "demo_tab = snd (intern ''weg'' (snd (intern ''ga'' word_tab)))"

lemma demo_tab_ok: "in_ok demo_tab"
  using intern_spec [OF word_tab_ok, of "''ga''"] intern_spec [of _ "''weg''"] unfolding demo_tab_def
  by (metis prod.collapse)

lemma weighted_share_witness:
  "card {r. 0 \<le> r \<and> r < 2 \<and>
     fst (weighted_pick (demo_dice\<lparr>di_pick := \<lambda>_ _. r\<rparr>) demo_tab (Cnode 2 [(2, Cnode 1 []), (3, Cnode 1 [])]) 0) = ''weg''} = 0"
proof -
  have k: "kids_by_word demo_tab (Cnode 2 [(2, Cnode 1 []), (3, Cnode 1 [])]) = [(2, Cnode 1 []), (3, Cnode 1 [])]"
    by (simp add: kids_by_word_def demo_tab_def word_str_def word_tab_def intern_def tok_start_def tok_end_def)
  have w: "word_str demo_tab 3 = ''weg''" "length (in_strs demo_tab) = 4"
    by (simp_all add: demo_tab_def word_str_def word_tab_def intern_def tok_start_def tok_end_def)
  show ?thesis
    using weighted_share [of demo_tab "Cnode 2 [(2, Cnode 1 []), (3, Cnode 1 [])]" 1 demo_dice 0] demo_tab_ok
    by (simp add: k w)
qed

section \<open>Every walk ends\<close>

definition speakable :: "interner \<Rightarrow> mk_dict \<Rightarrow> bool" where
  \<comment> \<open>the dictionary's ids and cached words are in the table\<close>
  "speakable tab d = (below_all (length (in_strs tab)) (md_chains d) \<and> set (md_keys d) \<subseteq> set (in_strs tab))"

lemma child_in: "child w nd = Some nd' \<Longrightarrow> \<exists>v. (v, nd') \<in> set (cn_kids nd)"
  unfolding child_def bsearch_def Let_def by (auto split: if_splits) (metis nth_mem prod.collapse)

lemma descend_below: "descend tab ws nd = Some nd' \<Longrightarrow> below n nd \<Longrightarrow> below n nd'"
proof (induction ws arbitrary: nd)
  case (Cons w ws)
  then obtain i ch where "child i nd = Some ch" "descend tab ws ch = Some nd'"
    by (auto split: option.splits)
  moreover have "below n ch" using child_in [OF \<open>child i nd = Some ch\<close>] Cons.prems(2)
    by (auto simp: below_iff [of n nd] below_all_def)
  ultimately show ?case using Cons.IH by blast
qed simp

lemma chain_of_below: "chain_of tab d ws = Some nd \<Longrightarrow> below_all n (md_chains d) \<Longrightarrow> below n nd"
  by (cases ws) (force simp: chain_at_def below_all_def dest: map_of_SomeD split: option.splits intro: descend_below)+

lemma drop_orders_below:
  "drop_orders R tab d ws m i = (Some nd, j) \<Longrightarrow> below_all n (md_chains d) \<Longrightarrow> below n nd"
  by (induction R tab d ws m i rule: drop_orders.induct) (auto split: option.splits if_splits dest: chain_of_below)

lemma pick_kid_in: "pick_kid r acc ks = Some w \<Longrightarrow> w \<in> fst ` set ks"
  by (induction ks arbitrary: acc) (force split: if_splits)+

lemma weighted_pick_word:
  assumes "below (length (in_strs tab)) nd" and "weighted_pick R tab nd i = (w, j)"
  shows "w = [] \<or> w \<in> set (in_strs tab)"
proof -
  have "word_str tab v \<in> set (in_strs tab)" if "v \<in> fst ` set (kids_by_word tab nd)" for v
    using that assms(1) kids_by_word_facts(1) [of tab nd]
    by (auto simp: below_iff [of _ nd] below_all_def word_str_def intro: nth_mem)
  then show ?thesis
    using assms(2) by (auto simp: weighted_pick_def Let_def split: if_splits option.splits dest!: pick_kid_in)
qed

lemma random_chain_word_word:
  assumes "set (md_keys d) \<subseteq> set (in_strs tab)" and "random_chain_word R d i = (w, j)"
  shows "w = [] \<or> w \<in> set (in_strs tab)"
proof (cases "md_keys d = []")
  case False
  then have "nat (di_pick R i (int (length (md_keys d))) mod int (length (md_keys d))) < length (md_keys d)"
    by (simp add: nat_less_iff)
  then have "w \<in> set (md_keys d)" using assms(2) False by (auto simp: random_chain_word_def)
  with assms(1) show ?thesis by blast
qed (use assms(2) in \<open>simp add: random_chain_word_def\<close>)

lemma last_words_total: "0 \<le> order \<Longrightarrow> last_words order ws \<noteq> None"
  by (simp add: last_words_def)

lemma random_word_word:
  assumes "0 \<le> order" and "speakable tab d"
  obtains w j where "random_word order R tab d ws i = Some (w, j)" and "w = [] \<or> w \<in> set (in_strs tab)"
proof -
  have b: "below_all (length (in_strs tab)) (md_chains d)" and k: "set (md_keys d) \<subseteq> set (in_strs tab)"
    using assms(2) by (simp_all add: speakable_def)
  obtain l where l: "last_words order ws = Some l" using last_words_total [OF assms(1)] by blast
  obtain o' i1 where f: "find_max_order_chain order R tab d l i = (o', i1)" by fastforce
  have "\<exists>w j. random_word order R tab d ws i = Some (w, j) \<and> (w = [] \<or> w \<in> set (in_strs tab))"
  proof (cases "l = [] \<or> chain_at tab d (last l) = None")
    case True
    then show ?thesis using l random_chain_word_word [OF k, of R i]
      by (cases "random_chain_word R d i") (simp add: random_word_def)
  next
    case False
    show ?thesis
    proof (cases o')
      case None
      then show ?thesis using l f False random_chain_word_word [OF k, of R i1]
        by (cases "random_chain_word R d i1") (auto simp: random_word_def)
    next
      case (Some nd)
      obtain w i2 where w: "weighted_pick R tab nd i1 = (w, i2)" by fastforce
      have "below (length (in_strs tab)) nd"
        using f Some drop_orders_below [OF _ b] by (auto simp: find_max_order_chain_def)
      from weighted_pick_word [OF this w] show ?thesis
        using l f False Some w random_chain_word_word [OF k, of R i2]
        by (cases "random_chain_word R d i2") (auto simp: random_word_def)
    qed
  qed
  with that show thesis by blast
qed

lemma pick_next_word:
  assumes "0 \<le> order" and "speakable tab d"
  obtains w j where "pick_next order R tab d ws i = Some (w, j)" and "w = [] \<or> w \<in> set (in_strs tab)"
proof -
  have b: "below_all (length (in_strs tab)) (md_chains d)" using assms(2) by (simp add: speakable_def)
  obtain l where l: "last_words order ws = Some l" using last_words_total [OF assms(1)] by blast
  obtain o' i1 where f: "find_max_order_chain order R tab d l i = (o', i1)" by fastforce
  show thesis
  proof (cases o')
    case None
    with l f that [of "[]" i1] show thesis by (simp add: pick_next_def)
  next
    case (Some nd)
    obtain w i2 where w: "weighted_pick R tab nd i1 = (w, i2)" by fastforce
    have "below (length (in_strs tab)) nd"
      using f Some drop_orders_below [OF _ b] by (auto simp: find_max_order_chain_def)
    from weighted_pick_word [OF this w] show thesis using that l f Some w by (simp add: pick_next_def)
  qed
qed

definition fillers :: "string set" where
  "fillers = {stutter, ''.'', ''....''}"

lemma forward_total:
  assumes "0 \<le> order" and "speakable tab d" and "looper \<le> 40"
  shows "\<exists>out j. forward order R tab d looper ws i = Some (out, j) \<and>
    length out \<le> length ws + (42 - looper) \<and> set out \<subseteq> set ws \<union> set (in_strs tab) \<union> fillers"
  using assms(3)
proof (induction "40 - looper" arbitrary: looper ws i)
  case (0 looper ws i)
  then have 40: "looper = 40" by simp
  obtain w j where w: "random_word order R tab d ws i = Some (w, j)" "w = [] \<or> w \<in> set (in_strs tab)"
    by (rule random_word_word [OF assms(1,2)])
  have "is_eol ''....''" by (simp add: is_eol_def)
  then show ?case
    using w by (subst forward.simps) (auto simp: 40 Let_def fillers_def)
next
  case (Suc n looper ws i)
  then have l: "looper < 40" by simp
  obtain w j where w: "random_word order R tab d ws i = Some (w, j)" "w = [] \<or> w \<in> set (in_strs tab)"
    by (rule random_word_word [OF assms(1,2)])
  let ?w = "if w = [] \<or> w = tok_start then (if 6 < length ws then ''.'' else stutter) else w"
  have wf: "?w \<in> set (in_strs tab) \<union> fillers" using w(2) by (auto simp: fillers_def)
  have step: "forward order R tab d looper ws i =
      (if w = tok_end then Some (ws, j)
       else if is_eol ?w then Some (ws @ [?w], j) else forward order R tab d (looper + 1) (ws @ [?w]) j)"
    using w(1) l by (subst forward.simps) (simp add: Let_def)
  show ?case
  proof (cases "w = tok_end \<or> is_eol ?w")
    case True
    then show ?thesis unfolding step using wf l by (cases "w = tok_end") auto
  next
    case False
    have "n = 40 - (looper + 1)" "looper + 1 \<le> 40" using Suc.hyps(2) l by simp_all
    from Suc.hyps(1) [OF this, of "ws @ [?w]" j] obtain out k where
      "forward order R tab d (looper + 1) (ws @ [?w]) j = Some (out, k)"
      "length out \<le> length ws + 1 + (42 - (looper + 1))" "set out \<subseteq> set (ws @ [?w]) \<union> set (in_strs tab) \<union> fillers"
      by auto
    then show ?thesis unfolding step using False wf l by (intro exI [of _ out] exI [of _ k]) auto
  qed
qed

lemma backward_total:
  assumes "0 \<le> order" and "speakable tab d"
  shows "\<exists>out j. backward order R tab d n ws i = Some (out, j) \<and>
    length out \<le> length ws + n \<and> set out \<subseteq> set ws \<union> set (in_strs tab)"
proof (induction n arbitrary: ws i)
  case (Suc n)
  obtain w j where w: "pick_next order R tab d ws i = Some (w, j)" "w = [] \<or> w \<in> set (in_strs tab)"
    by (rule pick_next_word [OF assms])
  show ?case
  proof (cases "w = [] \<or> w = tok_end \<or> w = tok_start")
    case True
    then show ?thesis using w by auto
  next
    case False
    from Suc.IH [of "ws @ [w]" j] show ?thesis using w False by fastforce
  qed
qed simp

definition wordy :: "string \<Rightarrow> bool" where
  "wordy w = (is_sentinel w \<or> clean w)"

definition said_ok :: "case_tables \<Rightarrow> nat \<Rightarrow> string \<Rightarrow> bool" where
  \<comment> \<open>a line of at most \<open>n\<close> tokens without control characters\<close>
  "said_ok U n t = (clean t \<and> (\<exists>ws. length ws \<le> n \<and> t = render_words U ws))"

lemma said_ok_mono: "said_ok U n t \<Longrightarrow> n \<le> m \<Longrightarrow> said_ok U m t"
  unfolding said_ok_def using le_trans by blast

lemma random_message_from_ok:
  assumes "0 \<le> order" and "speakable tab d" and "printing U" and "\<forall>w \<in> set (in_strs tab). wordy w"
    and "\<forall>w \<in> set ws. wordy w"
  shows "\<exists>t j. random_message_from U order R tab d ws i = Some (t, j) \<and> said_ok U (max 1 (length ws) + 42) t"
proof -
  let ?ws = "if ws = [] \<and> map_of (md_chains d) 0 \<noteq> None then [tok_start] else ws"
  obtain out j where out: "forward order R tab d 0 ?ws i = Some (out, j)" "length out \<le> length ?ws + 42"
    "set out \<subseteq> set ?ws \<union> set (in_strs tab) \<union> fillers"
    using forward_total [OF assms(1,2), of 0 R ?ws i] by auto
  have "\<forall>w \<in> fillers. wordy w" by (simp add: fillers_def wordy_def clean_def stutter_def)
  moreover have "wordy tok_start" by (simp add: wordy_def is_sentinel_def)
  ultimately have "\<forall>w \<in> set out. wordy w" using out(3) assms(4,5) by (auto split: if_splits)
  then have "clean (render_words U out)" using assms(3) by (intro render_clean) (auto simp: wordy_def)
  moreover have "length out \<le> max 1 (length ws) + 42" using out(2) by (auto split: if_splits)
  ultimately show ?thesis using out(1) by (auto simp: random_message_from_def said_ok_def)
qed

lemma seed_wordy: "printing U \<Longrightarrow> w \<in> set (seed_words U s) \<Longrightarrow> wordy w"
  using seed_words_clean by (simp add: wordy_def)

lemma talk_message_ok:
  assumes "0 \<le> order" and "speakable tab main" and "speakable tab rv" and "printing U"
    and "\<forall>w \<in> set (in_strs tab). wordy w"
  shows "\<exists>t j. talk_message U order R tab main rv seed i = Some (t, j) \<and>
    said_ok U (max 16 (length (seed_words U seed)) + 42) t"
proof (cases "length (seed_words U seed) = 1 \<and> chain_at tab rv (hd (seed_words U seed)) \<noteq> None")
  case True
  let ?w = "hd (seed_words U seed)"
  obtain bk j where b: "backward order R tab rv 15 [?w] i = Some (bk, j)" "length bk \<le> 16"
    "set bk \<subseteq> set [?w] \<union> set (in_strs tab)"
    using backward_total [OF assms(1,3), of R 15 "[?w]" i] by auto
  have "?w \<in> set (seed_words U seed)" using True by (cases "seed_words U seed") auto
  then have "\<forall>w \<in> set (rev bk). wordy w" using b(3) assms(5) seed_wordy [OF assms(4)] by auto
  from random_message_from_ok [OF assms(1,2,4,5) this, of R j] obtain t k where
    "random_message_from U order R tab main (rev bk) j = Some (t, k)" "said_ok U (max 1 (length bk) + 42) t"
    by auto
  moreover have "talk_message U order R tab main rv seed i = random_message_from U order R tab main (rev bk) j"
    using True b(1) by (simp add: talk_message_def middle_out_def Let_def)
  ultimately show ?thesis
    using said_ok_mono [of U "max 1 (length bk) + 42" t "max 16 (length (seed_words U seed)) + 42"] b(2)
    by (simp add: le_max_iff_disj)
next
  case False
  from random_message_from_ok [OF assms(1,2,4,5), of "seed_words U seed" R i] seed_wordy [OF assms(4)]
  obtain t k where "random_message_from U order R tab main (seed_words U seed) i = Some (t, k)"
    "said_ok U (max 1 (length (seed_words U seed)) + 42) t" by auto
  moreover have "talk_message U order R tab main rv seed i = random_message_from U order R tab main (seed_words U seed) i"
    using False by (auto simp: talk_message_def Let_def)
  ultimately show ?thesis
    using said_ok_mono [of U "max 1 (length (seed_words U seed)) + 42" t "max 16 (length (seed_words U seed)) + 42"] by simp
qed

end
