(* ===== verification/Markov.thy ===== *)
theory Markov
  imports Markov_Talk Conf Cmd Storage Timers Format
begin

text \<open>
  modules/markov/markov.go, the module: its dictionaries in memory and as rows of the store, the hook on
  channel lines, the commands, the idle talker. The data of the module is the record \<open>mk_data\<close>, what the
  saver's value functions read; the module is that with the saver, the settings, the scheduler and the
  idle channels. What is sent is a list of channel and text. The JSON codec of a node and of a legacy
  dictionary is the record \<open>codec\<close>. The value function of a mark is \<open>mk_value\<close>, the row of that name at the
  time of the flush (the source keeps a pointer to the row's node, which no one replaces). \<open>None\<close> is a
  panic. A timer's callback is the channel it talks in. Logging is left out.
\<close>

section \<open>State\<close>

record mk_data =
  mk_order :: int
  mk_words :: interner
  mk_main :: mk_dict
  mk_reverse :: mk_dict
  mk_nicks :: "(string \<times> mk_dict) list"

record idle_state =
  id_last :: int
  id_timer :: "nat option"  \<comment> \<open>\<open>timer\<close> when \<open>set\<close>\<close>

record markov =
  mk_data :: mk_data
  mk_saver :: "mk_data saver"
  mk_idle :: "(string \<times> idle_state) list"
  mk_sched :: "string sched"
  mk_conf :: conf

record codec =
  cd_node :: "node \<Rightarrow> json"
  cd_unnode :: "json \<Rightarrow> node option"
  cd_blob :: "json \<Rightarrow> (string \<times> node) list option"
  cd_raw :: "json \<Rightarrow> json option"  \<comment> \<open>a \<open>RawMessage\<close> marshalled again\<close>

type_synonym said = "(string \<times> string) list"

section \<open>Rows\<close>

definition dict_prefix :: "int \<Rightarrow> string" where
  "dict_prefix order = ''dictionary_'' @ int_str order @ ''_''"

definition store_key :: "int \<Rightarrow> string \<Rightarrow> string" where
  "store_key order name = dict_prefix order @ name"

definition row_name :: "int \<Rightarrow> string \<Rightarrow> string \<Rightarrow> string" where
  "row_name order name w = store_key order name @ '':'' @ w"

definition dict_rows :: "int \<Rightarrow> interner \<Rightarrow> mk_dict \<Rightarrow> (string \<times> node) list" where
  "dict_rows order tab d =
     map (\<lambda>(i, nd). (row_name order (md_name d) (word_str tab i), from_compact tab nd)) (md_chains d)"

definition all_rows :: "mk_data \<Rightarrow> (string \<times> node) list" where
  "all_rows m =
     concat (map (dict_rows (mk_order m) (mk_words m)) (mk_main m # mk_reverse m # map snd (mk_nicks m)))"

definition mk_value :: "codec \<Rightarrow> skey \<Rightarrow> mk_data \<Rightarrow> json option" where
  "mk_value C k m = (if fst k = ''markov'' then map_option (cd_node C) (map_of (all_rows m) (snd k)) else None)"

section \<open>Learning\<close>

definition learn_into :: "int \<Rightarrow> string list \<Rightarrow> interner \<Rightarrow> mk_dict \<Rightarrow> interner \<times> mk_dict" where
  "learn_into order toks tab d =
     (let (tab', ch) = learn_tokens order toks (tab, md_chains d); d' = d\<lparr>md_chains := ch\<rparr>
      in (tab', if length ch \<noteq> length (md_chains d) then rebuild_keys tab' d' else d'))"

definition row_marks :: "int \<Rightarrow> string list \<Rightarrow> mk_dict \<Rightarrow> skey list" where
  "row_marks order toks d = map (\<lambda>win. (''markov'', row_name order (md_name d) (hd win))) (windows order toks)"

definition nick_name :: "case_tables \<Rightarrow> string \<Rightarrow> string" where
  "nick_name U n = ''nick_'' @ lower_text U n"

definition nick_dict :: "case_tables \<Rightarrow> string \<Rightarrow> mk_data \<Rightarrow> mk_dict" where
  "nick_dict U n m =
     (case map_of (mk_nicks m) (nick_name U n) of Some d \<Rightarrow> d | None \<Rightarrow> new_dict (nick_name U n))"

definition learn_msg :: "case_tables \<Rightarrow> string \<Rightarrow> string \<Rightarrow> mk_data \<Rightarrow> skey list \<times> mk_data" where
  \<comment> \<open>the three dictionaries at the end of \<open>onPrivmsg\<close>\<close>
  "learn_msg U who text m =
     (let toks = line_tokens U text; order = mk_order m;
          (tab1, main) = learn_into order toks (mk_words m) (mk_main m);
          (tab2, rv) = learn_into order (rev toks) tab1 (mk_reverse m);
          m1 = m\<lparr>mk_words := tab2, mk_main := main, mk_reverse := rv\<rparr>;
          marks = row_marks order toks (mk_main m) @ row_marks order (rev toks) (mk_reverse m)
      in if who = [] then (marks, m1)
         else (let d = nick_dict U who m1; (tab3, d') = learn_into order toks tab2 d
               in (marks @ row_marks order toks d,
                   m1\<lparr>mk_words := tab3, mk_nicks := AList.update (nick_name U who) d' (mk_nicks m1)\<rparr>)))"

section \<open>The idle talker\<close>

definition idle_for :: "string \<Rightarrow> markov \<Rightarrow> idle_state" where
  "idle_for ch m = (case map_of (mk_idle m) ch of Some st \<Rightarrow> st | None \<Rightarrow> \<lparr>id_last = 0, id_timer = None\<rparr>)"

definition set_idle :: "string \<Rightarrow> idle_state \<Rightarrow> markov \<Rightarrow> markov" where
  "set_idle ch st m = m\<lparr>mk_idle := AList.update ch st (mk_idle m)\<rparr>"

definition is_idle_channel :: "(string \<Rightarrow> bool) \<Rightarrow> string \<Rightarrow> markov \<Rightarrow> bool option" where
  "is_idle_channel fo ch m =
     map_option (\<lambda>l. l \<noteq> [] \<and> ch \<in> set (split_ws l)) (conf_string fo (mk_conf m) ''markov_idle_talk_channels'')"

definition minute :: int where "minute = 60000000000"

definition schedule_idle_talk :: "(string \<Rightarrow> bool) \<Rightarrow> string \<Rightarrow> markov \<Rightarrow> markov option" where
  "schedule_idle_talk fo ch m =
     (let st = idle_for ch m;
          m1 = (case id_timer st of
                  None \<Rightarrow> set_idle ch st m
                | Some t \<Rightarrow> set_idle ch (st\<lparr>id_timer := None\<rparr>) (m\<lparr>mk_sched := snd (unschedule t (mk_sched m))\<rparr>))
      in case (conf_bool fo (mk_conf m) ''markov_idle_talk'', is_idle_channel fo ch m,
               conf_int fo (mk_conf m) ''markov_idle_talk_timeout'') of
           (Some False, _, _) \<Rightarrow> Some m1
         | (Some True, Some False, _) \<Rightarrow> Some m1
         | (Some True, Some True, Some mins) \<Rightarrow>
             (case schedule (id_last st + mins * minute) ch (mk_sched m1) of
                (t, s) \<Rightarrow> Some (set_idle ch (st\<lparr>id_timer := Some t\<rparr>) (m1\<lparr>mk_sched := s\<rparr>)))
         | _ \<Rightarrow> None)"

definition mk_talk :: "case_tables \<Rightarrow> dice \<Rightarrow> string \<Rightarrow> markov \<Rightarrow> (string \<times> nat) option" where
  "mk_talk U R seed m =
     (let d = mk_data m in talk_message U (mk_order d) R (mk_words d) (mk_main d) (mk_reverse d) seed 0)"

definition idle_talk :: "case_tables \<Rightarrow> (string \<Rightarrow> bool) \<Rightarrow> dice \<Rightarrow> int \<Rightarrow> string \<Rightarrow> markov \<Rightarrow> (said \<times> markov) option" where
  \<comment> \<open>the callback of an idle timer\<close>
  "idle_talk U fo R now ch m =
     (let st = idle_for ch m in
      case mk_talk U R [] m of
        None \<Rightarrow> None
      | Some (text, i) \<Rightarrow>
          map_option (\<lambda>m'. ([(ch, if di_pick R i 16 = 0 then ''Lala...'' else text)], m'))
            (schedule_idle_talk fo ch (set_idle ch \<lparr>id_last = now, id_timer = None\<rparr> m)))"

section \<open>Hook and commands\<close>

definition query_talk :: "string \<Rightarrow> string option" where
  \<comment> \<open>\<open>queryTalkRe\<close>, the group\<close>
  "query_talk s =
     (case ci_segs ''talk'' (segs s) of
        None \<Rightarrow> None
      | Some gs \<Rightarrow> (let t = concat (dropWhile ws_seg gs) in if CHR 0x0A \<in> set t then None else Some t))"

definition learn_step :: "case_tables \<Rightarrow> codec \<Rightarrow> string \<Rightarrow> string \<Rightarrow> markov \<Rightarrow> markov" where
  "learn_step U C who text m =
     (case learn_msg U who text (mk_data m) of
        (ks, d) \<Rightarrow> m\<lparr>mk_data := d, mk_saver := fold (\<lambda>k. mark k (mk_value C k)) ks (mk_saver m)\<rparr>)"

definition mk_privmsg :: "case_tables \<Rightarrow> codec \<Rightarrow> (string \<Rightarrow> bool) \<Rightarrow> 'h registry \<Rightarrow> dice \<Rightarrow> int \<Rightarrow> event \<Rightarrow> markov \<Rightarrow>
    (handled \<times> said \<times> markov) option" where
  \<comment> \<open>\<open>onPrivmsg\<close>\<close>
  "mk_privmsg U C fo reg R now ev m =
     (if sender_me ev \<or> msg ev = [] \<or> is_bot (nick (ev_sender ev)) then Some (Handled_none, [], m)
      else if query ev then
        (case query_talk (msg ev) of
           None \<Rightarrow> Some (Handled_none, [], m)
         | Some seed \<Rightarrow> map_option (\<lambda>(t, i). (Replied, [(channel ev, t)], m)) (mk_talk U R seed m))
      else
        (case is_idle_channel fo (channel ev) m of
           None \<Rightarrow> None
         | Some b \<Rightarrow>
             (case (if b then schedule_idle_talk fo (channel ev)
                           (set_idle (channel ev) ((idle_for (channel ev) m)\<lparr>id_last := now\<rparr>) m)
                    else Some m) of
                None \<Rightarrow> None
              | Some m1 \<Rightarrow>
                  (case command_word (msg ev) of
                     Some w \<Rightarrow> if has_cmd reg w then Some (Handled_none, [], m1)
                               else Some (Handled_none, [], learn_step U C (nick (ev_sender ev)) (msg ev) m1)
                   | None \<Rightarrow> Some (Handled_none, [], learn_step U C (nick (ev_sender ev)) (msg ev) m1)))))"

definition cb_talk :: "case_tables \<Rightarrow> dice \<Rightarrow> cmd_data \<Rightarrow> markov \<Rightarrow> (bool \<times> said) option" where
  "cb_talk U R d m =
     (if sender_me (cmd_event d) then Some (False, [])
      else map_option (\<lambda>(t, i). (True, [(channel (cmd_event d), t)])) (mk_talk U R (data d) m))"

definition cb_talk_like :: "case_tables \<Rightarrow> dice \<Rightarrow> cmd_data \<Rightarrow> markov \<Rightarrow> (bool \<times> said) option" where
  "cb_talk_like U R d m =
     (if sender_me (cmd_event d) then Some (False, [])
      else
        (case cut (CHR '' '') (trim_space (data d)) of
           (who, seed, _) \<Rightarrow>
             if who = [] then Some (True, [(channel (cmd_event d), ''Gebruik: !talklike <nick> [seed]'')])
             else
               (case map_of (mk_nicks (mk_data m)) (nick_name U who) of
                  None \<Rightarrow> Some (True, [(channel (cmd_event d), ''Van '' @ who @ '' heb ik nog niks geleerd.'')])
                | Some nd \<Rightarrow>
                    if md_chains nd = []
                    then Some (True, [(channel (cmd_event d), ''Van '' @ who @ '' heb ik nog niks geleerd.'')])
                    else map_option (\<lambda>(t, i). (True, [(channel (cmd_event d), t)]))
                      (random_message U (mk_order (mk_data m)) R (mk_words (mk_data m)) nd seed 0))))"

section \<open>Load and unload\<close>

definition markov_settings :: "(string \<Rightarrow> bool) \<Rightarrow> conf \<Rightarrow> conf" where
  "markov_settings fo c =
     create_string fo ''markov_idle_talk_channels'' []
       (create_int fo ''markov_idle_talk_timeout'' 240
         (create_bool fo ''markov_idle_talk'' False
           (create_int fo ''markov_order'' 3
             (create_string fo ''markov_dictionary'' ''default'' c))))"

definition put_chain :: "nat \<Rightarrow> cnode \<Rightarrow> mk_dict \<Rightarrow> mk_dict" where
  "put_chain i nd d = d\<lparr>md_chains := AList.update i nd (md_chains d)\<rparr>"

definition place_row :: "string \<Rightarrow> string \<Rightarrow> node \<Rightarrow> mk_data \<Rightarrow> mk_data" where
  "place_row name w n m =
     (let (i, tab1) = intern w (mk_words m); (nd, tab2) = to_compact tab1 n; m' = m\<lparr>mk_words := tab2\<rparr> in
      if name = md_name (mk_main m) then m'\<lparr>mk_main := put_chain i nd (mk_main m)\<rparr>
      else if name = md_name (mk_reverse m) then m'\<lparr>mk_reverse := put_chain i nd (mk_reverse m)\<rparr>
      else (let d = (case map_of (mk_nicks m) name of Some d \<Rightarrow> d | None \<Rightarrow> new_dict name)
            in m'\<lparr>mk_nicks := AList.update name (put_chain i nd d) (mk_nicks m)\<rparr>))"

definition load_row :: "codec \<Rightarrow> string \<times> json \<Rightarrow> mk_data option \<Rightarrow> mk_data option" where
  "load_row C = (\<lambda>(key, js) res.
     case res of
       None \<Rightarrow> None
     | Some m \<Rightarrow>
         if \<not> has_prefix (dict_prefix (mk_order m)) key then Some m
         else (case cut (CHR '':'') (trim_prefix (dict_prefix (mk_order m)) key) of
             (name, w, ok) \<Rightarrow>
               if \<not> ok \<or> \<not> (name = md_name (mk_main m) \<or> name = md_name (mk_reverse m) \<or> has_prefix ''nick_'' name)
               then Some m
               else map_option (\<lambda>n. place_row name w n m) (cd_unnode C js)))"

definition migrate_legacy :: "codec \<Rightarrow> (string \<times> json) list \<Rightarrow> mk_data \<Rightarrow> memory \<Rightarrow> (mk_data \<times> memory) option" where
  "migrate_legacy C all m st =
     (let key = store_key (mk_order m) (md_name (mk_main m)) in
      case map_of all key of
        None \<Rightarrow> Some (m, st)
      | Some js \<Rightarrow>
          (case cd_blob C js of
             None \<Rightarrow> None
           | Some legacy \<Rightarrow>
               (let m' = fold (\<lambda>(w, n) m. place_row (md_name (mk_main m)) w n m) legacy m;
                    batch = map (\<lambda>(w, n). (key @ '':'' @ w, Some (cd_node C n))) legacy
                in case mem_put_many ''markov'' batch st of
                     None \<Rightarrow> None
                   | Some st1 \<Rightarrow>
                       (case mem_put ''markov'' (key @ ''_blob_backup'') (cd_raw C js) st1 of
                          None \<Rightarrow> None
                        | Some st2 \<Rightarrow> Some (m', mem_delete ''markov'' key st2)))))"

definition derive_persisted :: "codec \<Rightarrow> mk_data \<Rightarrow> memory \<Rightarrow> (mk_data \<times> memory) option" where
  \<comment> \<open>\<open>deriveReverse\<close> with the rows it writes\<close>
  "derive_persisted C m st =
     (if md_chains (mk_reverse m) \<noteq> [] \<or> md_chains (mk_main m) = [] then Some (m, st)
      else (let rv = (mk_reverse m)\<lparr>md_chains := derive_reverse (md_chains (mk_reverse m)) (md_chains (mk_main m))\<rparr>
            in map_option (Pair (m\<lparr>mk_reverse := rv\<rparr>))
                 (mem_put_many ''markov''
                   (map (\<lambda>(k, n). (k, Some (cd_node C n))) (dict_rows (mk_order m) (mk_words m) rv)) st)))"

definition load_dictionaries :: "codec \<Rightarrow> int \<Rightarrow> string \<Rightarrow> interner \<Rightarrow> memory \<Rightarrow> (mk_data \<times> memory) option" where
  "load_dictionaries C order dictionary tab st =
     (let all = mem_get_all ''markov'' st;
          m0 = \<lparr>mk_order = order, mk_words = tab, mk_main = new_dict dictionary,
                mk_reverse = new_dict (''reverse_'' @ dictionary), mk_nicks = []\<rparr>
      in case fold (load_row C) all (Some m0) of
           None \<Rightarrow> None
         | Some m1 \<Rightarrow>
             (case migrate_legacy C all m1 st of
                None \<Rightarrow> None
              | Some (m2, st2) \<Rightarrow>
                  (case derive_persisted C m2 st2 of
                     None \<Rightarrow> None
                   | Some (m3, st3) \<Rightarrow>
                       (let rb = rebuild_keys (mk_words m3)
                        in Some (m3\<lparr>mk_main := rb (mk_main m3), mk_reverse := rb (mk_reverse m3),
                                    mk_nicks := map (\<lambda>(n, d). (n, rb d)) (mk_nicks m3)\<rparr>, st3)))))"

definition load_markov :: "case_tables \<Rightarrow> codec \<Rightarrow> (string \<Rightarrow> bool) \<Rightarrow> interner \<Rightarrow> conf \<Rightarrow> mk_data saver \<Rightarrow> string sched \<Rightarrow>
    memory \<Rightarrow> (markov \<times> memory) option" where
  \<comment> \<open>\<open>Load\<close>; \<open>None\<close> is the error as well\<close>
  "load_markov U C fo tab c sv s st =
     (let c' = markov_settings fo c in
      case (conf_int fo c' ''markov_order'', conf_string fo c' ''markov_dictionary'') of
        (Some order, Some name) \<Rightarrow>
          map_option (\<lambda>(d, st'). (\<lparr>mk_data = d, mk_saver = sv, mk_idle = [], mk_sched = s, mk_conf = c'\<rparr>, st'))
            (load_dictionaries C order (lower_text U (trim_space name)) tab st)
      | _ \<Rightarrow> None)"

definition unload_markov :: "markov \<Rightarrow> markov" where
  "unload_markov m =
     m\<lparr>mk_sched := fold (\<lambda>(ch, st) s. case id_timer st of None \<Rightarrow> s | Some t \<Rightarrow> snd (unschedule t s))
          (mk_idle m) (mk_sched m)\<rparr>"

definition register_markov :: "'h \<Rightarrow> 'h \<Rightarrow> 'h registry \<Rightarrow> 'h registry" where
  "register_markov talk like r =
     register_default ''markov'' 1 False talk (register_default ''markov'' 0 True talk
       (register ''markov'' ''talklike'' like (register ''markov'' ''talk'' talk r)))"

end
