(* ===== verification/Markov_Run.thy ===== *)
theory Markov_Run
  imports Markov
begin

text \<open>
  Runs of the module of \<open>Markov\<close> from its load on an empty store: what it has learned after any chatter,
  that it answers every request without a panic and without a control character, that the word caches
  are current and that every idle channel has at most one timer.
\<close>

section \<open>Runs\<close>

fun fire_idle :: "case_tables \<Rightarrow> (string \<Rightarrow> bool) \<Rightarrow> (nat \<Rightarrow> dice) \<Rightarrow> int \<Rightarrow> string timer list \<Rightarrow> markov \<Rightarrow>
    (said \<times> markov) option" where
  "fire_idle U fo Rs now [] m = Some ([], m)"
| "fire_idle U fo Rs now (t # ts) m =
     (case fn t of
        None \<Rightarrow> fire_idle U fo Rs now ts m
      | Some ch \<Rightarrow>
          (case idle_talk U fo (Rs (length ts)) now ch m of
             None \<Rightarrow> None
           | Some (out, m1) \<Rightarrow> map_option (\<lambda>(outs, m2). (out @ outs, m2)) (fire_idle U fo Rs now ts m1)))"

definition idle_pass :: "case_tables \<Rightarrow> (string \<Rightarrow> bool) \<Rightarrow> (nat \<Rightarrow> dice) \<Rightarrow> int \<Rightarrow> markov \<Rightarrow> (said \<times> markov) option" where
  \<comment> \<open>a pass of the scheduler over the module's timers\<close>
  "idle_pass U fo Rs now m =
     (case collect now (mk_sched m) of (ts, s) \<Rightarrow> fire_idle U fo Rs now ts (m\<lparr>mk_sched := s\<rparr>))"

datatype mk_op =
    Hear dice int event
  | Bang dice cmd_data
  | Like dice cmd_data
  | Pass "nat \<Rightarrow> dice" int
  | Retune string string

fun mk_step :: "case_tables \<Rightarrow> codec \<Rightarrow> (string \<Rightarrow> bool) \<Rightarrow> 'h registry \<Rightarrow> mk_op \<Rightarrow> markov \<Rightarrow> (said \<times> markov) option" where
  "mk_step U C fo reg (Hear R now ev) m = map_option (\<lambda>(h, out, m'). (out, m')) (mk_privmsg U C fo reg R now ev m)"
| "mk_step U C fo reg (Bang R d) m = map_option (\<lambda>(b, out). (out, m)) (cb_talk U R d m)"
| "mk_step U C fo reg (Like R d) m = map_option (\<lambda>(b, out). (out, m)) (cb_talk_like U R d m)"
| "mk_step U C fo reg (Pass Rs now) m = idle_pass U fo Rs now m"
| "mk_step U C fo reg (Retune name v) m =
     Some ([], case conf_set fo name v (mk_conf m) of Inl e \<Rightarrow> m | Inr (_, c) \<Rightarrow> m\<lparr>mk_conf := c\<rparr>)"

fun mk_run :: "case_tables \<Rightarrow> codec \<Rightarrow> (string \<Rightarrow> bool) \<Rightarrow> 'h registry \<Rightarrow> mk_op list \<Rightarrow> markov \<Rightarrow> (said \<times> markov) option" where
  "mk_run U C fo reg [] m = Some ([], m)"
| "mk_run U C fo reg (op # ops) m =
     (case mk_step U C fo reg op m of
        None \<Rightarrow> None
      | Some (out, m1) \<Rightarrow> map_option (\<lambda>(outs, m2). (out @ outs, m2)) (mk_run U C fo reg ops m1))"

definition hears :: "'h registry \<Rightarrow> event \<Rightarrow> bool" where
  \<comment> \<open>the lines that are learned: chatter of others in channels that is no command of the registry\<close>
  "hears reg ev =
     (\<not> sender_me ev \<and> msg ev \<noteq> [] \<and> \<not> is_bot (nick (ev_sender ev)) \<and> \<not> query ev \<and>
      (case command_word (msg ev) of Some w \<Rightarrow> \<not> has_cmd reg w | None \<Rightarrow> True))"

fun heard_op :: "'h registry \<Rightarrow> mk_op \<Rightarrow> (string \<times> string) list" where
  "heard_op reg (Hear R now ev) = (if hears reg ev then [(nick (ev_sender ev), msg ev)] else [])"
| "heard_op reg _ = []"

definition heard :: "'h registry \<Rightarrow> mk_op list \<Rightarrow> (string \<times> string) list" where
  "heard reg ops = concat (map (heard_op reg) ops)"

section \<open>What a dictionary holds\<close>

definition cached :: "interner \<Rightarrow> mk_dict \<Rightarrow> bool" where
  "cached T d = (md_keys d = md_keys (rebuild_keys T d))"

definition holds :: "interner \<Rightarrow> string list list \<Rightarrow> mk_dict \<Rightarrow> bool" where
  "holds T ws d =
     (md_chains d = insert_all (once (map (ids_of T) ws)) \<and> (\<forall>w \<in> set ws. known T w) \<and> cached T d)"

lemma rebuild_chains [simp]: "md_chains (rebuild_keys T d) = md_chains d" "md_name (rebuild_keys T d) = md_name d"
  by (simp_all add: rebuild_keys_def)

lemma rebuild_cached [simp]: "cached T (rebuild_keys T d)"
  by (simp add: cached_def rebuild_keys_def)

lemma holds_new: "holds T [] (new_dict n)"
  by (simp add: holds_def new_dict_def cached_def rebuild_keys_def insert_all_def once_def)

lemma new_dict_name [simp]: "md_name (new_dict n) = n"
  by (simp add: new_dict_def)

lemma holds_below: "in_ok T \<Longrightarrow> holds T ws d \<Longrightarrow> below_all (length (in_strs T)) (md_chains d)"
  using insert_all_below [of "once (map (ids_of T) ws)" "length (in_strs T)"] ids_below
  by (auto simp: holds_def once_def)

lemma holds_keys: "in_ok T \<Longrightarrow> holds T ws d \<Longrightarrow> set (md_keys d) \<subseteq> set (in_strs T)"
  using holds_below [of T ws d]
  by (auto simp: holds_def cached_def rebuild_keys_def below_all_def word_str_def intro!: nth_mem)

lemma holds_speakable: "in_ok T \<Longrightarrow> holds T ws d \<Longrightarrow> speakable T d"
  by (simp add: speakable_def holds_below holds_keys)

lemma holds_extends:
  assumes "in_ok T" and "in_ok T'" and "extends T T'" and "holds T ws d"
  shows "holds T' ws d"
proof -
  have "ids_of T' w = ids_of T w \<and> known T' w" if "w \<in> set ws" for w
    using ids_of_extends [OF assms(1-3)] assms(4) that by (simp add: holds_def)
  then have m: "map (ids_of T') ws = map (ids_of T) ws" and k: "\<forall>w \<in> set ws. known T' w" by simp_all
  have "word_str T' i = word_str T i" if "i \<in> fst ` set (md_chains d)" for i
    using that holds_below [OF assms(1,4)] extends_str [OF assms(3)] by (auto simp: below_all_def word_str_def)
  then have "map (word_str T') (filter P (map fst (md_chains d))) = map (word_str T) (filter P (map fst (md_chains d)))" for P
    by (intro map_cong) auto
  then have "md_keys (rebuild_keys T' d) = md_keys (rebuild_keys T d)"
    unfolding rebuild_keys_def by (simp only: mk_dict.simps)
  then show ?thesis using assms(4) m k by (simp only: holds_def cached_def)
qed

lemma top_path_keys: "\<exists>new. map fst (top_path k is dic) = map fst dic @ new"
proof (cases "is")
  case (Cons i js)
  have "\<exists>new. map fst (AList.update i nd dic) = map fst dic @ new" for nd
    by (induction dic) auto
  then show ?thesis by (simp add: Cons)
qed simp

lemma fold_top_path_keys: "\<exists>new. map fst (fold (\<lambda>w. top_path 1 (f w)) ws dic) = map fst dic @ new"
proof (induction ws arbitrary: dic)
  case (Cons w ws)
  show ?case using Cons [of "top_path 1 (f w) dic"] top_path_keys [of 1 "f w" dic] by auto
qed simp

lemma intern_words: "intern w tab = (i, tab') \<Longrightarrow> set (in_strs tab') \<subseteq> insert w (set (in_strs tab))"
  by (auto simp: intern_def Let_def split: option.splits)

lemma intern_all_words: "intern_all ws tab = (is, tab') \<Longrightarrow> set (in_strs tab') \<subseteq> set ws \<union> set (in_strs tab)"
proof (induction ws arbitrary: tab "is")
  case (Cons w ws)
  obtain i tab1 where i: "intern w tab = (i, tab1)" by fastforce
  obtain js where "intern_all ws tab1 = (js, tab')" using Cons.prems i by (auto split: prod.splits)
  from Cons.IH [OF this] intern_words [OF i] show ?case by auto
qed simp

lemma learn_windows_words:
  "fold learn_window wins (tab, dic) = (tab', dic') \<Longrightarrow>
    set (in_strs tab') \<subseteq> \<Union> (set ` set wins) \<union> set (in_strs tab)"
proof (induction wins arbitrary: tab dic)
  case (Cons w wins)
  obtain js tab1 where js: "intern_all w tab = (js, tab1)" by fastforce
  have "fold learn_window wins (tab1, top_path 1 js dic) = (tab', dic')"
    using Cons.prems js by (simp add: learn_window_first)
  from Cons.IH [OF this] intern_all_words [OF js] show ?case by auto
qed simp

lemma windows_words: "w \<in> set (windows order toks) \<Longrightarrow> set w \<subseteq> set toks"
  by (auto simp: windows_all dest: in_set_takeD in_set_dropD split: if_splits)

lemma learn_into_holds:
  assumes "in_ok T" and "holds T ws d" and "learn_into order toks T d = (T', d')"
  shows "in_ok T' \<and> extends T T' \<and> holds T' (ws @ windows order toks) d' \<and> md_name d' = md_name d \<and>
    set (in_strs T') \<subseteq> set toks \<union> set (in_strs T)"
proof -
  let ?wins = "windows order toks"
  obtain S where S: "fold learn_window ?wins (T, md_chains d) = (S, fold (\<lambda>w. top_path 1 (ids_of S w)) ?wins (md_chains d))"
    "in_ok S" "extends T S" "\<forall>w \<in> set ?wins. known S w"
    using learn_fold [OF assms(1), of ?wins "md_chains d"] by blast
  let ?ch = "fold (\<lambda>w. top_path 1 (ids_of S w)) ?wins (md_chains d)"
  let ?d = "d\<lparr>md_chains := ?ch\<rparr>"
  have r: "T' = S" "d' = (if length ?ch \<noteq> length (md_chains d) then rebuild_keys S ?d else ?d)"
    using assms(3) S(1) unfolding learn_into_def learn_tokens_def Let_def by (auto split: if_splits)
  have h: "holds S ws d" by (rule holds_extends [OF assms(1) S(2,3) assms(2)])
  have ch: "?ch = insert_all (once (map (ids_of S) (ws @ ?wins)))"
    using h by (simp add: holds_def insert_all_def once_def fold_map comp_def)
  have "cached S d'"
  proof (cases "length ?ch = length (md_chains d)")
    case True
    obtain new where "map fst ?ch = map fst (md_chains d) @ new" using fold_top_path_keys by blast
    then have "map fst ?ch = map fst (md_chains d)" using True by (metis append_Nil2 append_eq_conv_conj length_map take_all_iff order_refl)
    then show ?thesis using h True by (simp add: r holds_def cached_def rebuild_keys_def)
  qed (simp add: r)
  moreover have "md_chains d' = ?ch" "md_name d' = md_name d" by (simp_all add: r)
  moreover have "set (in_strs S) \<subseteq> set toks \<union> set (in_strs T)"
    using learn_windows_words [OF S(1)] windows_words [of _ order toks] by blast
  ultimately show ?thesis using S(2-4) h ch r(1) by (auto simp: holds_def)
qed

section \<open>The data\<close>

type_synonym chat_log = "(string \<times> string) list"  \<comment> \<open>nick and line\<close>

definition lines_of :: "case_tables \<Rightarrow> chat_log \<Rightarrow> string list list" where
  "lines_of U log = map (line_tokens U \<circ> snd) log"

definition by_nick :: "case_tables \<Rightarrow> string \<Rightarrow> chat_log \<Rightarrow> chat_log" where
  \<comment> \<open>the lines of the talker whose dictionary has this name\<close>
  "by_nick U n log = filter (\<lambda>(who, text). who \<noteq> [] \<and> nick_name U who = n) log"

definition data_inv :: "case_tables \<Rightarrow> chat_log \<Rightarrow> mk_data \<Rightarrow> bool" where
  "data_inv U log d \<longleftrightarrow>
     0 \<le> mk_order d \<and> in_ok (mk_words d) \<and> (\<forall>w \<in> set (in_strs (mk_words d)). wordy w) \<and>
     holds (mk_words d) (all_windows (mk_order d) (lines_of U log)) (mk_main d) \<and>
     holds (mk_words d) (all_windows (mk_order d) (map rev (lines_of U log))) (mk_reverse d) \<and>
     wf_map (mk_nicks d) \<and>
     (\<forall>n. case map_of (mk_nicks d) n of
        None \<Rightarrow> by_nick U n log = []
      | Some nd \<Rightarrow> md_name nd = n \<and> holds (mk_words d) (all_windows (mk_order d) (lines_of U (by_nick U n log))) nd)"

lemma data_invD:
  assumes "data_inv U log d"
  shows "0 \<le> mk_order d" and "in_ok (mk_words d)" and "\<forall>w \<in> set (in_strs (mk_words d)). wordy w"
    and "holds (mk_words d) (all_windows (mk_order d) (lines_of U log)) (mk_main d)"
    and "holds (mk_words d) (all_windows (mk_order d) (map rev (lines_of U log))) (mk_reverse d)"
    and "wf_map (mk_nicks d)"
    and "map_of (mk_nicks d) n = None \<Longrightarrow> by_nick U n log = []"
    and "map_of (mk_nicks d) n = Some nd \<Longrightarrow>
      md_name nd = n \<and> holds (mk_words d) (all_windows (mk_order d) (lines_of U (by_nick U n log))) nd"
  using assms unfolding data_inv_def by (auto dest: spec [of _ n])

lemma all_windows_append: "all_windows order (ls @ [l]) = all_windows order ls @ windows order l"
  by (simp add: all_windows_def)

lemma tokens_wordy: "printing U \<Longrightarrow> w \<in> set (line_tokens U s) \<Longrightarrow> wordy w"
  by (rule line_tokens_shape [of U s]) (auto simp: wordy_def is_sentinel_def)

lemma learn_msg_inv:
  assumes inv: "data_inv U log d" and U: "printing U" and l: "learn_msg U who text d = (ks, d')"
  shows "data_inv U (log @ [(who, text)]) d' \<and> mk_order d' = mk_order d"
proof -
  let ?toks = "line_tokens U text" and ?ord = "mk_order d"
  note D = data_invD [OF inv]
  obtain tab1 main where a: "learn_into ?ord ?toks (mk_words d) (mk_main d) = (tab1, main)" by fastforce
  obtain tab2 rv where b: "learn_into ?ord (rev ?toks) tab1 (mk_reverse d) = (tab2, rv)" by fastforce
  note A = learn_into_holds [OF D(2,4) a]
  have r0: "holds tab1 (all_windows ?ord (map rev (lines_of U log))) (mk_reverse d)"
    using holds_extends [OF D(2) _ _ D(5)] A by blast
  note B = learn_into_holds [OF _ r0 b]
  have B': "in_ok tab2" "extends tab1 tab2" "set (in_strs tab2) \<subseteq> set ?toks \<union> set (in_strs tab1)"
    "holds tab2 (all_windows ?ord (map rev (lines_of U log)) @ windows ?ord (rev ?toks)) rv"
    using B A by auto
  define nd where "nd = nick_dict U who (d\<lparr>mk_words := tab2, mk_main := main, mk_reverse := rv\<rparr>)"
  obtain tab3 nd' where c: "learn_into ?ord ?toks tab2 nd = (tab3, nd')" by fastforce
  define T where "T = (if who = [] then tab2 else tab3)"
  have e2: "extends (mk_words d) tab2" using A B'(2) extends_trans by blast
  have nd: "nd = (case map_of (mk_nicks d) (nick_name U who) of Some d \<Rightarrow> d | None \<Rightarrow> new_dict (nick_name U who))"
    by (simp add: nd_def nick_dict_def)
  have n0: "holds tab2 (all_windows ?ord (lines_of U (by_nick U (nick_name U who) log))) nd \<and> md_name nd = nick_name U who"
  proof (cases "map_of (mk_nicks d) (nick_name U who)")
    case None
    then show ?thesis using D(7) [OF None] holds_new [of tab2] by (simp add: nd lines_of_def all_windows_def)
  next
    case (Some e)
    then show ?thesis using D(8) [OF Some] holds_extends [OF D(2) B'(1) e2] by (simp add: nd)
  qed
  note N = learn_into_holds [OF B'(1) conjunct1 [OF n0] c]
  have T: "in_ok T" "extends tab2 T" "set (in_strs T) \<subseteq> set ?toks \<union> set (in_strs tab2)"
    using N B'(1) by (auto simp: T_def)
  have d': "mk_order d' = ?ord" "mk_words d' = T" "mk_main d' = main" "mk_reverse d' = rv"
    "mk_nicks d' = (if who = [] then mk_nicks d else AList.update (nick_name U who) nd' (mk_nicks d))"
    using l a b c nd_def by (auto simp: learn_msg_def Let_def T_def split: if_splits)
  have main: "holds T (all_windows ?ord (lines_of U (log @ [(who, text)]))) main"
    using holds_extends [of tab1 T] A T B'(2) extends_trans [of tab1 tab2 T]
    by (simp add: lines_of_def all_windows_append)
  have rv: "holds T (all_windows ?ord (map rev (lines_of U (log @ [(who, text)])))) rv"
    using holds_extends [OF B'(1) T(1,2) B'(4)] by (simp add: lines_of_def all_windows_append)
  have words: "\<forall>w \<in> set (in_strs T). wordy w"
    using T(3) B'(3) A D(3) tokens_wordy [OF U] by blast
  have new: "by_nick U n (log @ [(who, text)]) = by_nick U n log @ (if who \<noteq> [] \<and> nick_name U who = n then [(who, text)] else [])" for n
    by (simp add: by_nick_def)
  have "case map_of (mk_nicks d') n of
        None \<Rightarrow> by_nick U n (log @ [(who, text)]) = []
      | Some e \<Rightarrow> md_name e = n \<and> holds T (all_windows ?ord (lines_of U (by_nick U n (log @ [(who, text)])))) e" for n
  proof (cases "who \<noteq> [] \<and> nick_name U who = n")
    case True
    then have "map_of (mk_nicks d') n = Some nd'" "T = tab3" by (simp_all add: d' T_def)
    then show ?thesis using N n0 True by (simp add: new lines_of_def all_windows_append)
  next
    case False
    then have "map_of (mk_nicks d') n = map_of (mk_nicks d) n" "by_nick U n (log @ [(who, text)]) = by_nick U n log"
      by (auto simp: d' new)
    then show ?thesis
      using D(7) [of n] D(8) [of n] holds_extends [OF D(2) T(1) extends_trans [OF e2 T(2)]] by (auto split: option.split)
  qed
  then show ?thesis
    using D(1,6) T(1) main rv words unfolding data_inv_def d'(1-4) by (auto simp: d'(5))
qed

lemma mk_talk_ok:
  assumes "data_inv U log (mk_data m)" and "printing U"
  shows "\<exists>t i. mk_talk U R seed m = Some (t, i) \<and> clean t"
proof -
  note D = data_invD [OF assms(1)]
  from talk_message_ok [OF D(1) holds_speakable [OF D(2,4)] holds_speakable [OF D(2,5)] assms(2) D(3)]
  show ?thesis by (fastforce simp: mk_talk_def said_ok_def Let_def)
qed

section \<open>The idle talker\<close>

definition idle_tag :: "markov \<Rightarrow> string \<Rightarrow> nat option" where
  "idle_tag m ch = (case map_of (mk_idle m) ch of Some st \<Rightarrow> id_timer st | None \<Rightarrow> None)"

definition idle_kinds :: "conf \<Rightarrow> bool" where
  "idle_kinds c =
     (has_kind c ''markov_idle_talk_channels'' Kind_string \<and> has_kind c ''markov_idle_talk'' Kind_bool \<and>
      has_kind c ''markov_idle_talk_timeout'' Kind_int)"

definition idle_ok :: "string set \<Rightarrow> markov \<Rightarrow> bool" where
  \<comment> \<open>timers match the entries of the channels, but for those whose timers a pass has collected\<close>
  "idle_ok D m = (sched_timers.table_ok id (\<lambda>k. if k \<in> D then None else idle_tag m k) (mk_sched m) \<and> wf_map (mk_idle m))"

lemma set_idle_simps [simp]:
  "mk_data (set_idle ch st m) = mk_data m" "mk_conf (set_idle ch st m) = mk_conf m"
  "mk_sched (set_idle ch st m) = mk_sched m" "mk_saver (set_idle ch st m) = mk_saver m"
  "idle_tag (set_idle ch st m) k = (if k = ch then id_timer st else idle_tag m k)"
  "idle_for ch (set_idle ch st m) = st"
  "wf_map (mk_idle (set_idle ch st m)) \<longleftrightarrow> wf_map (AList.update ch st (mk_idle m))"
  by (simp_all add: set_idle_def idle_tag_def idle_for_def)

lemma idle_for_timer: "id_timer (idle_for ch m) = idle_tag m ch"
  by (simp add: idle_for_def idle_tag_def split: option.split)

lemma idle_tag_sched [simp]: "idle_tag (m\<lparr>mk_sched := s\<rparr>) = idle_tag m"
  by (simp add: idle_tag_def fun_eq_iff)

lemma schedule_idle_ok:
  assumes ok: "idle_ok D m" and k: "idle_kinds (mk_conf m)" and D: "ch \<notin> D"
  shows "\<exists>m'. schedule_idle_talk fo ch m = Some m' \<and> idle_ok D m' \<and> mk_data m' = mk_data m \<and> mk_conf m' = mk_conf m"
proof -
  let ?st = "idle_for ch m"
  define m1 where "m1 = (case id_timer ?st of
      None \<Rightarrow> set_idle ch ?st m
    | Some t \<Rightarrow> set_idle ch (?st\<lparr>id_timer := None\<rparr>) (m\<lparr>mk_sched := snd (unschedule t (mk_sched m))\<rparr>))"
  have wf: "wf_map (mk_idle m)" and t: "sched_timers.table_ok id (\<lambda>k. if k \<in> D then None else idle_tag m k) (mk_sched m)"
    using ok by (simp_all add: idle_ok_def)
  have m1: "mk_data m1 = mk_data m" "mk_conf m1 = mk_conf m" "wf_map (mk_idle m1)"
    using wf by (auto simp: m1_def set_idle_def split: option.split)
  have tag1: "idle_tag m1 = (idle_tag m)(ch := None)"
    by (auto simp: m1_def fun_eq_iff idle_for_timer split: option.split)
  have t1: "sched_timers.table_ok id (\<lambda>k. if k \<in> D then None else idle_tag m1 k) (mk_sched m1)"
  proof (cases "idle_tag m ch")
    case None
    then have "idle_tag m1 = idle_tag m" "mk_sched m1 = mk_sched m" using tag1 by (auto simp: m1_def idle_for_timer)
    then show ?thesis using t by (simp cong: if_cong)
  next
    case (Some n)
    obtain b s where u: "unschedule n (mk_sched m) = (b, s)" by fastforce
    have "(\<lambda>k. if k \<in> D then None else idle_tag m k) ch = Some n" using Some D by simp
    from conjunct1 [OF sched_timers.table_stop [OF t this u]]
    have "sched_timers.table_ok id ((\<lambda>k. if k \<in> D then None else idle_tag m k)(ch := None)) s" by simp
    moreover have "(\<lambda>k. if k \<in> D then None else idle_tag m k)(ch := None) = (\<lambda>k. if k \<in> D then None else idle_tag m1 k)"
      using tag1 by auto
    ultimately show ?thesis using Some u by (simp add: m1_def idle_for_timer)
  qed
  have ok1: "idle_ok D m1" using t1 m1(3) by (simp add: idle_ok_def)
  obtain chans on mins where c: "conf_string fo (mk_conf m) ''markov_idle_talk_channels'' = Some chans"
    "conf_bool fo (mk_conf m) ''markov_idle_talk'' = Some on"
    "conf_int fo (mk_conf m) ''markov_idle_talk_timeout'' = Some mins"
    using k setting_string setting_bool setting_int unfolding idle_kinds_def by metis
  obtain b where b: "is_idle_channel fo ch m = Some b" using c(1) by (simp add: is_idle_channel_def)
  have unfolded: "schedule_idle_talk fo ch m =
      (if on \<and> b then (case schedule (id_last ?st + mins * minute) ch (mk_sched m1) of
           (t, s) \<Rightarrow> Some (set_idle ch (?st\<lparr>id_timer := Some t\<rparr>) (m1\<lparr>mk_sched := s\<rparr>)))
       else Some m1)"
    unfolding schedule_idle_talk_def Let_def m1_def [symmetric] c b by (cases on; cases b) simp_all
  show ?thesis
  proof (cases "on \<and> b")
    case False
    then show ?thesis unfolding unfolded using ok1 m1 by auto
  next
    case True
    obtain n s where s: "schedule (id_last ?st + mins * minute) ch (mk_sched m1) = (n, s)" by fastforce
    then have "after 0 (id_last ?st + mins * minute) (id ch) (mk_sched m1) = (n, s)" by (simp add: after_def)
    from sched_timers.table_start [OF t1 _ this] tag1 D
    have "sched_timers.table_ok id ((\<lambda>k. if k \<in> D then None else idle_tag m1 k)(ch \<mapsto> n)) s" by (simp add: id_def)
    moreover have "(\<lambda>k. if k \<in> D then None else idle_tag m1 k)(ch \<mapsto> n) =
        (\<lambda>k. if k \<in> D then None else idle_tag (set_idle ch (?st\<lparr>id_timer := Some n\<rparr>) (m1\<lparr>mk_sched := s\<rparr>)) k)"
      using D by auto
    ultimately show ?thesis unfolding unfolded using True s m1 by (simp add: idle_ok_def)
  qed
qed

lemma idle_talk_ok:
  assumes ok: "idle_ok D m" and k: "idle_kinds (mk_conf m)" and d: "data_inv U log (mk_data m)" and U: "printing U"
    and D: "ch \<in> D \<or> idle_tag m ch = None"
  shows "\<exists>out m'. idle_talk U fo R now ch m = Some (out, m') \<and> idle_ok (D - {ch}) m' \<and> mk_data m' = mk_data m \<and>
    mk_conf m' = mk_conf m \<and> (\<forall>(c, t) \<in> set out. clean t)"
proof -
  let ?m = "set_idle ch \<lparr>id_last = now, id_timer = None\<rparr> m"
  have "(\<lambda>k. if k \<in> D - {ch} then None else idle_tag ?m k) = (\<lambda>k. if k \<in> D then None else idle_tag m k)"
    using D by auto
  then have "idle_ok (D - {ch}) ?m" using ok unfolding idle_ok_def by simp
  from schedule_idle_ok [OF this, of ch fo] k obtain m' where
    m': "schedule_idle_talk fo ch ?m = Some m'" "idle_ok (D - {ch}) m'" "mk_data m' = mk_data m" "mk_conf m' = mk_conf m"
    by auto
  obtain t i where t: "mk_talk U R [] m = Some (t, i)" "clean t" using mk_talk_ok [OF d U] by blast
  have "clean ''Lala...''" by (simp add: clean_def)
  with m' t show ?thesis by (simp add: idle_talk_def)
qed

lemma fire_idle_ok:
  assumes "idle_ok (\<Union> (set_option ` fn ` set ts)) m" and "idle_kinds (mk_conf m)" and "data_inv U log (mk_data m)"
    and "printing U" and "distinct (map fn ts)"
  shows "\<exists>out m'. fire_idle U fo Rs now ts m = Some (out, m') \<and> idle_ok {} m' \<and> mk_data m' = mk_data m \<and>
    mk_conf m' = mk_conf m \<and> (\<forall>(c, t) \<in> set out. clean t)"
  using assms
proof (induction ts arbitrary: m)
  case (Cons t ts)
  show ?case
  proof (cases "fn t")
    case None
    then show ?thesis using Cons by simp
  next
    case (Some ch)
    let ?D = "\<Union> (set_option ` fn ` set (t # ts))"
    have "ch \<in> ?D" using Some by simp
    then obtain out m1 where m1: "idle_talk U fo (Rs (length ts)) now ch m = Some (out, m1)" "idle_ok (?D - {ch}) m1"
      "mk_data m1 = mk_data m" "mk_conf m1 = mk_conf m" "\<forall>(c, t) \<in> set out. clean t"
      using idle_talk_ok [OF Cons.prems(1-4), of ch fo "Rs (length ts)" now] by blast
    have "ch \<notin> \<Union> (set_option ` fn ` set ts)" using Cons.prems(5) Some by force
    then have "?D - {ch} = \<Union> (set_option ` fn ` set ts)" using Some by auto
    with m1(2) have "idle_ok (\<Union> (set_option ` fn ` set ts)) m1" by simp
    from Cons.IH [OF this] Cons.prems m1(3,4) obtain outs m2 where
      "fire_idle U fo Rs now ts m1 = Some (outs, m2)" "idle_ok {} m2" "mk_data m2 = mk_data m" "mk_conf m2 = mk_conf m"
      "\<forall>(c, t) \<in> set outs. clean t"
      by auto
    with m1 Some show ?thesis by auto
  qed
qed simp

lemma idle_pass_ok:
  assumes "idle_ok {} m" and "idle_kinds (mk_conf m)" and "data_inv U log (mk_data m)" and "printing U"
  shows "\<exists>out m'. idle_pass U fo Rs now m = Some (out, m') \<and> idle_ok {} m' \<and> mk_data m' = mk_data m \<and>
    mk_conf m' = mk_conf m \<and> (\<forall>(c, t) \<in> set out. clean t)"
proof -
  obtain ts s where c: "collect now (mk_sched m) = (ts, s)" by fastforce
  have t: "sched_timers.table_ok id (idle_tag m) (mk_sched m)" and wf: "wf_map (mk_idle m)"
    using assms(1) by (simp_all add: idle_ok_def)
  note K = table_collected [OF t c]
  have "Some k \<in> fn ` set ts \<longleftrightarrow> k \<in> \<Union> (set_option ` fn ` set ts)" for k
    using K by (force simp: image_iff)
  then have "idle_ok (\<Union> (set_option ` fn ` set ts)) (m\<lparr>mk_sched := s\<rparr>)" using K wf by (simp add: idle_ok_def cong: if_cong)
  from fire_idle_ok [OF this] assms(2-4) K show ?thesis by (simp add: idle_pass_def c)
qed

section \<open>The module\<close>

definition mk_inv :: "case_tables \<Rightarrow> chat_log \<Rightarrow> markov \<Rightarrow> bool" where
  "mk_inv U log m = (data_inv U log (mk_data m) \<and> idle_kinds (mk_conf m) \<and> idle_ok {} m)"

fun op_clean :: "mk_op \<Rightarrow> bool" where
  \<comment> \<open>the argument of \<open>!talklike\<close>, a part of which is echoed\<close>
  "op_clean (Like R d) = clean (data d)"
| "op_clean _ = True"

lemma learn_step_inv:
  assumes "mk_inv U log m" and "printing U"
  shows "mk_inv U (log @ [(who, t)]) (learn_step U C who t m) \<and>
    mk_order (mk_data (learn_step U C who t m)) = mk_order (mk_data m)"
proof -
  obtain ks d where l: "learn_msg U who t (mk_data m) = (ks, d)" by fastforce
  have "idle_tag (learn_step U C who t m) = idle_tag m" by (simp add: learn_step_def l idle_tag_def fun_eq_iff)
  then show ?thesis
    using assms learn_msg_inv [of U log, OF _ assms(2) l] by (simp add: mk_inv_def idle_ok_def learn_step_def l)
qed

lemma privmsg_ok:
  assumes "mk_inv U log m" and "printing U"
  shows "\<exists>h out m'. mk_privmsg U C fo reg R now ev m = Some (h, out, m') \<and>
    mk_inv U (log @ heard_op reg (Hear R now ev)) m' \<and> mk_order (mk_data m') = mk_order (mk_data m) \<and>
    (\<forall>(c, t) \<in> set out. clean t)"
proof -
  have I: "data_inv U log (mk_data m)" "idle_kinds (mk_conf m)" "idle_ok {} m" using assms(1) by (simp_all add: mk_inv_def)
  let ?skip = "sender_me ev \<or> msg ev = [] \<or> is_bot (nick (ev_sender ev))"
  show ?thesis
  proof (cases "?skip \<or> query ev")
    case True
    then have h: "\<not> hears reg ev" by (auto simp: hears_def)
    show ?thesis
    proof (cases "?skip \<or> query_talk (msg ev) = None")
      case True
      then show ?thesis using \<open>?skip \<or> query ev\<close> assms(1) by (auto simp: mk_privmsg_def h)
    next
      case False
      then obtain seed where "query_talk (msg ev) = Some seed" by blast
      then show ?thesis
        using False True mk_talk_ok [OF I(1) assms(2), of R seed] assms(1) by (auto simp: mk_privmsg_def h)
    qed
  next
    case False
    let ?ch = "channel ev" and ?who = "nick (ev_sender ev)"
    obtain chans where "conf_string fo (mk_conf m) ''markov_idle_talk_channels'' = Some chans"
      using I(2) setting_string unfolding idle_kinds_def by metis
    then obtain b where b: "is_idle_channel fo ?ch m = Some b" by (simp add: is_idle_channel_def)
    let ?m = "set_idle ?ch ((idle_for ?ch m)\<lparr>id_last := now\<rparr>) m"
    have "idle_tag ?m = idle_tag m" by (simp add: fun_eq_iff idle_for_timer)
    then have "idle_ok {} ?m" using I(3) by (simp add: idle_ok_def)
    from schedule_idle_ok [OF this, of ?ch fo] I(2) obtain m2 where
      m2: "schedule_idle_talk fo ?ch ?m = Some m2" "idle_ok {} m2" "mk_data m2 = mk_data m" "mk_conf m2 = mk_conf m"
      by auto
    define m1 where "m1 = (if b then m2 else m)"
    have m1: "(if b then schedule_idle_talk fo ?ch ?m else Some m) = Some m1" "mk_inv U log m1"
      "mk_data m1 = mk_data m"
      using m2 I by (auto simp: m1_def mk_inv_def)
    have e: "mk_privmsg U C fo reg R now ev m =
        Some (Handled_none, [], if hears reg ev then learn_step U C ?who (msg ev) m1 else m1)"
      using False b m1(1) by (auto simp: mk_privmsg_def hears_def split: option.split)
    show ?thesis
      using learn_step_inv [OF m1(2) assms(2), of ?who "msg ev" C] m1 unfolding e by auto
  qed
qed

lemma cut_parts: "cut c s = (a, b, ok) \<Longrightarrow> set a \<subseteq> set s \<and> set b \<subseteq> set s"
  by (auto simp: cut_def dest: set_takeWhileD in_set_dropD set_dropWhileD)

lemma talk_like_ok:
  assumes "mk_inv U log m" and "printing U" and "clean (data d)"
  shows "\<exists>b out. cb_talk_like U R d m = Some (b, out) \<and> (\<forall>(c, t) \<in> set out. clean t)"
proof -
  obtain who seed ok where w: "cut (CHR '' '') (trim_space (data d)) = (who, seed, ok)" by (cases "cut (CHR '' '') (trim_space (data d))") auto
  have c: "clean who" using cut_parts [OF w] trim_space_subset [of "data d"] assms(3) clean_subset by blast
  have I: "data_inv U log (mk_data m)" using assms(1) by (simp add: mk_inv_def)
  note D = data_invD [OF I]
  have t: "clean ''Gebruik: !talklike <nick> [seed]''" "clean ''Van ''" "clean '' heb ik nog niks geleerd.''"
    by (simp_all add: clean_def)
  show ?thesis
  proof (cases "map_of (mk_nicks (mk_data m)) (nick_name U who)")
    case None
    then show ?thesis using c t by (auto simp: cb_talk_like_def w clean_Cons)
  next
    case (Some nd)
    have s: "speakable (mk_words (mk_data m)) nd" using holds_speakable D(2) D(8) [OF Some] by blast
    obtain t' j where "random_message U (mk_order (mk_data m)) R (mk_words (mk_data m)) nd seed 0 = Some (t', j)" "clean t'"
      using random_message_from_ok [OF D(1) s assms(2) D(3), of "seed_words U seed" R 0] seed_wordy [OF assms(2)]
      by (auto simp: random_message_def said_ok_def)
    then show ?thesis using Some c t by (auto simp: cb_talk_like_def w clean_Cons)
  qed
qed

lemma mk_step_ok:
  assumes "mk_inv U log m" and "printing U" and "op_clean op"
  shows "\<exists>out m'. mk_step U C fo reg op m = Some (out, m') \<and> mk_inv U (log @ heard_op reg op) m' \<and>
    mk_order (mk_data m') = mk_order (mk_data m) \<and> (\<forall>(c, t) \<in> set out. clean t)"
proof (cases op)
  case (Hear R now ev)
  then show ?thesis using privmsg_ok [OF assms(1,2), of C fo reg R now ev] by auto
next
  case (Bang R d)
  have "data_inv U log (mk_data m)" using assms(1) by (simp add: mk_inv_def)
  from mk_talk_ok [OF this assms(2), of R "data d"] show ?thesis
    using Bang assms(1) by (auto simp: cb_talk_def)
next
  case (Like R d)
  then show ?thesis using talk_like_ok [OF assms(1,2), of d R] assms(1,3) by auto
next
  case (Pass Rs now)
  then show ?thesis using idle_pass_ok [of m U log fo Rs now] assms(1,2) by (auto simp: mk_inv_def)
next
  case (Retune name v)
  have "has_kind c n k" if "conf_set fo name v (mk_conf m) = Inr (x, c)" "has_kind (mk_conf m) n k" for x c n k
    using that by (auto simp: conf_set_def has_kind_def split: option.splits if_splits)
  moreover have "idle_tag (m\<lparr>mk_conf := c\<rparr>) = idle_tag m" for c by (simp add: idle_tag_def fun_eq_iff)
  ultimately show ?thesis
    using Retune assms(1) by (auto simp: mk_inv_def idle_kinds_def idle_ok_def split: sum.split)
qed

lemma mk_run_ok:
  assumes "mk_inv U log m" and "printing U" and "\<forall>op \<in> set ops. op_clean op"
  shows "\<exists>outs m'. mk_run U C fo reg ops m = Some (outs, m') \<and> mk_inv U (log @ heard reg ops) m' \<and>
    mk_order (mk_data m') = mk_order (mk_data m) \<and> (\<forall>(c, t) \<in> set outs. clean t)"
  using assms(1,3)
proof (induction ops arbitrary: log m)
  case (Cons op ops)
  obtain out m1 where m1: "mk_step U C fo reg op m = Some (out, m1)" "mk_inv U (log @ heard_op reg op) m1"
    "mk_order (mk_data m1) = mk_order (mk_data m)" "\<forall>(c, t) \<in> set out. clean t"
    using mk_step_ok [OF Cons.prems(1) assms(2), of op C fo reg] Cons.prems(2) by auto
  from Cons.IH [OF m1(2)] Cons.prems(2) obtain outs m2 where
    "mk_run U C fo reg ops m1 = Some (outs, m2)" "mk_inv U ((log @ heard_op reg op) @ heard reg ops) m2"
    "mk_order (mk_data m2) = mk_order (mk_data m1)" "\<forall>(c, t) \<in> set outs. clean t" by auto
  with m1 show ?case by (auto simp: heard_def)
qed (simp add: heard_def)

section \<open>From an empty store\<close>

lemma markov_settings_kinds:
  assumes "settings c = []"
  shows "idle_kinds (markov_settings fo c)"
  using assms
  by (simp add: idle_kinds_def has_kind_def markov_settings_def create_int_def create_bool_def
        create_string_def create_def)

lemma fresh_inv:
  assumes "load_markov U C fo word_tab c sv sched_new [] = Some (m, st)" and "settings c = []"
    and "0 \<le> mk_order (mk_data m)"
  shows "mk_inv U [] m"
proof -
  obtain order name d where l: "load_dictionaries C order name word_tab [] = Some (d, st)"
    "m = \<lparr>mk_data = d, mk_saver = sv, mk_idle = [], mk_sched = sched_new, mk_conf = markov_settings fo c\<rparr>"
    using assms(1) by (auto simp: load_markov_def Let_def split: option.splits)
  have e: "rebuild_keys T (new_dict n) = new_dict n" for T n by (simp add: rebuild_keys_def new_dict_def)
  have d: "d = \<lparr>mk_order = order, mk_words = word_tab, mk_main = new_dict name,
      mk_reverse = new_dict (''reverse_'' @ name), mk_nicks = []\<rparr>"
    using l(1) e unfolding load_dictionaries_def mem_get_all_def
    by (simp add: ns_data_def migrate_legacy_def derive_persisted_def new_dict_def Let_def)
  have w: "set (in_strs word_tab) = {tok_start, tok_end}"
    by (auto simp: word_tab_def intern_def tok_start_def tok_end_def)
  have "data_inv U [] d"
    using assms(3) holds_new [of word_tab] word_tab_ok
    by (simp add: d l(2) data_inv_def w wordy_def is_sentinel_def lines_of_def all_windows_def by_nick_def)
  moreover have "sched_timers.table_ok id (idle_tag m) sched_new"
    by (simp add: sched_timers.table_ok_def idle_tag_def l(2) sched_new_inv sched_pend_def)
      (simp add: sched_new_def)
  ultimately show ?thesis
    using markov_settings_kinds [OF assms(2)] by (simp add: mk_inv_def idle_ok_def l(2))
qed

definition stored_dict :: "interner \<Rightarrow> mk_dict \<Rightarrow> (string \<times> node) list" where
  \<comment> \<open>a dictionary in the stored shape\<close>
  "stored_dict T d = from_kids T (md_chains d) []"

lemma holds_counts:
  assumes "in_ok T" and "holds T (all_windows order ls) d" and "0 \<le> order" and "int (length (all_windows order ls)) < 2 ^ 31"
  shows "nget (stored_dict T d) p = nget (fold (learn_line order) ls []) p"
  using stored_counts(1) [OF assms(1) _ assms(4)] assms(2)
  by (simp add: holds_def stored_dict_def learn_line_windows [OF assms(3)] nget_add_all)

lemma by_nick_windows: "length (all_windows order (lines_of U (by_nick U n log))) \<le> length (all_windows order (lines_of U log))"
  by (induction log) (auto simp: by_nick_def lines_of_def all_windows_def)

text \<open>
  C11. What the module has learned. After any chatter, requests, timer passes and changes of settings
  since a load on an empty store, the main dictionary is what \<open>LearnLine\<close> makes of the lines heard, the
  reverse dictionary what it makes of them backwards, and every talker's dictionary what it makes of that
  talker's lines; a talker without a dictionary has said nothing. What was heard leaves out the lines of
  the bot, of other bots, of queries and of registered commands, which may hold passwords. (The bound is
  the one of the 32-bit counters.)
\<close>

theorem markov_learns:
  assumes "load_markov U C fo word_tab c sv sched_new [] = Some (m0, st)" and "settings c = []"
    and "0 \<le> mk_order (mk_data m0)" and "printing U" and "\<forall>op \<in> set ops. op_clean op"
    and "int (length (all_windows (mk_order (mk_data m0)) (lines_of U (heard reg ops)))) < 2 ^ 31"
  shows "case mk_run U C fo reg ops m0 of
      None \<Rightarrow> False
    | Some (outs, m) \<Rightarrow>
        (let d = mk_data m; learn = (\<lambda>ls. fold (learn_line (mk_order d)) ls []); log = heard reg ops
         in (\<forall>p. nget (stored_dict (mk_words d) (mk_main d)) p = nget (learn (lines_of U log)) p) \<and>
            (\<forall>p. nget (stored_dict (mk_words d) (mk_reverse d)) p = nget (learn (map rev (lines_of U log))) p) \<and>
            (\<forall>n. case map_of (mk_nicks d) n of
               None \<Rightarrow> by_nick U n log = []
             | Some nd \<Rightarrow> \<forall>p. nget (stored_dict (mk_words d) nd) p = nget (learn (lines_of U (by_nick U n log))) p))"
proof -
  let ?log = "heard reg ops" and ?ord = "mk_order (mk_data m0)"
  obtain outs m where m: "mk_run U C fo reg ops m0 = Some (outs, m)" "mk_inv U ?log m" "mk_order (mk_data m) = ?ord"
    using mk_run_ok [OF fresh_inv [OF assms(1-3)] assms(4,5), of C fo reg] by auto
  have I: "data_inv U ?log (mk_data m)" using m(2) by (simp add: mk_inv_def)
  note D = data_invD [OF I, unfolded m(3)]
  have rl: "int (length (all_windows ?ord (map rev (lines_of U ?log)))) < 2 ^ 31"
    using assms(6) all_windows_rev [of "\<lambda>w. True" ?ord "lines_of U ?log"] by simp
  have nl: "int (length (all_windows ?ord (lines_of U (by_nick U n ?log)))) < 2 ^ 31" for n
    using by_nick_windows [of ?ord U n ?log] assms(6) by linarith
  have "case map_of (mk_nicks (mk_data m)) n of
      None \<Rightarrow> by_nick U n ?log = []
    | Some nd \<Rightarrow> \<forall>p. nget (stored_dict (mk_words (mk_data m)) nd) p =
        nget (fold (learn_line ?ord) (lines_of U (by_nick U n ?log)) []) p" for n
    using D(7) [of n] D(8) [of n] holds_counts [OF D(2) _ D(1) nl] by (auto split: option.split)
  then show ?thesis
    using holds_counts [OF D(2) D(4) D(1) assms(6)] holds_counts [OF D(2) D(5) D(1) rl]
    unfolding m(1) option.case prod.case Let_def m(3) by blast
qed


text \<open>
  C20. One timer for every idle channel. At any time the pending timers of the idle talker are exactly
  those its channels name, so that no channel has two and none is left behind by a line that restarted it.
\<close>

theorem markov_idle_timers:
  assumes "load_markov U C fo word_tab c sv sched_new [] = Some (m0, st)" and "settings c = []"
    and "0 \<le> mk_order (mk_data m0)" and "printing U" and "\<forall>op \<in> set ops. op_clean op"
  shows "case mk_run U C fo reg ops m0 of
      None \<Rightarrow> False
    | Some (outs, m) \<Rightarrow> \<forall>ch n. sched_pend (mk_sched m) n = Some ch \<longleftrightarrow>
        (case map_of (mk_idle m) ch of Some st \<Rightarrow> id_timer st = Some n | None \<Rightarrow> False)"
proof -
  obtain outs m where m: "mk_run U C fo reg ops m0 = Some (outs, m)" "mk_inv U (heard reg ops) m"
    using mk_run_ok [OF fresh_inv [OF assms(1-3)] assms(4,5), of C fo reg] by auto
  then have "sched_timers.table_ok id (idle_tag m) (mk_sched m)" by (simp add: mk_inv_def idle_ok_def)
  from sched_timers.table_okD [OF this]
  have "sched_pend (mk_sched m) n = Some ch \<longleftrightarrow> idle_tag m ch = Some n" for ch n by simp
  moreover have "idle_tag m ch = Some n \<longleftrightarrow>
      (case map_of (mk_idle m) ch of Some st \<Rightarrow> id_timer st = Some n | None \<Rightarrow> False)" for ch n
    by (simp add: idle_tag_def split: option.split)
  ultimately show ?thesis using m(1) by simp
qed

section \<open>A run\<close>

definition demo_tables :: case_tables where
  "demo_tables = \<lparr>ct_lower = (\<lambda>r. r), ct_upper = (\<lambda>r. r)\<rparr>"

definition demo_codec :: codec where
  "demo_codec = \<lparr>cd_node = (\<lambda>n. []), cd_unnode = (\<lambda>j. None), cd_blob = (\<lambda>j. None), cd_raw = Some\<rparr>"

definition no_float :: "string \<Rightarrow> bool" where
  "no_float s = False"

definition demo_markov :: markov where
  "demo_markov =
     \<lparr>mk_data = \<lparr>mk_order = 3, mk_words = word_tab, mk_main = new_dict ''default'',
        mk_reverse = new_dict ''reverse_default'', mk_nicks = []\<rparr>,
      mk_saver = saver_new, mk_idle = [], mk_sched = sched_new, mk_conf = markov_settings no_float conf_new\<rparr>"

definition demo_reg :: "nat registry" where
  "demo_reg = register ''rvf'' ''rvf'' 0 reg_new"

definition demo_chat :: "string \<Rightarrow> string \<Rightarrow> event" where
  "demo_chat who t = no_event\<lparr>ev_sender := (ev_sender no_event)\<lparr>nick := who\<rparr>, channel := ''#bvs'', msg := t\<rparr>"

definition demo_ops :: "mk_op list" where
  "demo_ops =
     [Retune ''markov_idle_talk_channels'' ''#bvs'', Retune ''markov_idle_talk'' ''true'',
      Hear demo_dice 5 (demo_chat ''BenV'' ''Hoi daar''), Hear demo_dice 6 (demo_chat ''calvin'' ''piep''),
      Bang demo_dice \<lparr>command = ''talk'', data = ''hoi'', cmd_event = demo_chat ''Lot'' ''!talk hoi''\<rparr>]"

lemma demo_load:
  "load_markov demo_tables C no_float word_tab conf_new saver_new sched_new [] = Some (demo_markov, [])"
proof -
  let ?c = "markov_settings no_float conf_new"
  have o': "conf_int no_float ?c ''markov_order'' = Some 3" by code_simp
  have n: "conf_string no_float ?c ''markov_dictionary'' = Some ''default''" by code_simp
  have t: "lower_text demo_tables (trim_space ''default'') = ''default''"
    by (simp add: trim_space_ascii is_space_rune_def lower_text_ascii to_lower_def lower_char_def is_upper_def
        less_eq_char_def)
  have "load_dictionaries C 3 ''default'' word_tab [] =
      Some (\<lparr>mk_order = 3, mk_words = word_tab, mk_main = new_dict ''default'',
        mk_reverse = new_dict ''reverse_default'', mk_nicks = []\<rparr>, [])"
    by (simp add: load_dictionaries_def mem_get_all_def ns_data_def migrate_legacy_def derive_persisted_def
        new_dict_def rebuild_keys_def Let_def)
  then show ?thesis by (simp add: load_markov_def o' n t demo_markov_def Let_def)
qed

lemma demo_tokens: "line_tokens demo_tables ''Hoi daar'' = [tok_start, ''hoi'', ''daar'', ''.'', tok_end]"
proof -
  have s: "strip ''Hoi daar'' = ''Hoi daar''" by code_simp
  have g: "go_fields ''Hoi daar'' = [''Hoi'', ''daar'']"
    by (simp add: go_fields_ascii fields_func_def is_space_rune_def)
  have l: "to_lower ''Hoi'' = ''hoi''" "to_lower ''daar'' = ''daar''" by code_simp+
  have k: "known_nick ''hoi'' = False" "known_nick ''daar'' = False" by code_simp+
  note words = l k split_word_def is_word_def is_lower_def is_upper_def is_digit_def less_eq_char_def
  have w: "sanitize_word demo_tables ''Hoi'' = [''hoi'']" "sanitize_word demo_tables ''daar'' = [''daar'']"
    by (subst sanitize_ascii; simp add: words)+
  have e: "is_eol ''daar'' = False" "is_bad_end ''daar'' = False" by code_simp+
  show ?thesis by (simp add: line_tokens_def s seed_words_def g w e Let_def)
qed

lemma demo_facts:
  "settings conf_new = []" "0 \<le> mk_order (mk_data demo_markov)" "printing demo_tables" "\<forall>op \<in> set demo_ops. op_clean op"
  "int (length (all_windows (mk_order (mk_data demo_markov)) (lines_of demo_tables (heard demo_reg demo_ops)))) < 2 ^ 31"
proof -
  have "is_bot ''BenV'' = False" "is_bot ''calvin'' = True" by code_simp+
  then have h: "heard demo_reg demo_ops = [(''BenV'', ''Hoi daar'')]"
    by (simp add: heard_def demo_ops_def hears_def demo_chat_def no_event_def command_word_def)
  show "int (length (all_windows (mk_order (mk_data demo_markov)) (lines_of demo_tables (heard demo_reg demo_ops)))) < 2 ^ 31"
    by (simp add: h lines_of_def demo_tokens all_windows_def windows_all demo_markov_def)
qed (simp_all add: conf_new_def demo_markov_def printing_def demo_tables_def demo_ops_def)

lemma markov_learns_witness:
  "case mk_run demo_tables demo_codec no_float demo_reg demo_ops demo_markov of
      None \<Rightarrow> False
    | Some (outs, m) \<Rightarrow>
        (let d = mk_data m; learn = (\<lambda>ls. fold (learn_line (mk_order d)) ls []); log = heard demo_reg demo_ops
         in (\<forall>p. nget (stored_dict (mk_words d) (mk_main d)) p = nget (learn (lines_of demo_tables log)) p) \<and>
            (\<forall>p. nget (stored_dict (mk_words d) (mk_reverse d)) p = nget (learn (map rev (lines_of demo_tables log))) p) \<and>
            (\<forall>n. case map_of (mk_nicks d) n of
               None \<Rightarrow> by_nick demo_tables n log = []
             | Some nd \<Rightarrow> \<forall>p. nget (stored_dict (mk_words d) nd) p =
                 nget (learn (lines_of demo_tables (by_nick demo_tables n log))) p))"
  by (rule markov_learns [OF demo_load demo_facts])


lemma markov_idle_timers_witness:
  "case mk_run demo_tables demo_codec no_float demo_reg demo_ops demo_markov of
      None \<Rightarrow> False
    | Some (outs, m) \<Rightarrow> \<forall>ch n. sched_pend (mk_sched m) n = Some ch \<longleftrightarrow>
        (case map_of (mk_idle m) ch of Some st \<Rightarrow> id_timer st = Some n | None \<Rightarrow> False)"
  by (rule markov_idle_timers [OF demo_load demo_facts(1-4)])

end
