(* ===== verification/Markov_Rows.thy ===== *)
theory Markov_Rows
  imports Markov_Run "HOL-Library.Countable"
begin

text \<open>
  The dictionaries of \<open>Markov\<close> as rows of the store: what a row's name says, which rows a line changes,
  what loading the rows gives, and, with the saver of \<open>Storage\<close> in between, that a restart loads the
  dictionaries that were learned.
\<close>

section \<open>Names of rows\<close>

definition parse_row :: "int \<Rightarrow> string \<Rightarrow> (string \<times> string) option" where
  \<comment> \<open>dictionary and word, as \<open>loadDictionaries\<close> splits a name\<close>
  "parse_row order key =
     (if has_prefix (dict_prefix order) key
      then (case cut (CHR '':'') (trim_prefix (dict_prefix order) key) of (n, w, ok) \<Rightarrow> if ok then Some (n, w) else None)
      else None)"

lemma parse_row_name: "CHR '':'' \<notin> set n \<Longrightarrow> parse_row order (row_name order n w) = Some (n, w)"
proof -
  assume n: "CHR '':'' \<notin> set n"
  have r: "row_name order n w = dict_prefix order @ n @ '':'' @ w" by (simp add: row_name_def store_key_def)
  have "cut (CHR '':'') (n @ '':'' @ w) = (n, w, True)"
    using n by (auto simp: cut_def dropWhile_append takeWhile_append)
  then show ?thesis by (simp add: parse_row_def r trim_prefix_def)
qed

lemma parse_row_only: "parse_row order key = Some (n, w) \<Longrightarrow> key = row_name order n w \<and> CHR '':'' \<notin> set n"
proof -
  assume p: "parse_row order key = Some (n, w)"
  then obtain t where t: "key = dict_prefix order @ t" by (auto simp: parse_row_def has_prefix_iff split: if_splits)
  with p have c: "cut (CHR '':'') t = (n, w, True)"
    by (auto simp: parse_row_def trim_prefix_def split: prod.splits if_splits)
  then have n: "n = takeWhile (\<lambda>x. x \<noteq> CHR '':'') t" and w: "w = drop 1 (dropWhile (\<lambda>x. x \<noteq> CHR '':'') t)" and "CHR '':'' \<in> set t"
    by (auto simp: cut_def)
  then obtain c r where d: "dropWhile (\<lambda>x. x \<noteq> CHR '':'') t = c # r" by (cases "dropWhile (\<lambda>x. x \<noteq> CHR '':'') t") auto
  then have "c = CHR '':''" using hd_dropWhile [of "\<lambda>x. x \<noteq> CHR '':''" t] by simp
  then have "t = n @ '':'' @ w" using n w d takeWhile_dropWhile_id [of "\<lambda>x. x \<noteq> CHR '':''" t] by simp
  moreover have "CHR '':'' \<notin> set n" using n by (auto dest: set_takeWhileD)
  ultimately show ?thesis using t by (simp add: row_name_def store_key_def)
qed

section \<open>Looking up a row\<close>

definition word_row :: "interner \<Rightarrow> mk_dict \<Rightarrow> string \<Rightarrow> node option" where
  "word_row T d w = (case map_of (in_ids T) w of None \<Rightarrow> None | Some i \<Rightarrow> map_option (from_compact T) (map_of (md_chains d) i))"

definition dict_named :: "mk_data \<Rightarrow> string \<Rightarrow> mk_dict option" where
  "dict_named m n =
     (if n = md_name (mk_main m) then Some (mk_main m)
      else if n = md_name (mk_reverse m) then Some (mk_reverse m) else map_of (mk_nicks m) n)"

definition row_of :: "mk_data \<Rightarrow> string \<Rightarrow> node option" where
  "row_of m key =
     (case parse_row (mk_order m) key of
        None \<Rightarrow> None
      | Some (n, w) \<Rightarrow> (case dict_named m n of None \<Rightarrow> None | Some d \<Rightarrow> word_row (mk_words m) d w))"

definition nick_ok :: "string \<Rightarrow> bool" where
  "nick_ok n = (has_prefix ''nick_'' n \<and> CHR '':'' \<notin> set n)"

definition main_name_ok :: "string \<Rightarrow> bool" where
  "main_name_ok n = (CHR '':'' \<notin> set n \<and> \<not> has_prefix ''nick_'' n)"

definition names_ok :: "mk_data \<Rightarrow> bool" where
  "names_ok m =
     (main_name_ok (md_name (mk_main m)) \<and> md_name (mk_reverse m) = ''reverse_'' @ md_name (mk_main m) \<and>
      (\<forall>e \<in> set (mk_nicks m). nick_ok (fst e) \<and> md_name (snd e) = fst e))"

lemma dict_rows_lookup:
  assumes "in_ok T" and "below_all (length (in_strs T)) (md_chains d)" and "CHR '':'' \<notin> set (md_name d)"
  shows "map_of (dict_rows order T d) key =
    (case parse_row order key of Some (n, w) \<Rightarrow> if n = md_name d then word_row T d w else None | None \<Rightarrow> None)"
proof -
  have key: "row_name order (md_name d) (word_str T i) = key \<longleftrightarrow>
      (\<exists>w. parse_row order key = Some (md_name d, w) \<and> map_of (in_ids T) w = Some i)" if "i < length (in_strs T)" for i
  proof
    assume "row_name order (md_name d) (word_str T i) = key"
    then show "\<exists>w. parse_row order key = Some (md_name d, w) \<and> map_of (in_ids T) w = Some i"
      using parse_row_name [OF assms(3)] in_okD [OF assms(1) that] by (auto simp: word_str_def)
  next
    assume "\<exists>w. parse_row order key = Some (md_name d, w) \<and> map_of (in_ids T) w = Some i"
    then show "row_name order (md_name d) (word_str T i) = key"
      using parse_row_only assms(1) by (fastforce simp: word_str_def in_ok_def)
  qed
  have "map_of (map (\<lambda>(i, nd). (row_name order (md_name d) (word_str T i), from_compact T nd)) ch) key =
    (case parse_row order key of
       Some (n, w) \<Rightarrow> if n = md_name d then (case map_of (in_ids T) w of None \<Rightarrow> None | Some i \<Rightarrow> map_option (from_compact T) (map_of ch i)) else None
     | None \<Rightarrow> None)" if "below_all (length (in_strs T)) ch" for ch
    using that
  proof (induction ch)
    case Nil
    show ?case by (auto split: option.split prod.split)
  next
    case (Cons e ch)
    obtain i nd where e: "e = (i, nd)" by (cases e)
    have i: "i < length (in_strs T)" "below_all (length (in_strs T)) ch" using Cons.prems e by (simp_all add: below_all_def)
    show ?case
    proof (cases "row_name order (md_name d) (word_str T i) = key")
      case True
      then obtain w where "parse_row order key = Some (md_name d, w)" "map_of (in_ids T) w = Some i" using key [OF i(1)] by blast
      with True e show ?thesis by simp
    next
      case False
      then have "\<forall>w. parse_row order key = Some (md_name d, w) \<longrightarrow> map_of (in_ids T) w \<noteq> Some i" using key [OF i(1)] by blast
      with False e Cons.IH [OF i(2)] show ?thesis by (auto split: option.splits prod.splits)
    qed
  qed
  from this [OF assms(2)] show ?thesis unfolding dict_rows_def word_row_def .
qed

lemma map_of_concat_rows:
  assumes "\<And>d. d \<in> set ds \<Longrightarrow> map_of (f d) key = (if name d = n then g d else None)" and "distinct (map name ds)"
  shows "map_of (concat (map f ds)) key = (case find (\<lambda>d. name d = n) ds of None \<Rightarrow> None | Some d \<Rightarrow> g d)"
  using assms
proof (induction ds)
  case (Cons d ds)
  have IH: "map_of (concat (map f ds)) key = (case find (\<lambda>d. name d = n) ds of None \<Rightarrow> None | Some d \<Rightarrow> g d)"
    using Cons by simp
  have d: "map_of (f d) key = (if name d = n then g d else None)" using Cons.prems(1) by simp
  show ?case
  proof (cases "name d = n")
    case True
    have "name e \<noteq> n" if "e \<in> set ds" for e using Cons.prems(2) True that by (metis distinct.simps(2) image_eqI list.simps(9) set_map)
    then have "find (\<lambda>d. name d = n) ds = None" by (simp add: find_None_iff)
    then show ?thesis using IH d True by (auto simp: map_add_def split: option.split)
  next
    case False
    then show ?thesis using IH d by (auto simp: map_add_def split: option.split)
  qed
qed simp

lemma find_nicks:
  assumes "wf_map nk" and "\<forall>e \<in> set nk. md_name (snd e) = fst e"
  shows "find (\<lambda>d. md_name d = n) (map snd nk) = map_of nk n"
  using assms by (induction nk) auto

lemma rows_lookup:
  assumes "in_ok (mk_words m)" and "names_ok m" and "wf_map (mk_nicks m)"
    and "\<And>n d. dict_named m n = Some d \<Longrightarrow> below_all (length (in_strs (mk_words m))) (md_chains d)"
  shows "map_of (all_rows m) key = row_of m key"
proof -
  let ?ds = "mk_main m # mk_reverse m # map snd (mk_nicks m)"
  have nk: "nick_ok (fst e)" "md_name (snd e) = fst e" if "e \<in> set (mk_nicks m)" for e
    using assms(2) that by (simp_all add: names_ok_def)
  have mn: "CHR '':'' \<notin> set (md_name (mk_main m))" "md_name (mk_reverse m) = ''reverse_'' @ md_name (mk_main m)"
    "\<not> has_prefix ''nick_'' (md_name (mk_main m))" "md_name (mk_reverse m) \<noteq> md_name (mk_main m)"
    "\<not> has_prefix ''nick_'' (md_name (mk_reverse m))"
    using assms(2) by (auto simp: names_ok_def main_name_ok_def has_prefix_def)
  have sep: "fst e \<noteq> md_name (mk_main m) \<and> fst e \<noteq> md_name (mk_reverse m)" if "e \<in> set (mk_nicks m)" for e
    using nk [OF that] mn by (auto simp: nick_ok_def)
  have named: "dict_named m (md_name d) = Some d \<and> CHR '':'' \<notin> set (md_name d)" if d: "d \<in> set ?ds" for d
  proof -
    consider "d = mk_main m" | "d = mk_reverse m" | e where "e \<in> set (mk_nicks m)" "d = snd e" using d by auto
    then show ?thesis
    proof cases
      case (3 e)
      then have "map_of (mk_nicks m) (fst e) = Some d" using assms(3) by (simp add: map_of_some_iff)
      then show ?thesis using 3 nk [OF 3(1)] sep [OF 3(1)] by (auto simp: dict_named_def nick_ok_def)
    qed (use mn in \<open>auto simp: dict_named_def\<close>)
  qed
  have l: "map md_name ?ds = md_name (mk_main m) # md_name (mk_reverse m) # map fst (mk_nicks m)" using nk(2) by simp
  have "md_name (mk_main m) \<notin> fst ` set (mk_nicks m)" "md_name (mk_reverse m) \<notin> fst ` set (mk_nicks m)"
    using sep by (metis imageE)+
  then have dist: "distinct (map md_name ?ds)" unfolding l using assms(3) mn(4) by simp
  have rows: "map_of (dict_rows (mk_order m) (mk_words m) d) key =
      (if md_name d = n then word_row (mk_words m) d w else None)"
    if "d \<in> set ?ds" "parse_row (mk_order m) key = Some (n, w)" for d n w
    using dict_rows_lookup [OF assms(1) assms(4)] named [OF that(1)] that(2) by auto
  show ?thesis
  proof (cases "parse_row (mk_order m) key")
    case None
    then have "map_of (dict_rows (mk_order m) (mk_words m) d) key = None" if "d \<in> set ?ds" for d
      using dict_rows_lookup [OF assms(1) assms(4)] named [OF that] by auto
    then have "map_of (all_rows m) key = None"
      by (auto simp: all_rows_def map_of_eq_None_iff)
    then show ?thesis using None by (simp add: row_of_def)
  next
    case (Some nw)
    obtain n w where nw: "nw = (n, w)" by (cases nw)
    have "find (\<lambda>d. md_name d = n) ?ds = dict_named m n"
      using find_nicks [OF assms(3)] nk(2) by (auto simp: dict_named_def)
    then show ?thesis
      using map_of_concat_rows [OF rows [OF _ Some [unfolded nw]] dist] Some nw by (simp add: all_rows_def row_of_def)
  qed
qed

section \<open>Which rows a line changes\<close>

lemma from_compact_extends:
  "extends T T' \<Longrightarrow> below (length (in_strs T)) nd \<Longrightarrow> from_compact T' nd = from_compact T nd"
  "extends T T' \<Longrightarrow> below_all (length (in_strs T)) kids \<Longrightarrow> from_kids T' kids acc = from_kids T kids acc"
proof (induction T nd and T kids acc rule: from_compact_from_kids.induct)
  case (1 T c kids)
  have "below_all (length (in_strs T)) kids" using 1(3) unfolding below_iff [of _ "Cnode c kids"] by simp
  with 1(1) [OF 1(2)] show ?case by simp
next
  case (3 T i nd kids acc)
  then show ?case using extends_str [of T T' i] by (simp add: below_all_def word_str_def)
qed simp_all

lemma top_path_map: "i \<noteq> hd is \<Longrightarrow> map_of (top_path k is ch) i = map_of ch i"
  by (cases "is") auto

lemma fold_top_path_map:
  "\<forall>w \<in> set ws. hd (f w) \<noteq> i \<Longrightarrow> map_of (fold (\<lambda>w. top_path 1 (f w)) ws ch) i = map_of ch i"
  by (induction ws arbitrary: ch) (simp_all add: top_path_map)

lemma word_row_extends:
  assumes "in_ok T" and "in_ok T'" and "extends T T'" and "below_all (length (in_strs T)) (md_chains d)"
  shows "word_row T' d w = word_row T d w"
proof (cases "map_of (in_ids T) w")
  case None
  have "map_of (md_chains d) i = None" if "map_of (in_ids T') w = Some i" for i
  proof (rule ccontr)
    assume "map_of (md_chains d) i \<noteq> None"
    then have i: "i < length (in_strs T)" using assms(4) by (force simp: below_all_def dest: map_of_SomeD)
    have "in_strs T' ! i = w" using that assms(2) by (simp add: in_ok_def)
    then have "in_strs T ! i = w" using extends_str [OF assms(3) i] by simp
    then show False using in_okD [OF assms(1) i] None by simp
  qed
  then show ?thesis using None by (auto simp: word_row_def split: option.split)
next
  case (Some i)
  then have "map_of (in_ids T') w = Some i" using extends_known [OF assms(1-3)] by blast
  moreover have "from_compact T' nd = from_compact T nd" if "map_of (md_chains d) i = Some nd" for nd
  proof -
    have "below (length (in_strs T)) nd" using assms(4) map_of_SomeD [OF that] by (auto simp: below_all_def)
    then show ?thesis by (rule from_compact_extends(1) [OF assms(3)])
  qed
  ultimately show ?thesis using Some by (cases "map_of (md_chains d) i") (simp_all add: word_row_def)
qed

lemma learn_into_rows:
  assumes "in_ok T" and "holds T ws d" and "learn_into order toks T d = (T', d')" and "w \<notin> hd ` set (windows order toks)"
  shows "word_row T' d' w = word_row T d w"
proof -
  let ?wins = "windows order toks"
  obtain S where S: "fold learn_window ?wins (T, md_chains d) = (S, fold (\<lambda>w. top_path 1 (ids_of S w)) ?wins (md_chains d))"
    "in_ok S" "extends T S" "\<forall>w \<in> set ?wins. known S w"
    using learn_fold [OF assms(1), of ?wins "md_chains d"] by blast
  have r: "T' = S" "md_chains d' = fold (\<lambda>w. top_path 1 (ids_of S w)) ?wins (md_chains d)"
    using assms(3) S(1) unfolding learn_into_def learn_tokens_def Let_def by (auto split: if_splits)
  have "map_of (md_chains d') i = map_of (md_chains d) i" if i: "map_of (in_ids S) w = Some i" for i
  proof -
    have "hd (ids_of S v) \<noteq> i" if v: "v \<in> set ?wins" for v
    proof -
      have ne: "v \<noteq> []" using window_facts [of v order "[toks]"] v by (simp add: all_windows_def)
      then have "hd v \<noteq> w" "map_of (in_ids S) (hd v) \<noteq> None" using assms(4) v S(4) by (auto simp: known_def)
      then have "the (map_of (in_ids S) (hd v)) \<noteq> i" using i S(2) unfolding in_ok_def by fastforce
      with ne show ?thesis by (cases v) (simp_all add: ids_of_def)
    qed
    then show ?thesis unfolding r(2) by (intro fold_top_path_map) blast
  qed
  then have "word_row S d' w = word_row S d w" by (auto simp: word_row_def split: option.split)
  then show ?thesis using word_row_extends [OF assms(1) S(2,3) holds_below [OF assms(1,2)]] r(1) by simp
qed

lemma data_below:
  assumes "data_inv U log m" and "dict_named m n = Some d"
  shows "below_all (length (in_strs (mk_words m))) (md_chains d)"
  using assms(2) holds_below data_invD(2,4,5,8) [OF assms(1)]
  by (metis (no_types, lifting) dict_named_def option.inject)

lemma data_rows: "data_inv U log m \<Longrightarrow> names_ok m \<Longrightarrow> map_of (all_rows m) key = row_of m key"
  using rows_lookup [of m] data_below [of U log m] data_invD(2,6) [of U log m] by blast

lemma learn_msg_parts:
  assumes "data_inv U log d" and "learn_msg U who t d = (ks, d')"
  obtains tab1 tab2 tab3 nd where
    "learn_into (mk_order d) (line_tokens U t) (mk_words d) (mk_main d) = (tab1, mk_main d')"
    "learn_into (mk_order d) (rev (line_tokens U t)) tab1 (mk_reverse d) = (tab2, mk_reverse d')"
    "learn_into (mk_order d) (line_tokens U t) tab2
       (case map_of (mk_nicks d) (nick_name U who) of Some e \<Rightarrow> e | None \<Rightarrow> new_dict (nick_name U who)) = (tab3, nd)"
    "mk_words d' = (if who = [] then tab2 else tab3)" "mk_order d' = mk_order d"
    "mk_nicks d' = (if who = [] then mk_nicks d else AList.update (nick_name U who) nd (mk_nicks d))"
    "set ks = set (row_marks (mk_order d) (line_tokens U t) (mk_main d)) \<union>
       set (row_marks (mk_order d) (rev (line_tokens U t)) (mk_reverse d)) \<union>
       (if who = [] then {} else set (row_marks (mk_order d) (line_tokens U t)
         (case map_of (mk_nicks d) (nick_name U who) of Some e \<Rightarrow> e | None \<Rightarrow> new_dict (nick_name U who))))"
proof -
  obtain tab1 main where a: "learn_into (mk_order d) (line_tokens U t) (mk_words d) (mk_main d) = (tab1, main)" by fastforce
  obtain tab2 rv where b: "learn_into (mk_order d) (rev (line_tokens U t)) tab1 (mk_reverse d) = (tab2, rv)" by fastforce
  let ?nd = "case map_of (mk_nicks d) (nick_name U who) of Some e \<Rightarrow> e | None \<Rightarrow> new_dict (nick_name U who)"
  obtain tab3 nd where c: "learn_into (mk_order d) (line_tokens U t) tab2 ?nd = (tab3, nd)" by fastforce
  have n: "nick_dict U who (d\<lparr>mk_words := tab2, mk_main := main, mk_reverse := rv\<rparr>) = ?nd" by (simp add: nick_dict_def)
  have l: "(ks, d') = (if who = [] then
        (row_marks (mk_order d) (line_tokens U t) (mk_main d) @ row_marks (mk_order d) (rev (line_tokens U t)) (mk_reverse d),
         d\<lparr>mk_words := tab2, mk_main := main, mk_reverse := rv\<rparr>)
      else ((row_marks (mk_order d) (line_tokens U t) (mk_main d) @ row_marks (mk_order d) (rev (line_tokens U t)) (mk_reverse d)) @
          row_marks (mk_order d) (line_tokens U t) ?nd,
         d\<lparr>mk_words := tab3, mk_main := main, mk_reverse := rv, mk_nicks := AList.update (nick_name U who) nd (mk_nicks d)\<rparr>))"
    unfolding assms(2) [symmetric] learn_msg_def Let_def a b prod.case n c by simp
  show thesis
    by (rule that [of tab1 tab2 tab3 nd]) (use l a b c in \<open>auto split: if_splits\<close>)
qed

lemma row_marks_iff:
  "(''markov'', row_name order (md_name d) w) \<in> set (row_marks order toks d) \<longleftrightarrow> w \<in> hd ` set (windows order toks)"
  by (auto simp: row_marks_def row_name_def image_iff)

lemma learn_msg_rows:
  assumes inv: "data_inv U log d" and names: "names_ok d" and l: "learn_msg U who t d = (ks, d')"
    and nick: "who = [] \<or> nick_ok (nick_name U who)"
  shows "names_ok d'" and "(''markov'', key) \<notin> set ks \<Longrightarrow> row_of d' key = row_of d key"
proof -
  note D = data_invD [OF inv]
  let ?e = "case map_of (mk_nicks d) (nick_name U who) of Some e \<Rightarrow> e | None \<Rightarrow> new_dict (nick_name U who)"
  obtain tab1 tab2 tab3 nd where
    a: "learn_into (mk_order d) (line_tokens U t) (mk_words d) (mk_main d) = (tab1, mk_main d')"
    and b: "learn_into (mk_order d) (rev (line_tokens U t)) tab1 (mk_reverse d) = (tab2, mk_reverse d')"
    and c: "learn_into (mk_order d) (line_tokens U t) tab2 ?e = (tab3, nd)"
    and T: "mk_words d' = (if who = [] then tab2 else tab3)" and o': "mk_order d' = mk_order d"
    and nk: "mk_nicks d' = (if who = [] then mk_nicks d else AList.update (nick_name U who) nd (mk_nicks d))"
    and ks: "set ks = set (row_marks (mk_order d) (line_tokens U t) (mk_main d)) \<union>
       set (row_marks (mk_order d) (rev (line_tokens U t)) (mk_reverse d)) \<union>
       (if who = [] then {} else set (row_marks (mk_order d) (line_tokens U t) ?e))"
    by (rule learn_msg_parts [OF inv l])
  note A = learn_into_holds [OF D(2,4) a]
  have rv: "holds tab1 (all_windows (mk_order d) (map rev (lines_of U log))) (mk_reverse d)"
    using holds_extends [OF D(2) _ _ D(5)] A by blast
  note B = learn_into_holds [OF conjunct1 [OF A] rv b]
  have x2: "in_ok tab2" "extends (mk_words d) tab2" using A B extends_trans by blast+
  have e: "md_name ?e = nick_name U who \<and> (\<exists>ws. holds tab2 ws ?e)"
    using D(8) holds_extends [OF D(2) x2] holds_new by (fastforce split: option.split)
  then obtain ws where ws: "holds tab2 ws ?e" by blast
  note C = learn_into_holds [OF x2(1) ws c]
  have x3: "in_ok (mk_words d')" "extends tab2 (mk_words d')" using T B C by auto
  have x: "extends (mk_words d) (mk_words d')" "extends tab1 (mk_words d')" using x2(2) x3(2) B extends_trans by blast+
  have nm: "md_name (mk_main d') = md_name (mk_main d)" "md_name (mk_reverse d') = md_name (mk_reverse d)" "md_name nd = nick_name U who"
    using A B C e by auto
  show "names_ok d'"
    using names nick nm nk unfolding names_ok_def by (auto dest!: set_update_subset [THEN subsetD])
  assume k: "(''markov'', key) \<notin> set ks"
  show "row_of d' key = row_of d key"
  proof (cases "parse_row (mk_order d) key")
    case None
    then show ?thesis by (simp add: row_of_def o')
  next
    case (Some nw)
    obtain n w where p: "parse_row (mk_order d) key = Some (n, w)" using Some by (cases nw) simp
    then have key: "key = row_name (mk_order d) n w" using parse_row_only by blast
    have main: "word_row (mk_words d') (mk_main d') w = word_row (mk_words d) (mk_main d) w" if "n = md_name (mk_main d)"
    proof -
      have "w \<notin> hd ` set (windows (mk_order d) (line_tokens U t))"
        using k ks row_marks_iff that key by blast
      from learn_into_rows [OF D(2,4) a this] show ?thesis
        using word_row_extends [OF _ x3(1) x(2) holds_below] A by metis
    qed
    have rev: "word_row (mk_words d') (mk_reverse d') w = word_row (mk_words d) (mk_reverse d) w" if "n = md_name (mk_reverse d)"
    proof -
      have "w \<notin> hd ` set (windows (mk_order d) (rev (line_tokens U t)))"
        using k ks row_marks_iff that key by blast
      from learn_into_rows [OF conjunct1 [OF A] rv b this]
      have "word_row tab2 (mk_reverse d') w = word_row tab1 (mk_reverse d) w" .
      moreover have "word_row tab1 (mk_reverse d) w = word_row (mk_words d) (mk_reverse d) w"
        using word_row_extends [OF D(2) _ _ holds_below [OF D(2,5)]] A by blast
      ultimately show ?thesis using word_row_extends [OF x2(1) x3 holds_below] B by metis
    qed
    have old: "word_row (mk_words d') g w = word_row (mk_words d) g w" if "dict_named d n = Some g" for g
      using word_row_extends [OF D(2) x3(1) x(1) data_below [OF inv that]] .
    consider "n = md_name (mk_main d)" | "n \<noteq> md_name (mk_main d)" "n = md_name (mk_reverse d)"
      | "n \<noteq> md_name (mk_main d)" "n \<noteq> md_name (mk_reverse d)" "who \<noteq> []" "n = nick_name U who"
      | "n \<noteq> md_name (mk_main d)" "n \<noteq> md_name (mk_reverse d)" "who = [] \<or> n \<noteq> nick_name U who" by blast
    then show ?thesis
    proof cases
      case 1
      then show ?thesis using main p by (simp add: row_of_def o' dict_named_def nm)
    next
      case 2
      then show ?thesis using rev p by (simp add: row_of_def o' dict_named_def nm)
    next
      case 3
      have "w \<notin> hd ` set (windows (mk_order d) (line_tokens U t))"
        using k ks row_marks_iff [of "mk_order d" ?e w] 3 key e by auto
      from learn_into_rows [OF x2(1) ws c this]
      have "word_row (mk_words d') nd w = word_row tab2 ?e w" using T 3(3) by simp
      moreover have "word_row tab2 ?e w = (case map_of (mk_nicks d) n of None \<Rightarrow> None | Some g \<Rightarrow> word_row (mk_words d) g w)"
      proof (cases "map_of (mk_nicks d) n")
        case None
        then show ?thesis using 3(4) by (simp add: word_row_def new_dict_def split: option.split)
      next
        case (Some g)
        then have "below_all (length (in_strs (mk_words d))) (md_chains g)"
          using D(8) holds_below [OF D(2)] by blast
        from word_row_extends [OF D(2) x2 this] Some 3(4) show ?thesis by simp
      qed
      ultimately show ?thesis using 3 p by (simp add: row_of_def o' dict_named_def nm nk)
    next
      case 4
      then have "dict_named d' n = dict_named d n" by (auto simp: dict_named_def nm nk)
      then show ?thesis using old p by (simp add: row_of_def o' split: option.split)
    qed
  qed
qed

section \<open>Rows that fit the codec\<close>

primrec ranged :: "cnode \<Rightarrow> bool" where
  \<comment> \<open>every counter of the subtree is a 32-bit integer\<close>
  "ranged (Cnode c kids) = (- (2 ^ 31) \<le> c \<and> c < 2 ^ 31 \<and> list_all snd (map (map_prod id ranged) kids))"

lemma ranged_iff: "ranged nd \<longleftrightarrow> - (2 ^ 31) \<le> cn_count nd \<and> cn_count nd < 2 ^ 31 \<and> (\<forall>e \<in> set (cn_kids nd). ranged (snd e))"
  by (cases nd) (auto simp: list_all_iff)

lemma wrap32_range: "- (2 ^ 31) \<le> wrap32 i" "wrap32 i < 2 ^ 31"
proof -
  have "0 \<le> (i + 2 ^ 31) mod 2 ^ 32" "(i + 2 ^ 31) mod 2 ^ 32 < 2 ^ 32" by simp_all
  then show "- (2 ^ 31) \<le> wrap32 i" "wrap32 i < 2 ^ 31" by (simp_all add: wrap32_def)
qed

lemma bump_ranged: "\<forall>e \<in> set (cn_kids nd). ranged (snd e) \<Longrightarrow> ranged (bump k nd)"
  using wrap32_range by (simp add: ranged_iff [of "bump k nd"])

lemma ensure_child_set:
  "e \<in> set (ensure_child w f kids) \<Longrightarrow> e \<in> set kids \<or> (\<exists>nd. e = (w, f nd) \<and> (nd = Cnode 0 [] \<or> nd \<in> snd ` set kids))"
proof -
  assume e: "e \<in> set (ensure_child w f kids)"
  obtain i ok where b: "bsearch kids w = (i, ok)" by fastforce
  show ?thesis
  proof (cases ok)
    case True
    then have "i < length kids" using b by (auto simp: bsearch_def Let_def)
    then have "snd (kids ! i) \<in> snd ` set kids" by simp
    then show ?thesis using e True b set_update_subset_insert [of kids i "(w, f (snd (kids ! i)))"]
      by (auto simp: ensure_child_def)
  next
    case False
    then show ?thesis using e b by (auto simp: ensure_child_def dest: in_set_takeD in_set_dropD)
  qed
qed

lemma bump_path_ranged: "ranged nd \<Longrightarrow> ranged (bump_path k ws nd)"
proof (induction ws arbitrary: nd)
  case (Cons w ws)
  have "ranged (snd e)" if e: "e \<in> set (ensure_child w (\<lambda>ch. bump_path k ws (bump k ch)) (cn_kids nd))" for e
  proof -
    have "ranged (bump_path k ws (bump k x))" if "x = Cnode 0 [] \<or> x \<in> snd ` set (cn_kids nd)" for x
    proof -
      have "\<forall>e \<in> set (cn_kids x). ranged (snd e)" using that Cons.prems ranged_iff [of nd] ranged_iff [of x] by auto
      then show ?thesis by (intro Cons.IH bump_ranged)
    qed
    moreover have "\<forall>e \<in> set (cn_kids nd). ranged (snd e)" using Cons.prems ranged_iff [of nd] by simp
    ultimately show ?thesis using ensure_child_set [OF e] by (elim disjE exE conjE) simp_all
  qed
  then show ?case using Cons.prems by (simp add: ranged_iff [of nd] list_all_iff)
qed simp

lemma insert_all_ranged: "\<forall>e \<in> set (insert_all es). ranged (snd e)"
proof (induction es rule: rev_induct)
  case Nil
  show ?case by (simp add: insert_all_def)
next
  case (snoc e es)
  have i: "insert_all (es @ [e]) = top_path (snd e) (fst e) (insert_all es)"
    by (simp add: insert_all_def case_prod_beta)
  show ?case
  proof (cases "fst e")
    case Nil
    then show ?thesis using snoc i by simp
  next
    case (Cons w ws)
    have "\<forall>e \<in> set (cn_kids (kid_or_new w (insert_all es))). ranged (snd e)"
    proof (cases "map_of (insert_all es) w")
      case (Some nd)
      then have "ranged nd" using snoc map_of_SomeD by force
      then show ?thesis using Some ranged_iff [of nd] by (simp add: kid_or_new_def)
    qed (simp add: kid_or_new_def)
    then have "ranged (bump_path (snd e) ws (bump (snd e) (kid_or_new w (insert_all es))))"
      by (intro bump_path_ranged bump_ranged)
    then have "\<forall>e \<in> set (AList.update w (bump_path (snd e) ws (bump (snd e) (kid_or_new w (insert_all es)))) (insert_all es)).
        ranged (snd e)"
      by (intro update_all [OF snoc]) simp
    then show ?thesis unfolding i Cons by (simp add: kid_or_new_def)
  qed
qed

lemma from_compact_stored:
  "ranged nd \<Longrightarrow> stored_ok (from_compact T nd)"
  "\<forall>e \<in> set kids. ranged (snd e) \<Longrightarrow> wf_map acc \<Longrightarrow> \<forall>e \<in> set acc. stored_ok (snd e) \<Longrightarrow>
    wf_map (from_kids T kids acc) \<and> (\<forall>e \<in> set (from_kids T kids acc). stored_ok (snd e))"
proof (induction T nd and T kids acc rule: from_compact_from_kids.induct)
  case (1 T c kids)
  have "- (2 ^ 31) \<le> c" "c < 2 ^ 31" "\<forall>e \<in> set kids. ranged (snd e)" using 1(2) ranged_iff [of "Cnode c kids"] by auto
  with 1(1) show ?case by (simp add: list_all_iff)
next
  case (3 T i nd kids acc)
  have nd: "stored_ok (from_compact T nd)" and rest: "\<forall>e \<in> set kids. ranged (snd e)" using 3(1,3) by simp_all
  have "\<forall>e \<in> set (AList.update (word_str T i) (from_compact T nd) acc). stored_ok (snd e)"
    by (rule update_all [OF 3(5)]) (simp add: nd)
  from 3(2) [OF rest wf_map_update [OF 3(4)] this] show ?case by simp
qed simp_all

lemma holds_rows_stored: "holds T ws d \<Longrightarrow> word_row T d w = Some n \<Longrightarrow> stored_ok n"
  using insert_all_ranged [of "once (map (ids_of T) ws)"] from_compact_stored(1)
  by (fastforce simp: holds_def word_row_def dest: map_of_SomeD split: option.splits)

lemma row_stored: "data_inv U log m \<Longrightarrow> row_of m key = Some n \<Longrightarrow> stored_ok n"
  using holds_rows_stored data_invD(4,5,8) [of U log m]
  by (force simp: row_of_def dict_named_def split: option.splits prod.splits if_splits)

definition codec_ok :: "codec \<Rightarrow> bool" where
  \<comment> \<open>a node read back has the same counts; the order of its children may differ\<close>
  "codec_ok C =
     (\<forall>n. stored_ok n \<longrightarrow> (\<exists>n'. cd_unnode C (cd_node C n) = Some n' \<and> stored_ok n' \<and> nd_count n' = nd_count n \<and>
        (\<forall>p. nget (nd_children n') p = nget (nd_children n) p)))"

section \<open>Loading the rows\<close>

definition rows_in :: "int \<Rightarrow> codec \<Rightarrow> string \<Rightarrow> (string \<times> json) list \<Rightarrow> (string \<times> node) list" where
  \<comment> \<open>the words of one dictionary among the rows, last loaded first\<close>
  "rows_in order C n rows =
     rev (concat (map (\<lambda>(key, js).
       case (parse_row order key, cd_unnode C js) of
         (Some (n', w), Some nd) \<Rightarrow> if n' = n then [(w, nd)] else []
       | _ \<Rightarrow> []) rows))"

definition loaded :: "codec \<Rightarrow> (string \<times> json) list \<Rightarrow> mk_data \<Rightarrow> bool" where
  \<comment> \<open>the data after these rows\<close>
  "loaded C rows m \<longleftrightarrow>
     in_ok (mk_words m) \<and> wf_map (mk_nicks m) \<and> (\<forall>e \<in> set (mk_nicks m). md_name (snd e) = fst e) \<and>
     (\<forall>n. case dict_named m n of
        None \<Rightarrow> rows_in (mk_order m) C n rows = []
      | Some d \<Rightarrow> same_at (mk_words m) (md_chains d) (rows_in (mk_order m) C n rows) \<and> good_map (md_chains d) \<and>
          below_all (length (in_strs (mk_words m))) (md_chains d))"

lemma below_all_extends: "below_all (length (in_strs T)) dic \<Longrightarrow> extends T T' \<Longrightarrow> below_all (length (in_strs T')) dic"
  using below_mono prefix_length_le unfolding below_all_def extends_def by (metis less_le_trans)

lemma good_map_update: "good_map dic \<Longrightarrow> sorted_node nd \<Longrightarrow> good_map (AList.update i nd dic)"
  unfolding good_map_def by (auto dest!: set_update_subset [THEN subsetD])

lemma below_all_update: "below_all n dic \<Longrightarrow> i < n \<Longrightarrow> below n nd \<Longrightarrow> below_all n (AList.update i nd dic)"
  unfolding below_all_def by (auto dest!: set_update_subset [THEN subsetD])

lemma same_at_extends: "same_at T kids ch \<Longrightarrow> extends T T' \<Longrightarrow> same_at T' kids ch"
  unfolding same_at_def using extends_trans by blast

lemma place_row_parts:
  assumes "intern w (mk_words m) = (i, T1)" and "to_compact T1 n = (nd, T2)"
  shows "mk_words (place_row name w n m) = T2" and "mk_order (place_row name w n m) = mk_order m"
    and "md_name (mk_main (place_row name w n m)) = md_name (mk_main m)"
    and "md_name (mk_reverse (place_row name w n m)) = md_name (mk_reverse m)"
    and "dict_named (place_row name w n m) k =
      (if k = name then Some (put_chain i nd (case dict_named m name of Some d \<Rightarrow> d | None \<Rightarrow> new_dict name)) else dict_named m k)"
    and "wf_map (mk_nicks m) \<Longrightarrow> wf_map (mk_nicks (place_row name w n m))"
    and "\<forall>e \<in> set (mk_nicks m). md_name (snd e) = fst e \<Longrightarrow>
      \<forall>e \<in> set (mk_nicks (place_row name w n m)). md_name (snd e) = fst e"
proof -
  show "\<forall>e \<in> set (mk_nicks (place_row name w n m)). md_name (snd e) = fst e" if k: "\<forall>e \<in> set (mk_nicks m). md_name (snd e) = fst e"
  proof -
    have "md_name (case map_of (mk_nicks m) name of Some d \<Rightarrow> d | None \<Rightarrow> new_dict name) = name"
      using k by (force dest: map_of_SomeD split: option.split)
    then show ?thesis using assms k
      by (auto simp: place_row_def put_chain_def dest!: set_update_subset [THEN subsetD])
  qed
qed (use assms in \<open>auto simp: place_row_def dict_named_def put_chain_def Let_def\<close>)

lemma load_row_loaded:
  assumes ld: "loaded C rows m" and p: "parse_row (mk_order m) key = Some (n, w)" and u: "cd_unnode C js = Some nd"
    and n: "n = md_name (mk_main m) \<or> n = md_name (mk_reverse m) \<or> has_prefix ''nick_'' n"
    and ok: "stored_ok nd" and new: "key \<notin> fst ` set rows"
  shows "\<exists>m'. load_row C (key, js) (Some m) = Some m' \<and> loaded C (rows @ [(key, js)]) m' \<and> mk_order m' = mk_order m \<and>
    md_name (mk_main m') = md_name (mk_main m) \<and> md_name (mk_reverse m') = md_name (mk_reverse m)"
proof -
  obtain i T1 where i: "intern w (mk_words m) = (i, T1)" by fastforce
  obtain cn T2 where cn: "to_compact T1 nd = (cn, T2)" by fastforce
  let ?m = "place_row n w nd m"
  note P = place_row_parts [OF i cn, of n]
  have L: "in_ok (mk_words m)" "wf_map (mk_nicks m)" "\<forall>e \<in> set (mk_nicks m). md_name (snd e) = fst e"
    "case dict_named m k of None \<Rightarrow> rows_in (mk_order m) C k rows = []
      | Some d \<Rightarrow> same_at (mk_words m) (md_chains d) (rows_in (mk_order m) C k rows) \<and> good_map (md_chains d) \<and>
          below_all (length (in_strs (mk_words m))) (md_chains d)" for k
    using ld by (simp_all add: loaded_def)
  note I = intern_spec [OF L(1) i]
  have N: "in_ok T2" "extends T1 T2" "cn_count cn = nd_count nd" "same_at T2 (cn_kids cn) (nd_children nd)"
    "sorted_node cn" "below (length (in_strs T2)) cn"
    using to_compact_spec(1) [OF ok _ cn] I by auto
  have ex: "extends (mk_words m) T2" using I N(2) extends_trans by blast
  have r: "rows_in (mk_order m) C k (rows @ [(key, js)]) = (if k = n then (w, nd) # rows_in (mk_order m) C k rows else rows_in (mk_order m) C k rows)" for k
    by (auto simp: rows_in_def p u)
  have fresh: "map_of (rows_in (mk_order m) C n rows) w = None"
  proof (rule ccontr)
    assume "map_of (rows_in (mk_order m) C n rows) w \<noteq> None"
    then obtain x where "(w, x) \<in> set (rows_in (mk_order m) C n rows)" by (auto dest: map_of_SomeD)
    then obtain key' js' where "(key', js') \<in> set rows" "parse_row (mk_order m) key' = Some (n, w)"
      by (auto simp: rows_in_def split: option.splits prod.splits if_splits)
    moreover have "key' = key" using parse_row_only [OF p] parse_row_only [OF calculation(2)] by simp
    ultimately show False using new by force
  qed
  have "load_row C (key, js) (Some m) = Some ?m"
    using p n u by (auto simp: load_row_def parse_row_def split: if_splits prod.splits)
  moreover have "loaded C (rows @ [(key, js)]) ?m"
    unfolding loaded_def P(1,2)
  proof (intro conjI allI)
    fix k
    show "case dict_named ?m k of None \<Rightarrow> rows_in (mk_order m) C k (rows @ [(key, js)]) = []
      | Some d \<Rightarrow> same_at T2 (md_chains d) (rows_in (mk_order m) C k (rows @ [(key, js)])) \<and> good_map (md_chains d) \<and>
          below_all (length (in_strs T2)) (md_chains d)"
    proof (cases "k = n")
      case True
      let ?d = "case dict_named m n of Some d \<Rightarrow> d | None \<Rightarrow> new_dict n"
      have d: "same_at T2 (md_chains ?d) (rows_in (mk_order m) C n rows) \<and> good_map (md_chains ?d) \<and>
          below_all (length (in_strs T2)) (md_chains ?d)"
      proof (cases "dict_named m n")
        case None
        then show ?thesis using L(4) [of n] by (auto simp: new_dict_def same_at_def good_map_def below_all_def)
      next
        case (Some d)
        then show ?thesis using L(4) [of n] same_at_extends [OF _ ex] below_all_extends [OF _ ex] by simp
      qed
      have w: "map_of (in_ids T2) w = Some i" using extends_known [OF _ N(1,2)] I by blast
      then have il: "i < length (in_strs T2)" using N(1) by (simp add: in_ok_def)
      have "same_at T2 ((i, cn) # md_chains ?d) ((w, nd) # rows_in (mk_order m) C n rows)"
        using same_at_Cons [OF N(1) extends_refl N(1) w N(3,4) _ fresh] d by blast
      then have "same_at T2 (AList.update i cn (md_chains ?d)) ((w, nd) # rows_in (mk_order m) C n rows)"
        unfolding same_at_def by (subst cget_cong [of "AList.update i cn (md_chains ?d)" "(i, cn) # md_chains ?d"]) auto
      then show ?thesis
        using True d good_map_update N(5,6) below_all_update il by (simp add: P(5) r put_chain_def)
    next
      case False
      then show ?thesis
        using L(4) [of k] same_at_extends [OF _ ex] below_all_extends [OF _ ex] by (auto simp: P(5) r split: option.split)
    qed
  qed (use P(6,7) L(2,3) N(1) in auto)
  ultimately show ?thesis using P(2-4) by blast
qed

definition row_ok :: "codec \<Rightarrow> mk_data \<Rightarrow> string \<times> json \<Rightarrow> bool" where
  \<comment> \<open>a row that belongs to one of the dictionaries and can be read\<close>
  "row_ok C m e =
     (\<exists>n w nd. parse_row (mk_order m) (fst e) = Some (n, w) \<and> cd_unnode C (snd e) = Some nd \<and> stored_ok nd \<and>
        (n = md_name (mk_main m) \<or> n = md_name (mk_reverse m) \<or> has_prefix ''nick_'' n))"

lemma load_rows_loaded:
  assumes "loaded C [] m" and "\<forall>e \<in> set rows. row_ok C m e" and "wf_map rows"
  shows "\<exists>m'. fold (load_row C) rows (Some m) = Some m' \<and> loaded C rows m' \<and> mk_order m' = mk_order m \<and>
    md_name (mk_main m') = md_name (mk_main m) \<and> md_name (mk_reverse m') = md_name (mk_reverse m)"
  using assms(2,3)
proof (induction rows rule: rev_induct)
  case Nil
  then show ?case using assms(1) by simp
next
  case (snoc e rows)
  obtain key js where e: "e = (key, js)" by (cases e)
  obtain m' where m': "fold (load_row C) rows (Some m) = Some m'" "loaded C rows m'" "mk_order m' = mk_order m"
    "md_name (mk_main m') = md_name (mk_main m)" "md_name (mk_reverse m') = md_name (mk_reverse m)"
    using snoc by auto
  have "row_ok C m' e" using snoc.prems(1) m'(3-5) by (simp add: row_ok_def)
  then obtain n w nd where "parse_row (mk_order m') key = Some (n, w)" "cd_unnode C js = Some nd" "stored_ok nd"
      "n = md_name (mk_main m') \<or> n = md_name (mk_reverse m') \<or> has_prefix ''nick_'' n"
    unfolding row_ok_def e fst_conv snd_conv by blast
  from load_row_loaded [OF m'(2) this(1,2,4,3)] show ?case
    using snoc.prems(2) m' e by auto
qed

lemma rows_in_map:
  assumes "wf_map rows" and "CHR '':'' \<notin> set n"
  shows "map_of (rows_in order C n rows) w =
    (case map_of rows (row_name order n w) of None \<Rightarrow> None | Some js \<Rightarrow> cd_unnode C js)"
  using assms(1)
proof (induction rows rule: rev_induct)
  case Nil
  then show ?case by (simp add: rows_in_def)
next
  case (snoc e rows)
  obtain key js where e: "e = (key, js)" by (cases e)
  have step: "rows_in order C n (rows @ [e]) = (case (parse_row order key, cd_unnode C js) of
         (Some (n', w), Some nd) \<Rightarrow> if n' = n then [(w, nd)] else []
       | _ \<Rightarrow> []) @ rows_in order C n rows"
    by (auto simp: rows_in_def e split: option.split prod.split)
  have fresh: "map_of rows key = None" using snoc.prems e by (simp add: map_of_eq_None_iff)
  show ?case
  proof (cases "key = row_name order n w")
    case True
    then show ?thesis using parse_row_name [OF assms(2)] fresh snoc unfolding step
      by (auto simp: e map_add_def split: option.split)
  next
    case False
    then have "parse_row order key \<noteq> Some (n, w)" using parse_row_only by blast
    then show ?thesis using False snoc unfolding step
      by (auto simp: e map_add_def split: option.split prod.split)
  qed
qed

lemma nget_rel:
  assumes "\<And>w. case (map_of a w, map_of b w) of
      (None, None) \<Rightarrow> True
    | (Some x, Some y) \<Rightarrow> nd_count x = nd_count y \<and> (\<forall>p. nget (nd_children x) p = nget (nd_children y) p)
    | _ \<Rightarrow> False"
  shows "nget a p = nget b p"
proof (cases p)
  case (Cons w q)
  then show ?thesis using assms [of w] by (auto split: option.splits)
qed simp

lemma stored_dict_map:
  assumes "in_ok T" and "good_map (md_chains d)" and "below_all (length (in_strs T)) (md_chains d)"
  shows "map_of (stored_dict T d) w = word_row T d w"
  using map_of_from_kids [OF assms(1), of "md_chains d" "[]" w] assms(2,3)
  by (auto simp: stored_dict_def word_row_def good_map_def below_all_def split: option.split)

section \<open>A restart\<close>

definition dict_count :: "mk_data \<Rightarrow> string \<Rightarrow> string list \<Rightarrow> int option" where
  \<comment> \<open>the count of a path of words in the dictionary of that name\<close>
  "dict_count m n p =
     (case dict_named m n of None \<Rightarrow> None | Some d \<Rightarrow> nget (stored_dict (mk_words m) d) p)"

lemma insert_all_good: "good_map (insert_all es)"
proof (induction es rule: rev_induct)
  case Nil
  then show ?case by (simp add: insert_all_def good_map_def)
next
  case (snoc e es)
  then show ?case using good_top_path by (simp add: insert_all_def case_prod_beta)
qed

lemma insert_all_Nil: "\<forall>w \<in> set ws. w \<noteq> [] \<Longrightarrow> insert_all (once (map (ids_of T) ws)) = [] \<longleftrightarrow> ws = []"
proof (cases ws rule: rev_cases)
  case Nil
  then show ?thesis by (simp add: insert_all_def once_def)
next
  case (snoc vs v)
  assume "\<forall>w \<in> set ws. w \<noteq> []"
  then obtain i js where "ids_of T v = i # js" using snoc by (cases v) (auto simp: ids_of_def)
  then have "insert_all (once (map (ids_of T) ws)) = AList.update i (bump_path 1 js (bump 1 (kid_or_new i (insert_all (once (map (ids_of T) vs))))))
      (insert_all (once (map (ids_of T) vs)))"
    by (simp add: snoc insert_all_def once_def kid_or_new_def)
  moreover have "AList.update k x l \<noteq> []" for k :: nat and x :: cnode and l by (cases l) auto
  ultimately show ?thesis using snoc by simp
qed

lemma main_reverse_empty:
  assumes "data_inv U log m"
  shows "md_chains (mk_main m) = [] \<longleftrightarrow> md_chains (mk_reverse m) = []"
proof -
  let ?ws = "all_windows (mk_order m) (lines_of U log)" and ?rs = "all_windows (mk_order m) (map rev (lines_of U log))"
  have "\<forall>w \<in> set ?ws. w \<noteq> []" "\<forall>w \<in> set ?rs. w \<noteq> []" using window_facts by blast+
  from this [THEN insert_all_Nil] have "md_chains (mk_main m) = [] \<longleftrightarrow> ?ws = []" "md_chains (mk_reverse m) = [] \<longleftrightarrow> ?rs = []"
    using data_invD(4,5) [OF assms] unfolding holds_def by simp_all
  moreover have "length ?rs = length ?ws" using all_windows_rev [of "\<lambda>w. True"] by simp
  ultimately show ?thesis by (metis length_0_conv)
qed

lemma fresh_loaded:
  "in_ok tab \<Longrightarrow> loaded C [] \<lparr>mk_order = ord, mk_words = tab, mk_main = new_dict a, mk_reverse = new_dict b, mk_nicks = []\<rparr>"
  by (auto simp: loaded_def dict_named_def new_dict_def same_at_def good_map_def below_all_def rows_in_def)

lemma chains_empty:
  assumes "in_ok T" and "good_map (md_chains d)" and "below_all (length (in_strs T)) (md_chains d)"
  shows "md_chains d = [] \<longleftrightarrow> (\<forall>p. nget (stored_dict T d) p = None)"
proof
  assume "md_chains d = []"
  then show "\<forall>p. nget (stored_dict T d) p = None" by (simp add: stored_dict_def)
next
  assume n: "\<forall>p. nget (stored_dict T d) p = None"
  show "md_chains d = []"
  proof (rule ccontr)
    assume "md_chains d \<noteq> []"
    then obtain i nd where e: "(i, nd) \<in> set (md_chains d)" by (cases "md_chains d") auto
    then have "map_of (md_chains d) i = Some nd" using assms(2) by (simp add: good_map_def map_of_some_iff)
    moreover have "map_of (in_ids T) (in_strs T ! i) = Some i"
      using e assms(1,3) in_okD by (fastforce simp: below_all_def)
    ultimately have "map_of (stored_dict T d) (in_strs T ! i) = Some (from_compact T nd)"
      unfolding stored_dict_map [OF assms] by (simp add: word_row_def)
    then show False using n [rule_format, of "[in_strs T ! i]"] by simp
  qed
qed

lemma holds_good: "holds T ws d \<Longrightarrow> good_map (md_chains d)"
  using insert_all_good by (simp add: holds_def)

lemma restart_same:
  assumes inv: "data_inv U log m" and names: "names_ok m" and C: "codec_ok C" and st: "mem_inv st" and tab: "in_ok tab"
    and rows: "\<And>key. mem_get ''markov'' key st = map_option (cd_node C) (row_of m key)"
  shows "\<exists>m'. load_dictionaries C (mk_order m) (md_name (mk_main m)) tab st = Some (m', st) \<and>
    (\<forall>n p. dict_count m' n p = dict_count m n p)"
proof -
  let ?al = "mem_get_all ''markov'' st" and ?ord = "mk_order m" and ?main = "md_name (mk_main m)"
  let ?m0 = "\<lparr>mk_order = ?ord, mk_words = tab, mk_main = new_dict ?main, mk_reverse = new_dict (''reverse_'' @ ?main), mk_nicks = []\<rparr>"
  note D = data_invD [OF inv]
  have wf: "wf_map ?al" using ns_data_wf [OF st] by (simp add: mem_get_all_def)
  have al: "map_of ?al key = map_option (cd_node C) (row_of m key)" for key
    using rows [of key] by (simp add: mem_get_def mem_get_all_def)
  have nm: "main_name_ok ?main" "md_name (mk_reverse m) = ''reverse_'' @ ?main"
    "\<And>e. e \<in> set (mk_nicks m) \<Longrightarrow> nick_ok (fst e) \<and> md_name (snd e) = fst e"
    using names by (auto simp: names_ok_def)
  have named: "n = ?main \<or> n = ''reverse_'' @ ?main \<or> has_prefix ''nick_'' n" "CHR '':'' \<notin> set n"
    if "dict_named m n = Some d" for n d
    using that nm by (auto simp: dict_named_def nick_ok_def main_name_ok_def split: if_splits dest: map_of_SomeD)
  have "row_ok C ?m0 e" if e: "e \<in> set ?al" for e
  proof -
    have "map_of ?al (fst e) = Some (snd e)" using e wf by (simp add: map_of_some_iff)
    then obtain nd where nd: "row_of m (fst e) = Some nd" "snd e = cd_node C nd" using al by auto
    then obtain n w d where "parse_row ?ord (fst e) = Some (n, w)" "dict_named m n = Some d"
      by (auto simp: row_of_def split: option.splits)
    moreover obtain nd' where "cd_unnode C (snd e) = Some nd'" "stored_ok nd'"
      using C row_stored [OF inv nd(1)] nd(2) by (auto simp: codec_ok_def)
    ultimately show ?thesis using named by (auto simp: row_ok_def new_dict_def)
  qed
  then obtain m1 where m1: "fold (load_row C) ?al (Some ?m0) = Some m1" "loaded C ?al m1" "mk_order m1 = ?ord"
    "md_name (mk_main m1) = ?main" "md_name (mk_reverse m1) = ''reverse_'' @ ?main"
    using load_rows_loaded [OF fresh_loaded [OF tab] _ wf, of C ?ord ?main "''reverse_'' @ ?main"] by auto
  have L: "in_ok (mk_words m1)" "wf_map (mk_nicks m1)" "\<forall>e \<in> set (mk_nicks m1). md_name (snd e) = fst e"
    using m1(2) by (simp_all add: loaded_def)
  have L': "case dict_named m1 n of None \<Rightarrow> rows_in ?ord C n ?al = []
      | Some d \<Rightarrow> same_at (mk_words m1) (md_chains d) (rows_in ?ord C n ?al) \<and> good_map (md_chains d) \<and>
          below_all (length (in_strs (mk_words m1))) (md_chains d)" for n
    using m1(2) unfolding loaded_def m1(3) by blast
  have rowm: "row_of m (row_name ?ord n w) = (case dict_named m n of None \<Rightarrow> None | Some d \<Rightarrow> word_row (mk_words m) d w)"
    if "CHR '':'' \<notin> set n" for n w
    using parse_row_name [OF that] by (simp add: row_of_def)
  have new: "dict_count m1 n p = nget (rows_in ?ord C n ?al) p" for n p
  proof (cases "dict_named m1 n")
    case None
    then show ?thesis using L' [of n] by (simp add: dict_count_def)
  next
    case (Some d)
    then have s: "same_at (mk_words m1) (md_chains d) (rows_in ?ord C n ?al)" and g: "good_map (md_chains d)"
      and b: "below_all (length (in_strs (mk_words m1))) (md_chains d)" using L' [of n] by simp_all
    have "nget (stored_dict (mk_words m1) d) p = nget (rows_in ?ord C n ?al) p"
      using nget_from_kids [OF L(1) g b, of p] s L(1) unfolding same_at_def stored_dict_def by simp
    then show ?thesis using Some by (simp add: dict_count_def)
  qed
  have dok: "good_map (md_chains d)" "below_all (length (in_strs (mk_words m))) (md_chains d)" if "dict_named m n = Some d" for n d
  proof -
    show "below_all (length (in_strs (mk_words m))) (md_chains d)" by (rule data_below [OF inv that])
    show "good_map (md_chains d)"
      using that D(4,5,8) holds_good by (metis dict_named_def option.inject)
  qed
  have old: "nget (rows_in ?ord C n ?al) p = dict_count m n p" for n p
  proof (cases "CHR '':'' \<in> set n")
    case True
    then have "dict_named m n = None" using named(2) by (cases "dict_named m n") auto
    moreover have "rows_in ?ord C n ?al = []"
      using True parse_row_only by (fastforce simp: rows_in_def split: option.split prod.split)
    ultimately show ?thesis by (simp add: dict_count_def)
  next
    case False
    show ?thesis
    proof (cases "dict_named m n")
      case None
      then have "map_of (rows_in ?ord C n ?al) w = None" for w
        using rows_in_map [OF wf False, of ?ord C w] rowm [OF False] al by simp
      then have "map_of (rows_in ?ord C n ?al) = Map.empty" by blast
      then show ?thesis using None by (simp add: dict_count_def)
    next
      case (Some d)
      have "nget (rows_in ?ord C n ?al) p = nget (stored_dict (mk_words m) d) p"
      proof (rule nget_rel)
        fix w
        have sd: "map_of (stored_dict (mk_words m) d) w = word_row (mk_words m) d w"
          by (rule stored_dict_map [OF D(2) dok [OF Some]])
        have r: "row_of m (row_name ?ord n w) = word_row (mk_words m) d w" using rowm [OF False] Some by simp
        show "case (map_of (rows_in ?ord C n ?al) w, map_of (stored_dict (mk_words m) d) w) of
            (None, None) \<Rightarrow> True
          | (Some x, Some y) \<Rightarrow> nd_count x = nd_count y \<and> (\<forall>p. nget (nd_children x) p = nget (nd_children y) p)
          | _ \<Rightarrow> False"
        proof (cases "word_row (mk_words m) d w")
          case None
          then show ?thesis using rows_in_map [OF wf False, of ?ord C w] r al sd by simp
        next
          case (Some nd)
          then have "stored_ok nd" using row_stored [OF inv] r by simp
          then obtain nd' where "cd_unnode C (cd_node C nd) = Some nd'" "nd_count nd' = nd_count nd"
            "\<forall>p. nget (nd_children nd') p = nget (nd_children nd) p" using C by (auto simp: codec_ok_def)
          then show ?thesis using rows_in_map [OF wf False, of ?ord C w] r al sd Some by simp
        qed
      qed
      then show ?thesis using Some by (simp add: dict_count_def)
    qed
  qed
  have same: "dict_count m1 n p = dict_count m n p" for n p using new old by simp
  have leg: "map_of ?al (store_key ?ord ?main) = None"
  proof -
    have "parse_row ?ord (store_key ?ord ?main) = None"
      using nm(1) by (simp add: parse_row_def store_key_def trim_prefix_def cut_def main_name_ok_def)
    then show ?thesis using al by (simp add: row_of_def)
  qed
  have noderive: "md_chains (mk_reverse m1) \<noteq> [] \<or> md_chains (mk_main m1) = []"
  proof (rule ccontr)
    assume "\<not> ?thesis"
    then have e: "md_chains (mk_reverse m1) = []" "md_chains (mk_main m1) \<noteq> []" by simp_all
    have a: "dict_named m1 ?main = Some (mk_main m1)" "dict_named m1 (''reverse_'' @ ?main) = Some (mk_reverse m1)"
      "dict_named m ?main = Some (mk_main m)" "dict_named m (''reverse_'' @ ?main) = Some (mk_reverse m)"
      using m1(4,5) nm(2) by (auto simp: dict_named_def)
    have "\<forall>p. dict_count m (''reverse_'' @ ?main) p = None"
      using e(1) a(2) unfolding same [symmetric] by (simp add: dict_count_def stored_dict_def)
    then have "md_chains (mk_reverse m) = []"
      using chains_empty [OF D(2) dok [OF a(4)]] a(4) by (simp add: dict_count_def)
    then have "md_chains (mk_main m) = []" using main_reverse_empty [OF inv] by simp
    then have "\<forall>p. dict_count m1 ?main p = None"
      using a(3) unfolding same by (simp add: dict_count_def stored_dict_def)
    moreover have "good_map (md_chains (mk_main m1))" "below_all (length (in_strs (mk_words m1))) (md_chains (mk_main m1))"
      using L' [of ?main] a(1) by simp_all
    ultimately show False using chains_empty [OF L(1)] a(1) e(2) by (simp add: dict_count_def)
  qed
  let ?rb = "rebuild_keys (mk_words m1)"
  let ?m3 = "m1\<lparr>mk_main := ?rb (mk_main m1), mk_reverse := ?rb (mk_reverse m1), mk_nicks := map (\<lambda>(n, d). (n, ?rb d)) (mk_nicks m1)\<rparr>"
  have "load_dictionaries C ?ord ?main tab st = Some (?m3, st)"
    unfolding load_dictionaries_def Let_def m1(1) using leg noderive m1(3,4)
    by (simp add: migrate_legacy_def derive_persisted_def Let_def)
  moreover have "dict_count ?m3 n p = dict_count m1 n p" for n p
  proof -
    have "dict_named ?m3 n = map_option ?rb (dict_named m1 n)"
      using map_of_map_snd [of "\<lambda>k. ?rb" "mk_nicks m1" n] by (simp add: dict_named_def)
    then show ?thesis by (cases "dict_named m1 n") (simp_all add: dict_count_def stored_dict_def)
  qed
  ultimately show ?thesis using same by auto
qed

section \<open>With the saver in between\<close>

text \<open>
  The module learns, marking the rows it changes; the saver flushes, writes and completes at any time,
  with any writes failing.
\<close>

inductive chatter :: "case_tables \<Rightarrow> codec \<Rightarrow> mk_data saver_state \<Rightarrow> mk_data saver_state \<Rightarrow> bool" for U C where
  chatter_hear: "learn_msg U who t (module_data x) = (ks, d) \<Longrightarrow> who = [] \<or> nick_ok (nick_name U who) \<Longrightarrow>
    chatter U C x (x\<lparr>module_data := d, saver := fold (\<lambda>k. mark k (mk_value C k)) ks (saver x), marked := marked x \<union> set ks\<rparr>)"
| chatter_save: "saver_step (mk_value C) x y \<Longrightarrow> module_data y = module_data x \<Longrightarrow> marked y = marked x \<Longrightarrow> chatter U C x y"

inductive_cases chatterE: "chatter U C x y"

definition chatter_inv :: "case_tables \<Rightarrow> codec \<Rightarrow> mk_data saver_state \<Rightarrow> bool" where
  "chatter_inv U C x \<longleftrightarrow>
     saver_inv (mk_value C) x \<and> (\<exists>log. data_inv U log (module_data x)) \<and> names_ok (module_data x) \<and>
     (\<forall>k. mem_look (store x) k \<noteq> None \<longrightarrow> k \<in> marked x) \<and>
     (\<forall>k. k \<in> marked x \<longleftrightarrow> fst k = ''markov'' \<and> row_of (module_data x) (snd k) \<noteq> None)"

lemma value_row: "data_inv U log m \<Longrightarrow> names_ok m \<Longrightarrow>
    mk_value C k m = (if fst k = ''markov'' then map_option (cd_node C) (row_of m (snd k)) else None)"
  by (simp add: mk_value_def data_rows)

lemma insert_all_has:
  "w \<in> set ws \<Longrightarrow> f w \<noteq> [] \<Longrightarrow> map_of (insert_all (once (map f ws))) (hd (f w)) \<noteq> None"
proof (induction ws rule: rev_induct)
  case (snoc v ws)
  have i: "insert_all (once (map f (ws @ [v]))) = top_path 1 (f v) (insert_all (once (map f ws)))"
    by (simp add: insert_all_def once_def)
  have keep: "map_of (top_path 1 p dic) j \<noteq> None" if "map_of dic j \<noteq> None" for p dic j
    using that by (cases p) auto
  show ?case
  proof (cases "w = v")
    case True
    then show ?thesis using snoc.prems(2) unfolding i by (cases "f v") auto
  next
    case False
    then show ?thesis unfolding i using snoc by (intro keep) simp
  qed
qed simp

lemma holds_row:
  assumes "in_ok T" and "holds T ws d" and "v \<in> set ws" and "v \<noteq> []"
  shows "word_row T d (hd v) \<noteq> None"
proof -
  obtain u vs where v: "v = u # vs" using assms(4) by (cases v) auto
  have "known T v" using assms(2,3) by (simp add: holds_def)
  then obtain i where i: "map_of (in_ids T) u = Some i" by (auto simp: v known_def)
  have "map_of (md_chains d) (hd (ids_of T v)) \<noteq> None"
    using insert_all_has [OF assms(3), of "ids_of T"] assms(2) by (simp add: holds_def v ids_of_def)
  then show ?thesis using i by (auto simp: v ids_of_def word_row_def)
qed

lemma learn_into_name: "learn_into order toks T d = (T', d') \<Longrightarrow> md_name d' = md_name d"
  by (auto simp: learn_into_def Let_def split: prod.splits if_splits)

lemma learn_msg_marks:
  assumes inv: "data_inv U log d" and U: "printing U" and names: "names_ok d" and l: "learn_msg U who t d = (ks, d')"
    and nick: "who = [] \<or> nick_ok (nick_name U who)" and k: "k \<in> set ks"
  shows "fst k = ''markov'' \<and> row_of d' (snd k) \<noteq> None"
proof -
  let ?e = "case map_of (mk_nicks d) (nick_name U who) of Some e \<Rightarrow> e | None \<Rightarrow> new_dict (nick_name U who)"
  obtain tab1 tab2 tab3 nd where
    nm: "learn_into (mk_order d) (line_tokens U t) (mk_words d) (mk_main d) = (tab1, mk_main d')"
    "learn_into (mk_order d) (rev (line_tokens U t)) tab1 (mk_reverse d) = (tab2, mk_reverse d')"
    "learn_into (mk_order d) (line_tokens U t) tab2 ?e = (tab3, nd)" and o': "mk_order d' = mk_order d"
    and nk: "mk_nicks d' = (if who = [] then mk_nicks d else AList.update (nick_name U who) nd (mk_nicks d))"
    and ks: "set ks = set (row_marks (mk_order d) (line_tokens U t) (mk_main d)) \<union>
       set (row_marks (mk_order d) (rev (line_tokens U t)) (mk_reverse d)) \<union>
       (if who = [] then {} else set (row_marks (mk_order d) (line_tokens U t) ?e))"
    by (rule learn_msg_parts [OF inv l])
  have "md_name (mk_main d') = md_name (mk_main d) \<and> md_name (mk_reverse d') = md_name (mk_reverse d)"
    using nm(1,2) [THEN learn_into_name] by simp
  note names' = learn_msg_rows(1) [OF inv names l nick] and D' = learn_msg_inv [OF inv U l]
  note I = data_invD [OF conjunct1 [OF D']]
  have e: "md_name ?e = nick_name U who"
    using names by (force simp: names_ok_def dest: map_of_SomeD split: option.split)
  have win: "v \<noteq> []" if "v \<in> set (windows (mk_order d) toks)" for v :: "string list" and toks
    using window_facts [of v "mk_order d" "[toks]"] that by (simp add: all_windows_def)
  have row: "row_of d' (row_name (mk_order d) (md_name g) (hd v)) \<noteq> None"
    if "dict_named d' (md_name g) = Some g" "CHR '':'' \<notin> set (md_name g)" "holds (mk_words d') ws g" "v \<in> set ws" "v \<noteq> []" for g ws v
    using holds_row [OF I(2) that(3-5)] parse_row_name [OF that(2)] that(1) o' by (simp add: row_of_def)
  have lw: "set (windows (mk_order d) (line_tokens U t)) \<subseteq> set (all_windows (mk_order d) (lines_of U (log @ [(who, t)])))"
    "set (windows (mk_order d) (rev (line_tokens U t))) \<subseteq> set (all_windows (mk_order d) (map rev (lines_of U (log @ [(who, t)]))))"
    by (simp_all add: lines_of_def all_windows_append)
  have mn: "CHR '':'' \<notin> set (md_name (mk_main d'))" "md_name (mk_reverse d') = ''reverse_'' @ md_name (mk_main d')"
    using names' by (simp_all add: names_ok_def main_name_ok_def)
  consider v where "v \<in> set (windows (mk_order d) (line_tokens U t))" "k = (''markov'', row_name (mk_order d) (md_name (mk_main d')) (hd v))"
    | v where "v \<in> set (windows (mk_order d) (rev (line_tokens U t)))" "k = (''markov'', row_name (mk_order d) (md_name (mk_reverse d')) (hd v))"
    | v where "who \<noteq> []" "v \<in> set (windows (mk_order d) (line_tokens U t))" "k = (''markov'', row_name (mk_order d) (nick_name U who) (hd v))"
    using k ks \<open>md_name (mk_main d') = _ \<and> _\<close> e by (auto simp: row_marks_def split: if_splits)
  then show ?thesis
  proof cases
    case (1 v)
    have "dict_named d' (md_name (mk_main d')) = Some (mk_main d')" by (simp add: dict_named_def)
    from row [OF this mn(1) I(4)] show ?thesis using 1 lw(1) win by (auto simp: o')
  next
    case (2 v)
    have "dict_named d' (md_name (mk_reverse d')) = Some (mk_reverse d')" "CHR '':'' \<notin> set (md_name (mk_reverse d'))"
      using mn by (auto simp: dict_named_def)
    from row [OF this I(5)] show ?thesis using 2 lw(2) win by (auto simp: o')
  next
    case (3 v)
    then have m: "map_of (mk_nicks d') (nick_name U who) = Some nd" by (simp add: nk)
    have N: "md_name nd = nick_name U who"
      "holds (mk_words d') (all_windows (mk_order d) (lines_of U (by_nick U (nick_name U who) (log @ [(who, t)])))) nd"
      using I(8) [OF m] o' by simp_all
    have "nick_ok (nick_name U who)" using nick 3(1) by simp
    then have "dict_named d' (md_name nd) = Some nd" "CHR '':'' \<notin> set (md_name nd)"
      using m N(1) mn names' by (auto simp: dict_named_def nick_ok_def names_ok_def main_name_ok_def has_prefix_def)
    moreover have "v \<in> set (all_windows (mk_order d) (lines_of U (by_nick U (nick_name U who) (log @ [(who, t)]))))"
      using 3(1,2) by (simp add: by_nick_def lines_of_def all_windows_append)
    ultimately show ?thesis using row [OF _ _ N(2)] win [OF 3(2)] 3(3) N(1) by auto
  qed
qed

lemma chatter_keeps:
  assumes "chatter_inv U C x" and U: "printing U" and "chatter U C x y"
  shows "chatter_inv U C y"
  using assms(3)
proof cases
  case (chatter_hear who t ks d)
  obtain log where inv: "data_inv U log (module_data x)" and names: "names_ok (module_data x)" and s: "saver_inv (mk_value C) x"
    and st: "\<And>k. mem_look (store x) k \<noteq> None \<Longrightarrow> k \<in> marked x"
    and mk: "\<And>k. k \<in> marked x \<longleftrightarrow> fst k = ''markov'' \<and> row_of (module_data x) (snd k) \<noteq> None"
    using assms(1) by (auto simp: chatter_inv_def)
  note R = learn_msg_rows [OF inv names chatter_hear(2,3)]
  note M = learn_msg_marks [OF inv U names chatter_hear(2,3)]
  have inv': "data_inv U (log @ [(who, t)]) d" using learn_msg_inv [OF inv U chatter_hear(2)] by simp
  have same: "mk_value C k d = mk_value C k (module_data x)" if "k \<notin> set ks" for k
    using R(2) [of "snd k"] that unfolding value_row [OF inv names] value_row [OF inv' R(1)]
    by (cases k) auto
  have "k \<in> marked x \<union> set ks \<longleftrightarrow> fst k = ''markov'' \<and> row_of d (snd k) \<noteq> None" for k
  proof (cases "k \<in> set ks")
    case True
    then show ?thesis using M by simp
  next
    case False
    then show ?thesis using R(2) [of "snd k"] mk [of k] by (cases k) auto
  qed
  then show ?thesis
    using change_inv [OF s same] inv' R(1) st unfolding chatter_hear(1) chatter_inv_def by auto
next
  case chatter_save
  obtain log where inv: "data_inv U log (module_data x)" and names: "names_ok (module_data x)" and s: "saver_inv (mk_value C) x"
    and st: "\<And>k. mem_look (store x) k \<noteq> None \<Longrightarrow> k \<in> marked x"
    and mk: "\<And>k. k \<in> marked x \<longleftrightarrow> fst k = ''markov'' \<and> row_of (module_data x) (snd k) \<noteq> None"
    using assms(1) by (auto simp: chatter_inv_def)
  have "k \<in> marked y" if "mem_look (store y) k \<noteq> None" for k
    using chatter_save(1)
  proof cases
    case (step_write raws bad failed st')
    have wf: "wf_map raws" "fst ` set raws \<subseteq> marked x" using saver_invD(4) [OF s step_write(2)] by auto
    have "map_of raws k \<noteq> None \<or> mem_look (store x) k \<noteq> None"
      using mem_store.write_spec [OF wf(1) saver_invD(1) [OF s] step_write(3), of k] that step_write(1)
      by (auto split: option.splits if_splits)
    then have "k \<in> marked x" using st [of k] wf(2) by (metis map_of_eq_None_iff subsetD)
    then show ?thesis using chatter_save(3) by simp
  qed (use that st chatter_save(3) in auto)
  then show ?thesis
    using saver_step_inv [OF chatter_save(1) s] inv names mk chatter_save(2,3) unfolding chatter_inv_def by auto
qed

lemma chatter_settled:
  assumes "chatter_inv U C x" and "phase x = Idle" and "dirty (saver x) = []"
  shows "mem_get ''markov'' key (store x) = map_option (cd_node C) (row_of (module_data x) key)"
proof -
  obtain log where inv: "data_inv U log (module_data x)" and names: "names_ok (module_data x)" and s: "saver_inv (mk_value C) x"
    and st: "\<And>k. mem_look (store x) k \<noteq> None \<Longrightarrow> k \<in> marked x"
    and mk: "\<And>k. k \<in> marked x \<longleftrightarrow> fst k = ''markov'' \<and> row_of (module_data x) (snd k) \<noteq> None"
    using assms(1) by (auto simp: chatter_inv_def)
  have v: "mk_value C (''markov'', key) (module_data x) = map_option (cd_node C) (row_of (module_data x) key)"
    by (simp add: value_row [OF inv names])
  show ?thesis
  proof (cases "row_of (module_data x) key")
    case None
    then have "(''markov'', key) \<notin> marked x" using mk [of "(''markov'', key)"] by simp
    then have "mem_look (store x) (''markov'', key) = None" using st by blast
    then show ?thesis using None by (simp add: mem_look_def)
  next
    case (Some n)
    then have "(''markov'', key) \<in> marked x" using mk [of "(''markov'', key)"] by simp
    from saver_invD(7) [OF s this] show ?thesis
      using assms(2,3) Some v by (simp add: accounted_def mem_look_def)
  qed
qed


section \<open>A line, a flush and a restart\<close>

instance node :: countable
  by countable_datatype

definition counted_codec :: codec where
  \<comment> \<open>a codec by an enumeration of the nodes\<close>
  "counted_codec = \<lparr>cd_node = (\<lambda>n. replicate (to_nat n) (CHR ''x'')), cd_unnode = (\<lambda>j. Some (from_nat (length j))),
     cd_blob = (\<lambda>j. None), cd_raw = Some\<rparr>"

lemma counted_codec_ok: "codec_ok counted_codec"
  by (simp add: codec_ok_def counted_codec_def)

lemma chatter_settles:
  assumes "phase x = Idle" and "\<not> inflight (saver x)"
  shows "\<exists>y. (chatter U C)\<^sup>*\<^sup>* x y \<and> phase y = Idle \<and> dirty (saver y) = [] \<and> module_data y = module_data x"
proof (cases "dirty (saver x) = []")
  case True
  then show ?thesis using assms(1) by blast
next
  case False
  then obtain raws s where f: "flush (module_data x) (saver x) = (Some raws, s)" and s: "dirty s = []"
    using assms(2) by (auto simp: flush_def serialize_def)
  define x1 where "x1 = x\<lparr>saver := s, phase := Writing raws\<rparr>"
  obtain failed st where w: "write_batches mem_put_raws (\<lambda>ns. False) raws (store x1) = (failed, st)" by fastforce
  define x2 where "x2 = x1\<lparr>store := st, phase := Written raws failed\<rparr>"
  define y where "y = x2\<lparr>saver := complete raws failed (saver x2), phase := Idle\<rparr>"
  have "saver_step (mk_value C) x x1" unfolding x1_def by (rule step_flush [OF f])
  moreover have "saver_step (mk_value C) x1 x2"
    unfolding x2_def by (rule step_write [OF _ w]) (simp add: x1_def)
  moreover have "saver_step (mk_value C) x2 y"
    unfolding y_def by (rule step_complete) (simp add: x2_def)
  ultimately have "chatter U C x x1" "chatter U C x1 x2" "chatter U C x2 y"
    by (auto simp: x1_def x2_def y_def intro: chatter_save)
  then have "(chatter U C)\<^sup>*\<^sup>* x y" by (meson converse_rtranclp_into_rtranclp rtranclp.rtrancl_refl)
  moreover have "failed = []"
  proof -
    have "fst (fold (write_ns mem_put_raws (\<lambda>ns. False) r) nss (f0, st0)) = f0" for r nss f0 st0
      by (induction nss arbitrary: st0) (simp_all add: write_ns_def)
    then show ?thesis using w by (auto simp: write_batches_def) (metis fst_conv)
  qed
  moreover have "fold (requeue []) raws d = d" for d :: "(skey \<times> (mk_data \<Rightarrow> json option)) list"
    by (induction raws arbitrary: d) (auto simp: requeue_def)
  ultimately show ?thesis using s by (intro exI [of _ y]) (simp add: y_def x2_def x1_def complete_def)
qed


end
