(* ===== verification/Karma.thy ===== *)
theory Karma
  imports Go_Case Go_Regex Cmd Storage
begin

text \<open>
  modules/karma/karma.go: the tallies of items per channel and over all, with the reasons given. The maps
  of the source are association lists; the JSON form of the data is the record \<open>kr_codec\<close>. Every write to
  the store comes with its outcome, an argument; the source ignores it.
\<close>

section \<open>State\<close>

record entry =
  k_karma :: int
  k_last :: int
  k_reasons :: "(string \<times> (string \<times> int) list) list"  \<comment> \<open>"up" or "down", reason, count\<close>

type_synonym entries = "(string \<times> entry) list"

record karma_data =
  kd_servers :: "(string \<times> (string \<times> entries) list) list"
  kd_global :: entries

record kr_codec =
  kc_enc :: "karma_data \<Rightarrow> json"
  kc_dec :: "json \<Rightarrow> karma_data option"

record karma =
  kr_data :: karma_data
  kr_store :: memory

section \<open>The patterns\<close>

definition smiley_heads :: "string list" where
  "smiley_heads = [''(:'', ''(-:'', ''(;'', ''(-;'', '';)'', '';-)'', '':)'', '':-)'']"

definition blank_tail :: "string \<Rightarrow> bool" where
  "blank_tail s = list_all is_ws s"

definition smiley_tail :: "string \<Rightarrow> bool" where
  \<comment> \<open>\<open>\s*(?:\(-?:|\(-?;|;-?\)|:-?\))?\s*$\<close>\<close>
  "smiley_tail s =
     (let r = dropWhile is_ws s in
      r = [] \<or> list_ex (\<lambda>m. has_prefix m r \<and> blank_tail (drop (length m) r)) smiley_heads)"

definition plain_op :: "string \<Rightarrow> string option" where
  \<comment> \<open>what follows the item in \<open>plainRe\<close>\<close>
  "plain_op r =
     (if has_prefix ''++'' r \<and> smiley_tail (drop 2 r) then Some ''++''
      else if has_prefix ''--'' r \<and> smiley_tail (drop 2 r) then Some ''--''
      else if has_prefix ''?'' r \<and> smiley_tail (drop 1 r) then Some ''?'' else None)"

definition reason_op :: "string \<Rightarrow> (string \<times> string) option" where
  \<comment> \<open>what follows the item in \<open>reasonRe\<close>\<close>
  "reason_op r =
     (if has_prefix ''++'' r \<or> has_prefix ''--'' r then
        (case dropWhile is_ws (drop 2 r) of
           [] \<Rightarrow> None
         | c # t \<Rightarrow>
             if c = CHR ''#'' then
               (let why = rev (dropWhile is_ws (rev (dropWhile is_ws t)))
                in if CHR 0x0A \<in> set why then None else Some (take 2 r, why))
             else None)
      else None)"

fun longest_item :: "(string \<Rightarrow> 'a option) \<Rightarrow> string \<Rightarrow> nat \<Rightarrow> (string \<times> 'a) option" where
  \<comment> \<open>the greedy \<open>(.+)\<close>: the longest item of at most \<open>n\<close> bytes that the rest lets match\<close>
  "longest_item f t 0 = None"
| "longest_item f t (Suc n) =
     (case f (drop (Suc n) t) of
        Some x \<Rightarrow> if CHR 0x0A \<in> set (take (Suc n) t) then longest_item f t n else Some (take (Suc n) t, x)
      | None \<Rightarrow> longest_item f t n)"

definition parse_karma :: "string \<Rightarrow> (string \<times> string \<times> string) option" where
  \<comment> \<open>item, operator and reason\<close>
  "parse_karma s =
     (case s of
        [] \<Rightarrow> None
      | c # t \<Rightarrow>
          if c \<noteq> CHR ''!'' then None
          else
            (case longest_item plain_op t (length t) of
               Some (item, opr) \<Rightarrow> Some (item, opr, [])
             | None \<Rightarrow>
                 (case longest_item reason_op t (length t) of
                    Some (item, opr, why) \<Rightarrow> Some (item, opr, why)
                  | None \<Rightarrow> None)))"

section \<open>Tallies\<close>

definition chan_entries :: "string \<Rightarrow> string \<Rightarrow> karma_data \<Rightarrow> entries" where
  \<comment> \<open>the map of a channel, a missing one as empty\<close>
  "chan_entries srv ch d =
     (case map_of (kd_servers d) srv of
        None \<Rightarrow> []
      | Some chans \<Rightarrow> (case map_of chans ch of None \<Rightarrow> [] | Some es \<Rightarrow> es))"

definition put_chan :: "string \<Rightarrow> string \<Rightarrow> entries \<Rightarrow> karma_data \<Rightarrow> karma_data" where
  "put_chan srv ch es d =
     (let chans = (case map_of (kd_servers d) srv of None \<Rightarrow> [] | Some c \<Rightarrow> c)
      in d\<lparr>kd_servers := AList.update srv (AList.update ch es chans) (kd_servers d)\<rparr>)"

definition entry_in :: "int \<Rightarrow> string \<Rightarrow> entries \<Rightarrow> entry" where
  \<comment> \<open>\<open>entryFor\<close> and \<open>globalFor\<close>: the entry, a new one when there is none\<close>
  "entry_in now item es =
     (case map_of es item of Some e \<Rightarrow> e | None \<Rightarrow> \<lparr>k_karma = 0, k_last = now, k_reasons = []\<rparr>)"

definition reasons_of :: "string \<Rightarrow> entry \<Rightarrow> (string \<times> int) list" where
  "reasons_of ud e = (case map_of (k_reasons e) ud of Some rs \<Rightarrow> rs | None \<Rightarrow> [])"

definition count_reason :: "string \<Rightarrow> (string \<times> int) list \<Rightarrow> int" where
  "count_reason why rs = (case map_of rs why of Some n \<Rightarrow> n | None \<Rightarrow> 0)"

definition bump_entry :: "int \<Rightarrow> string \<Rightarrow> entry \<Rightarrow> entry" where
  "bump_entry amount why e =
     (let e' = e\<lparr>k_karma := k_karma e + amount\<rparr>; ud = (if 0 < amount then ''up'' else ''down''); rs = reasons_of ud e
      in if 3 \<le> length why
         then e'\<lparr>k_reasons := AList.update ud (AList.update why (count_reason why rs + 1) rs) (k_reasons e)\<rparr>
         else e')"

definition save_karma :: "kr_codec \<Rightarrow> bool \<Rightarrow> karma \<Rightarrow> karma" where
  "save_karma C ok m =
     (case mem_put ''karma'' ''karma'' (if ok then Some (kc_enc C (kr_data m)) else None) (kr_store m) of
        None \<Rightarrow> m
      | Some st \<Rightarrow> m\<lparr>kr_store := st\<rparr>)"

definition adjust :: "case_tables \<Rightarrow> kr_codec \<Rightarrow> bool \<Rightarrow> int \<Rightarrow> string \<Rightarrow> int \<Rightarrow> string \<Rightarrow> string \<Rightarrow> string \<Rightarrow> karma \<Rightarrow>
    (int \<times> int) \<times> karma" where
  "adjust U C ok now item0 amount srv ch why m =
     (let item = lower_text U item0; d = kr_data m; es = chan_entries srv ch d;
          e = bump_entry amount why (entry_in now item es); g = bump_entry amount why (entry_in now item (kd_global d));
          d' = (put_chan srv ch (AList.update item e es) d)\<lparr>kd_global := AList.update item g (kd_global d)\<rparr>;
          m' = m\<lparr>kr_data := d'\<rparr>
      in ((k_karma e, k_karma g), if amount \<noteq> 0 then save_karma C ok m' else m'))"

definition get_karma :: "case_tables \<Rightarrow> string \<Rightarrow> string \<Rightarrow> string \<Rightarrow> karma_data \<Rightarrow> int \<times> int" where
  "get_karma U item0 srv ch d =
     (let item = lower_text U item0; k = (\<lambda>es. case map_of es item of Some e \<Rightarrow> k_karma e | None \<Rightarrow> 0)
      in (k (chan_entries srv ch d), k (kd_global d)))"

section \<open>Hooks and commands\<close>

definition karma_text :: "string \<Rightarrow> string \<Rightarrow> int \<Rightarrow> int \<Rightarrow> string" where
  "karma_text item word ck gk =
     ''Karma for {m}'' @ item @ ''{/} in this channel is '' @ word @ '' {m}'' @ int_str ck @
     ''{/} (global karma is {m}'' @ int_str gk @ ''{/}).''"

definition karma_privmsg :: "case_tables \<Rightarrow> kr_codec \<Rightarrow> 'h registry \<Rightarrow> bool \<Rightarrow> int \<Rightarrow> event \<Rightarrow> karma \<Rightarrow>
    handled \<times> (string \<times> string) list \<times> karma" where
  "karma_privmsg U C reg ok now ev m =
     (if sender_me ev \<or> msg ev = [] \<or> (case command_word (msg ev) of Some w \<Rightarrow> has_cmd reg w | None \<Rightarrow> False)
      then (Handled_none, [], m)
      else (case parse_karma (msg ev) of
          None \<Rightarrow> (Handled_none, [], m)
        | Some (item, opr, why) \<Rightarrow>
            if opr = ''?'' then
              (case get_karma U item (server ev) (channel ev) (kr_data m) of
                 (ck, gk) \<Rightarrow> (Replied, [(channel ev, karma_text item ''currently'' ck gk)], m))
            else
              (case adjust U C ok now item (if opr = ''--'' then - 1 else 1) (server ev) (channel ev) why m of
                 ((ck, gk), m') \<Rightarrow> (Replied, [(channel ev, karma_text item ''now'' ck gk)], m'))))"

definition karma_kick :: "case_tables \<Rightarrow> kr_codec \<Rightarrow> bool \<Rightarrow> int \<Rightarrow> event \<Rightarrow> karma \<Rightarrow> karma" where
  "karma_kick U C ok now ev m =
     (if \<not> target_me ev then m
      else snd (adjust U C ok now (nick (ev_sender ev)) (- 1) (server ev) (channel ev) ''For kicking defenseless bots'' m))"

definition why_karma :: "case_tables \<Rightarrow> cmd_data \<Rightarrow> karma_data \<Rightarrow> bool \<times> string list" where
  \<comment> \<open>what is answered, and the lines handed to the pager\<close>
  "why_karma U d k =
     (if sender_me (cmd_event d) then (False, [])
      else
        (let item = trim_space (lower_text U (data d)); up = (command d = ''wku'');
             ud = (if up then ''up'' else ''down''); incdec = (if up then ''increase'' else ''decrease'');
             sign = (if up then ''{G}+'' else ''{R}-'');
             rs = (case map_of (chan_entries (server (cmd_event d)) (channel (cmd_event d)) k) item of
                     Some e \<Rightarrow> reasons_of ud e | None \<Rightarrow> []);
             names = sort_key (\<lambda>r. - count_reason r rs) (sort (map fst rs))
         in if rs = []
            then (True, [''No reasons were found for the karma '' @ incdec @ '' of {m}'' @ item @ ''{/}.''])
            else (True, (''The following reasons were found for the karma '' @ incdec @ '' of {m}'' @ item @ ''{/}:'') #
              map (\<lambda>r. r @ '': '' @ sign @ int_str (count_reason r rs) @ ''{/}'') names)))"

definition load_karma :: "kr_codec \<Rightarrow> memory \<Rightarrow> karma option" where
  "load_karma C st =
     (case mem_get ''karma'' ''karma'' st of
        None \<Rightarrow> Some \<lparr>kr_data = \<lparr>kd_servers = [], kd_global = []\<rparr>, kr_store = st\<rparr>
      | Some j \<Rightarrow> map_option (\<lambda>d. \<lparr>kr_data = d, kr_store = st\<rparr>) (kc_dec C j))"

definition unload_karma :: "kr_codec \<Rightarrow> bool \<Rightarrow> karma \<Rightarrow> karma" where
  "unload_karma C ok m = save_karma C ok m"

definition register_karma :: "'h \<Rightarrow> 'h registry \<Rightarrow> 'h registry" where
  "register_karma why r = register ''karma'' ''wkd'' why (register ''karma'' ''wku'' why r)"

section \<open>The syntax of a vote\<close>

definition plain_form :: "string \<Rightarrow> string \<Rightarrow> string \<Rightarrow> bool" where
  \<comment> \<open>\<open>plainRe\<close> read as a grammar\<close>
  "plain_form s item opr \<longleftrightarrow>
     (\<exists>b1 sm b2. s = ''!'' @ item @ opr @ b1 @ sm @ b2 \<and> item \<noteq> [] \<and> CHR 0x0A \<notin> set item \<and>
        opr \<in> {''++'', ''--'', ''?''} \<and> list_all is_ws (b1 @ b2) \<and> sm \<in> insert [] (set smiley_heads))"

definition reason_form :: "string \<Rightarrow> string \<Rightarrow> string \<Rightarrow> string \<Rightarrow> bool" where
  \<comment> \<open>\<open>reasonRe\<close> read as a grammar; the reason is what is left when the blanks around it are cut\<close>
  "reason_form s item opr why \<longleftrightarrow>
     (\<exists>b1 b2 b3. s = ''!'' @ item @ opr @ b1 @ ''#'' @ b2 @ why @ b3 \<and> item \<noteq> [] \<and> CHR 0x0A \<notin> set (item @ why) \<and>
        opr \<in> {''++'', ''--''} \<and> list_all is_ws (b1 @ b2 @ b3) \<and>
        (why = [] \<or> \<not> is_ws (hd why) \<and> \<not> is_ws (last why)))"

lemma drop_ws [simp]: "list_all is_ws b \<Longrightarrow> dropWhile is_ws (b @ r) = dropWhile is_ws r"
  by (induction b) simp_all

lemma ws_split: "\<exists>b. s = b @ dropWhile is_ws s \<and> list_all is_ws b"
  by (metis takeWhile_dropWhile_id list_all_iff set_takeWhileD)

lemma smiley_head: "sm \<in> set smiley_heads \<Longrightarrow> sm \<noteq> [] \<and> \<not> is_ws (hd sm)"
  by (auto simp: smiley_heads_def is_ws_def)

lemma smiley_tail_iff:
  "smiley_tail s \<longleftrightarrow> (\<exists>b1 sm b2. s = b1 @ sm @ b2 \<and> list_all is_ws (b1 @ b2) \<and> sm \<in> insert [] (set smiley_heads))"
  (is "_ \<longleftrightarrow> ?R")
proof
  obtain b where b: "s = b @ dropWhile is_ws s" "list_all is_ws b" using ws_split by blast
  assume "smiley_tail s"
  then consider "dropWhile is_ws s = []"
    | m where "m \<in> set smiley_heads" "has_prefix m (dropWhile is_ws s)" "blank_tail (drop (length m) (dropWhile is_ws s))"
    by (auto simp: smiley_tail_def list_ex_iff)
  then show ?R
  proof cases
    case 1
    with b show ?thesis by (intro exI [of _ b] exI [of _ "[]"]) simp
  next
    case (2 m)
    then obtain t where "dropWhile is_ws s = m @ t" "list_all is_ws t" by (auto simp: has_prefix_iff blank_tail_def)
    with b 2 show ?thesis by (intro exI [of _ b] exI [of _ m] exI [of _ t]) simp
  qed
next
  assume ?R
  then obtain b1 sm b2 where s: "s = b1 @ sm @ b2" "list_all is_ws b1" "list_all is_ws b2" "sm \<in> insert [] (set smiley_heads)"
    by auto
  show "smiley_tail s"
  proof (cases "sm = []")
    case True
    with s show ?thesis by (simp add: smiley_tail_def list_all_iff)
  next
    case False
    with s smiley_head [of sm] have "dropWhile is_ws s = sm @ b2" "sm \<in> set smiley_heads" by (cases sm; simp)+
    then show ?thesis using s(3) by (auto simp: smiley_tail_def list_ex_iff blank_tail_def intro!: bexI [of _ sm])
  qed
qed

lemma plain_op_iff:
  "plain_op r = Some opr \<longleftrightarrow>
   (\<exists>b1 sm b2. r = opr @ b1 @ sm @ b2 \<and> opr \<in> {''++'', ''--'', ''?''} \<and> list_all is_ws (b1 @ b2) \<and>
      sm \<in> insert [] (set smiley_heads))" (is "_ \<longleftrightarrow> ?R")
proof -
  have "plain_op r = Some opr \<longleftrightarrow> opr \<in> {''++'', ''--'', ''?''} \<and> (\<exists>t. r = opr @ t \<and> smiley_tail t)"
    by (auto simp: plain_op_def has_prefix_iff)
  then show ?thesis by (auto simp: smiley_tail_iff)
qed

lemma trim_ws_iff:
  "why = rev (dropWhile is_ws (rev (dropWhile is_ws t))) \<longleftrightarrow>
   (\<exists>b2 b3. t = b2 @ why @ b3 \<and> list_all is_ws (b2 @ b3) \<and> (why = [] \<or> \<not> is_ws (hd why) \<and> \<not> is_ws (last why)))"
  (is "?L \<longleftrightarrow> ?R")
proof
  assume why: ?L
  obtain b where b: "t = b @ dropWhile is_ws t" "list_all is_ws b" using ws_split by blast
  obtain c where c: "rev (dropWhile is_ws t) = c @ rev why" "list_all is_ws c"
    using ws_split [of "rev (dropWhile is_ws t)"] why by auto
  then have d: "dropWhile is_ws t = why @ rev c" by (metis rev_append rev_rev_ident)
  have "\<not> is_ws (hd why) \<and> \<not> is_ws (last why)" if "why \<noteq> []"
  proof
    have "dropWhile is_ws t \<noteq> []" "hd (dropWhile is_ws t) = hd why" using that d by simp_all
    then show "\<not> is_ws (hd why)" by (metis hd_dropWhile)
    have "dropWhile is_ws (rev (dropWhile is_ws t)) = rev why" using why by simp
    with that show "\<not> is_ws (last why)" by (metis hd_dropWhile hd_rev rev_is_Nil_conv)
  qed
  with b c d show ?R by (intro exI [of _ b] exI [of _ "rev c"]) (auto simp: list_all_iff)
next
  assume ?R
  then obtain b2 b3 where t: "t = b2 @ why @ b3" "list_all is_ws b2" "list_all is_ws b3"
    and e: "why = [] \<or> \<not> is_ws (hd why) \<and> \<not> is_ws (last why)" by auto
  have r3: "list_all is_ws (rev b3)" using t(3) by (simp add: list_all_iff)
  show ?L
  proof (cases "why = []")
    case True
    with t have "dropWhile is_ws t = []" by (simp add: list_all_iff)
    with True show ?thesis by (auto dest: set_dropWhileD)
  next
    case False
    with e have n: "\<not> is_ws (hd why)" "\<not> is_ws (hd (rev why))" by (simp_all add: hd_rev)
    from False n(1) t have "dropWhile is_ws t = why @ b3" by (cases why) simp_all
    moreover have "dropWhile is_ws (rev why) = rev why" using False n(2) by (cases "rev why") simp_all
    ultimately show ?thesis using r3 by simp
  qed
qed

lemma reason_op_iff:
  "reason_op r = Some (opr, why) \<longleftrightarrow>
   (\<exists>b1 b2 b3. r = opr @ b1 @ ''#'' @ b2 @ why @ b3 \<and> opr \<in> {''++'', ''--''} \<and> CHR 0x0A \<notin> set why \<and>
      list_all is_ws (b1 @ b2 @ b3) \<and> (why = [] \<or> \<not> is_ws (hd why) \<and> \<not> is_ws (last why)))" (is "_ \<longleftrightarrow> ?R")
proof -
  have hash: "dropWhile is_ws u = CHR ''#'' # t \<longleftrightarrow> (\<exists>b. u = b @ CHR ''#'' # t \<and> list_all is_ws b)" for u t
  proof
    assume "dropWhile is_ws u = CHR ''#'' # t"
    with ws_split [of u] show "\<exists>b. u = b @ CHR ''#'' # t \<and> list_all is_ws b" by metis
  next
    assume "\<exists>b. u = b @ CHR ''#'' # t \<and> list_all is_ws b"
    then obtain b where b: "u = b @ CHR ''#'' # t" "list_all is_ws b" by blast
    have "\<not> is_ws (CHR ''#'')" by (simp add: is_ws_def)
    with b show "dropWhile is_ws u = CHR ''#'' # t" by simp
  qed
  have "reason_op r = Some (opr, why) \<longleftrightarrow>
      (\<exists>u t. r = opr @ u \<and> opr \<in> {''++'', ''--''} \<and> dropWhile is_ws u = CHR ''#'' # t \<and>
        why = rev (dropWhile is_ws (rev (dropWhile is_ws t))) \<and> CHR 0x0A \<notin> set why)"
    by (auto simp: reason_op_def has_prefix_iff simp del: dropWhile_eq_Nil_conv split: list.splits)
  then show ?thesis unfolding trim_ws_iff hash by fastforce
qed

definition cuts_at :: "(string \<Rightarrow> 'a option) \<Rightarrow> string \<Rightarrow> nat \<Rightarrow> bool" where
  "cuts_at f t k \<longleftrightarrow> 0 < k \<and> f (drop k t) \<noteq> None \<and> CHR 0x0A \<notin> set (take k t)"

lemma longest_item_cuts:
  "longest_item f t n = Some (i, x) \<longleftrightarrow>
   (\<exists>k \<le> n. i = take k t \<and> f (drop k t) = Some x \<and> cuts_at f t k \<and> (\<forall>j. k < j \<and> j \<le> n \<longrightarrow> \<not> cuts_at f t j))"
proof (induction n)
  case (Suc n)
  show ?case
  proof (cases "cuts_at f t (Suc n)")
    case True
    then obtain y where y: "f (drop (Suc n) t) = Some y" by (auto simp: cuts_at_def)
    with True have e: "longest_item f t (Suc n) = Some (take (Suc n) t, y)" by (simp add: cuts_at_def)
    show ?thesis
    proof
      assume "longest_item f t (Suc n) = Some (i, x)"
      with e y True show "\<exists>k \<le> Suc n. i = take k t \<and> f (drop k t) = Some x \<and> cuts_at f t k \<and>
          (\<forall>j. k < j \<and> j \<le> Suc n \<longrightarrow> \<not> cuts_at f t j)"
        by (intro exI [of _ "Suc n"]) (auto simp del: longest_item.simps)
    next
      assume "\<exists>k \<le> Suc n. i = take k t \<and> f (drop k t) = Some x \<and> cuts_at f t k \<and>
          (\<forall>j. k < j \<and> j \<le> Suc n \<longrightarrow> \<not> cuts_at f t j)"
      then obtain k where k: "k \<le> Suc n" "i = take k t" "f (drop k t) = Some x"
        "\<forall>j. k < j \<and> j \<le> Suc n \<longrightarrow> \<not> cuts_at f t j" by blast
      with True have "k = Suc n" by (metis le_neq_implies_less order_refl)
      with k y e show "longest_item f t (Suc n) = Some (i, x)" by simp
    qed
  next
    case False
    then have "longest_item f t (Suc n) = longest_item f t n" by (auto simp: cuts_at_def split: option.splits)
    moreover have le: "k \<le> Suc n \<and> cuts_at f t k \<longleftrightarrow> k \<le> n \<and> cuts_at f t k" for k
      using False by (cases "k = Suc n") auto
    moreover have "(\<forall>j. k < j \<and> j \<le> Suc n \<longrightarrow> \<not> cuts_at f t j) \<longleftrightarrow> (\<forall>j. k < j \<and> j \<le> n \<longrightarrow> \<not> cuts_at f t j)" for k
      using le by blast
    ultimately show ?thesis using Suc.IH by simp blast
  qed
qed (simp add: cuts_at_def)

lemma longest_item_None: "longest_item f t n = None \<longleftrightarrow> (\<forall>k \<le> n. \<not> cuts_at f t k)"
proof (induction n)
  case (Suc n)
  have "longest_item f t (Suc n) = None \<longleftrightarrow> \<not> cuts_at f t (Suc n) \<and> longest_item f t n = None"
    by (auto simp: cuts_at_def split: option.splits)
  with Suc show ?case by (auto simp: le_Suc_eq)
qed (simp add: cuts_at_def)

lemma cuts_at_iff:
  "k \<le> length t \<Longrightarrow> cuts_at f t k \<longleftrightarrow>
   (\<exists>j r y. t = j @ r \<and> f r = Some y \<and> j \<noteq> [] \<and> CHR 0x0A \<notin> set j \<and> length j = k)"
  (is "_ \<Longrightarrow> _ \<longleftrightarrow> ?R")
proof
  assume k: "k \<le> length t" and "cuts_at f t k"
  then obtain y where "f (drop k t) = Some y" "0 < k" "CHR 0x0A \<notin> set (take k t)" by (auto simp: cuts_at_def)
  with k show ?R by (intro exI [of _ "take k t"] exI [of _ "drop k t"] exI [of _ y]) auto
qed (auto simp: cuts_at_def)

lemma longest_item_iff:
  "longest_item f t (length t) = Some (i, x) \<longleftrightarrow>
   (\<exists>r. t = i @ r \<and> f r = Some x) \<and> i \<noteq> [] \<and> CHR 0x0A \<notin> set i \<and>
   (\<forall>j r y. t = j @ r \<and> f r = Some y \<and> j \<noteq> [] \<and> CHR 0x0A \<notin> set j \<longrightarrow> length j \<le> length i)" (is "?L \<longleftrightarrow> ?R")
proof
  assume ?L
  then obtain k where k: "k \<le> length t" "i = take k t" "f (drop k t) = Some x" "cuts_at f t k"
    "\<forall>j. k < j \<and> j \<le> length t \<longrightarrow> \<not> cuts_at f t j" unfolding longest_item_cuts by blast
  have "length j \<le> k" if "t = j @ r" "f r = Some y" "j \<noteq> []" "CHR 0x0A \<notin> set j" for j r y
  proof -
    from that have "cuts_at f t (length j)" by (simp add: cuts_at_def)
    with k(5) that(1) show ?thesis by (metis length_append le_add1 not_le)
  qed
  moreover have "t = i @ drop k t" "length i = k" "i \<noteq> []" using k by (auto simp: cuts_at_def)
  ultimately show ?R using k by (auto simp: cuts_at_def)
next
  assume R: ?R
  then obtain r where r: "t = i @ r" "f r = Some x" by blast
  have "\<not> cuts_at f t j" if "length i < j" "j \<le> length t" for j
    using R that cuts_at_iff [OF that(2), of f] by (metis not_le)
  with R r show ?L unfolding longest_item_cuts by (intro exI [of _ "length i"]) (auto simp: cuts_at_def)
qed

text \<open>
  C38. Which lines are votes. A line is taken apart exactly as the two patterns say: if it can be read as an
  exclamation mark, an item, an operator and perhaps a smiley, then with the longest item for which it can
  and no reason; otherwise, if it can be read as a vote with a reason after a hash, again with the longest
  item, and with the reason cut free of the blanks around it; and every other line is no vote.
\<close>

theorem karma_syntax:
  "parse_karma s = Some (item, opr, why) \<longleftrightarrow>
   (plain_form s item opr \<and> why = [] \<and> (\<forall>i o'. plain_form s i o' \<longrightarrow> length i \<le> length item) \<or>
    (\<nexists>i o'. plain_form s i o') \<and> reason_form s item opr why \<and>
      (\<forall>i o' w. reason_form s i o' w \<longrightarrow> length i \<le> length item))"
proof (cases "\<exists>t. s = CHR ''!'' # t")
  case False
  then have "\<not> plain_form s i o'" "\<not> reason_form s i o' w" for i o' w by (auto simp: plain_form_def reason_form_def)
  with False show ?thesis by (auto simp: parse_karma_def split: list.splits)
next
  case True
  then obtain t where s: "s = CHR ''!'' # t" ..
  have p: "plain_form s i o' \<longleftrightarrow> (\<exists>r. t = i @ r \<and> plain_op r = Some o') \<and> i \<noteq> [] \<and> CHR 0x0A \<notin> set i" for i o'
    unfolding plain_form_def plain_op_iff s by auto
  have r: "reason_form s i o' w \<longleftrightarrow> (\<exists>r. t = i @ r \<and> reason_op r = Some (o', w)) \<and> i \<noteq> [] \<and> CHR 0x0A \<notin> set i" for i o' w
    unfolding reason_form_def reason_op_iff s by auto
  have lp: "longest_item plain_op t (length t) = Some (i, o') \<longleftrightarrow>
      plain_form s i o' \<and> (\<forall>j q. plain_form s j q \<longrightarrow> length j \<le> length i)" for i o'
    unfolding longest_item_iff p by blast
  have lr: "longest_item reason_op t (length t) = Some (i, o', w) \<longleftrightarrow>
      reason_form s i o' w \<and> (\<forall>j q v. reason_form s j q v \<longrightarrow> length j \<le> length i)" for i o' w
    unfolding longest_item_iff r split_paired_All by blast
  show ?thesis
  proof (cases "longest_item plain_op t (length t)")
    case None
    have "\<nexists>i o'. plain_form s i o'"
    proof
      assume "\<exists>i o'. plain_form s i o'"
      then obtain i o' r where "t = i @ r" "plain_op r = Some o'" "i \<noteq> []" "CHR 0x0A \<notin> set i" using p by blast
      then have "length i \<le> length t" "cuts_at plain_op t (length i)" by (simp_all add: cuts_at_def)
      with None show False by (auto simp: longest_item_None)
    qed
    moreover have "parse_karma s = Some (item, opr, why) \<longleftrightarrow> longest_item reason_op t (length t) = Some (item, opr, why)"
      using None s by (simp add: parse_karma_def split: option.splits)
    ultimately show ?thesis using lr [of item opr why] by simp
  next
    case (Some z)
    then obtain i q where z: "longest_item plain_op t (length t) = Some (i, q)" by (cases z) auto
    then have "plain_form s i q" using lp by blast
    moreover have "parse_karma s = Some (i, q, [])" using z s by (simp add: parse_karma_def)
    moreover have "i = item \<and> q = opr \<longleftrightarrow> plain_form s item opr \<and> (\<forall>j o'. plain_form s j o' \<longrightarrow> length j \<le> length item)"
      using lp [of item opr] z by auto
    ultimately show ?thesis by auto
  qed
qed

lemma karma_syntax_witness:
  "plain_form ''!c++++ :)'' ''c++'' ''++'' \<and> \<not> plain_form ''!c++++ :)'' ''c+++'' ''++''"
proof -
  have "parse_karma ''!c++++ :)'' = Some (''c++'', ''++'', [])" by code_simp
  moreover have f: "plain_form ''!c++++ :)'' ''c++'' ''++''"
    unfolding plain_form_def by (intro exI [of _ "'' ''"] exI [of _ "'':)''"] exI [of _ "[]"]) (simp add: is_ws_def smiley_heads_def)
  ultimately show ?thesis using karma_syntax [of "''!c++++ :)''" "''c++''" "''++''" "[]"] by fastforce
qed

end
