(* ===== verification/Karma_Run.thy ===== *)
theory Karma_Run
  imports Karma "HOL-Library.Countable"
begin

text \<open>
  Runs of the karma module. What a run leaves behind is compared with the log of the votes cast in it: the
  karma of an item is the sum of its votes, per channel and over all, and the reasons are counted per
  direction. Unloading and loading the module again is one of the operations of a run.
\<close>

section \<open>Votes\<close>

record vote =
  v_server :: string
  v_channel :: string
  v_item :: string
  v_amount :: int
  v_why :: string

datatype karma_op =
    Said bool int event  \<comment> \<open>outcome of the write, clock, event\<close>
  | Kicked bool int event
  | Reloaded

fun karma_step :: "case_tables \<Rightarrow> kr_codec \<Rightarrow> 'h registry \<Rightarrow> karma_op \<Rightarrow> karma \<Rightarrow> karma option" where
  "karma_step U C reg (Said ok now ev) m = Some (snd (snd (karma_privmsg U C reg ok now ev m)))"
| "karma_step U C reg (Kicked ok now ev) m = Some (karma_kick U C ok now ev m)"
| "karma_step U C reg Reloaded m = load_karma C (kr_store (unload_karma C True m))"

fun karma_run :: "case_tables \<Rightarrow> kr_codec \<Rightarrow> 'h registry \<Rightarrow> karma_op list \<Rightarrow> karma \<Rightarrow> karma option" where
  "karma_run U C reg [] m = Some m"
| "karma_run U C reg (h # hs) m =
     (case karma_step U C reg h m of None \<Rightarrow> None | Some m' \<Rightarrow> karma_run U C reg hs m')"

definition is_command :: "'h registry \<Rightarrow> string \<Rightarrow> bool" where
  "is_command reg s = (case command_word s of Some w \<Rightarrow> has_cmd reg w | None \<Rightarrow> False)"

fun votes_in :: "case_tables \<Rightarrow> 'h registry \<Rightarrow> karma_op \<Rightarrow> vote list" where
  \<comment> \<open>the vote that an operation is, if any\<close>
  "votes_in U reg (Said ok now ev) =
     (if sender_me ev \<or> is_command reg (msg ev) then []
      else (case parse_karma (msg ev) of
          None \<Rightarrow> []
        | Some (item, opr, why) \<Rightarrow>
            if opr = ''?'' then []
            else [\<lparr>v_server = server ev, v_channel = channel ev, v_item = lower_text U item,
                   v_amount = (if opr = ''++'' then 1 else - 1), v_why = why\<rparr>]))"
| "votes_in U reg (Kicked ok now ev) =
     (if target_me ev
      then [\<lparr>v_server = server ev, v_channel = channel ev, v_item = lower_text U (nick (ev_sender ev)),
             v_amount = - 1, v_why = ''For kicking defenseless bots''\<rparr>] else [])"
| "votes_in U reg Reloaded = []"

definition votes_of :: "case_tables \<Rightarrow> 'h registry \<Rightarrow> karma_op list \<Rightarrow> vote list" where
  "votes_of U reg hs = concat (map (votes_in U reg) hs)"

definition at_place :: "string \<Rightarrow> string \<Rightarrow> string \<Rightarrow> vote \<Rightarrow> bool" where
  "at_place srv ch item v = (v_server v = srv \<and> v_channel v = ch \<and> v_item v = item)"

definition on_item :: "string \<Rightarrow> vote \<Rightarrow> bool" where
  "on_item item v = (v_item v = item)"

definition vote_sum :: "(vote \<Rightarrow> bool) \<Rightarrow> vote list \<Rightarrow> int" where
  "vote_sum p vs = sum_list (map v_amount (filter p vs))"

definition cites :: "string \<Rightarrow> string \<Rightarrow> vote \<Rightarrow> bool" where
  \<comment> \<open>reasons of less than three bytes are not recorded\<close>
  "cites ud why v = (v_why v = why \<and> 3 \<le> length why \<and> (ud = (if 0 < v_amount v then ''up'' else ''down'')))"

definition cited :: "(vote \<Rightarrow> bool) \<Rightarrow> string \<Rightarrow> string \<Rightarrow> vote list \<Rightarrow> int" where
  "cited p ud why vs = int (length (filter (\<lambda>v. p v \<and> cites ud why v) vs))"

section \<open>What a map of entries says\<close>

definition karma_at :: "string \<Rightarrow> entries \<Rightarrow> int" where
  "karma_at item es = (case map_of es item of Some e \<Rightarrow> k_karma e | None \<Rightarrow> 0)"

definition count_at :: "string \<Rightarrow> string \<Rightarrow> string \<Rightarrow> entries \<Rightarrow> int" where
  "count_at ud why item es = (case map_of es item of Some e \<Rightarrow> count_reason why (reasons_of ud e) | None \<Rightarrow> 0)"

definition tallies :: "karma_data \<Rightarrow> vote list \<Rightarrow> bool" where
  \<comment> \<open>the data says what the log says\<close>
  "tallies d vs \<longleftrightarrow>
     (\<forall>srv ch item. karma_at item (chan_entries srv ch d) = vote_sum (at_place srv ch item) vs \<and>
        karma_at item (kd_global d) = vote_sum (on_item item) vs \<and>
        (\<forall>ud why. count_at ud why item (chan_entries srv ch d) = cited (at_place srv ch item) ud why vs \<and>
           count_at ud why item (kd_global d) = cited (on_item item) ud why vs))"

definition reasons_ok :: "(string \<times> int) list \<Rightarrow> bool" where
  "reasons_ok = map_all (\<lambda>why n. valid_utf8 why \<and> 0 < n)"

definition entry_ok :: "entry \<Rightarrow> bool" where
  "entry_ok e = map_all (\<lambda>ud rs. valid_utf8 ud \<and> reasons_ok rs) (k_reasons e)"

definition entries_ok :: "entries \<Rightarrow> bool" where
  "entries_ok = map_all (\<lambda>item e. valid_utf8 item \<and> entry_ok e)"

definition chans_ok :: "(string \<times> entries) list \<Rightarrow> bool" where
  "chans_ok = map_all (\<lambda>ch es. valid_utf8 ch \<and> entries_ok es)"

definition data_ok :: "karma_data \<Rightarrow> bool" where
  "data_ok d \<longleftrightarrow> map_all (\<lambda>srv cs. valid_utf8 srv \<and> chans_ok cs) (kd_servers d) \<and> entries_ok (kd_global d)"

definition same_tallies :: "karma_data \<Rightarrow> karma_data \<Rightarrow> bool" where
  "same_tallies d d' \<longleftrightarrow>
     (\<forall>srv ch item. karma_at item (chan_entries srv ch d') = karma_at item (chan_entries srv ch d) \<and>
        karma_at item (kd_global d') = karma_at item (kd_global d) \<and>
        (\<forall>ud why. count_at ud why item (chan_entries srv ch d') = count_at ud why item (chan_entries srv ch d) \<and>
           count_at ud why item (kd_global d') = count_at ud why item (kd_global d)))"

definition kr_codec_ok :: "kr_codec \<Rightarrow> bool" where
  \<comment> \<open>JSON brings back data whose strings are UTF-8, its maps in some order\<close>
  "kr_codec_ok C = (\<forall>d. data_ok d \<longrightarrow> (\<exists>d'. kc_dec C (kc_enc C d) = Some d' \<and> data_ok d' \<and> same_tallies d d'))"

section \<open>One vote\<close>

lemma chan_entries_put [simp]:
  "chan_entries srv' ch' (put_chan srv ch es d) = (if srv' = srv \<and> ch' = ch then es else chan_entries srv' ch' d)"
  by (auto simp: chan_entries_def put_chan_def split: option.splits)

lemma chan_entries_global [simp]: "chan_entries srv ch (d\<lparr>kd_global := g\<rparr>) = chan_entries srv ch d"
  by (simp add: chan_entries_def)

lemma put_chan_global [simp]: "kd_global (put_chan srv ch es d) = kd_global d"
  by (simp add: put_chan_def)

abbreviation voted :: "int \<Rightarrow> string \<Rightarrow> int \<Rightarrow> string \<Rightarrow> entries \<Rightarrow> entries" where
  "voted now item a why es \<equiv> AList.update item (bump_entry a why (entry_in now item es)) es"

lemma karma_at_bump:
  "karma_at i (voted now item a w es) =
     karma_at i es + (if i = item then a else 0)"
  by (auto simp: karma_at_def bump_entry_def entry_in_def split: option.splits)

lemma count_at_bump:
  "count_at ud why i (voted now item a w es) =
     count_at ud why i es +
     (if i = item \<and> w = why \<and> 3 \<le> length why \<and> ud = (if 0 < a then ''up'' else ''down'') then 1 else 0)"
  by (auto simp: count_at_def bump_entry_def entry_in_def reasons_of_def count_reason_def split: option.splits)

lemma vote_sum_snoc: "vote_sum p (vs @ [v]) = vote_sum p vs + (if p v then v_amount v else 0)"
  by (simp add: vote_sum_def)

lemma cited_snoc: "cited p ud why (vs @ [v]) = cited p ud why vs + (if p v \<and> cites ud why v then 1 else 0)"
  by (simp add: cited_def)

lemma save_karma_data [simp]: "kr_data (save_karma C ok m) = kr_data m"
  by (simp add: save_karma_def split: option.splits)

lemma adjust_data:
  "kr_data (snd (adjust U C ok now item a srv ch why m)) =
    (put_chan srv ch (voted now (lower_text U item) a why (chan_entries srv ch (kr_data m))) (kr_data m))
      \<lparr>kd_global := voted now (lower_text U item) a why (kd_global (kr_data m))\<rparr>"
  by (simp add: adjust_def)

lemma adjust_tallies:
  assumes "tallies (kr_data m) vs"
  shows "tallies (kr_data (snd (adjust U C ok now item a srv ch why m)))
    (vs @ [\<lparr>v_server = srv, v_channel = ch, v_item = lower_text U item, v_amount = a, v_why = why\<rparr>])"
  unfolding adjust_data tallies_def using assms
  by (auto simp: tallies_def karma_at_bump count_at_bump vote_sum_snoc cited_snoc at_place_def on_item_def cites_def)

lemma same_tallies: "same_tallies d d' \<Longrightarrow> tallies d vs \<Longrightarrow> tallies d' vs"
  by (simp add: same_tallies_def tallies_def)

section \<open>The data stay well formed\<close>

definition vote_ok :: "vote \<Rightarrow> bool" where
  \<comment> \<open>server, channel and reason are UTF-8 (an item is, since it went through \<open>strings.ToLower\<close>)\<close>
  "vote_ok v \<longleftrightarrow> valid_utf8 (v_server v) \<and> valid_utf8 (v_channel v) \<and> valid_utf8 (v_why v)"

lemma up_down_valid [simp]: "valid_utf8 (if b then ''up'' else ''down'')"
  by (cases b) (simp_all add: valid_utf8_ascii)

lemma valid_Nil [simp]: "valid_utf8 []"
  by (simp add: valid_utf8_def)

lemma reasons_of_ok: "entry_ok e \<Longrightarrow> reasons_ok (reasons_of ud e)"
  by (auto simp: entry_ok_def reasons_of_def reasons_ok_def dest: map_all_lookup split: option.split)

lemma count_reason_nonneg: "reasons_ok rs \<Longrightarrow> 0 \<le> count_reason why rs"
  by (auto simp: reasons_ok_def count_reason_def dest: map_all_lookup split: option.split)

lemma bump_ok:
  assumes "entry_ok e" and "valid_utf8 why"
  shows "entry_ok (bump_entry a why e)"
proof -
  have "reasons_ok (AList.update why (count_reason why rs + 1) rs)" if "reasons_ok rs" for rs
    using that assms(2) count_reason_nonneg [OF that, of why] by (simp add: reasons_ok_def map_all_update)
  with assms(1) reasons_of_ok [OF assms(1)] show ?thesis
    by (auto simp: entry_ok_def bump_entry_def valid_utf8_ascii intro!: map_all_update)
qed

lemma entry_in_ok: "entries_ok es \<Longrightarrow> entry_ok (entry_in now item es)"
  by (auto simp: entries_ok_def entry_in_def entry_ok_def dest: map_all_lookup split: option.split)

lemma entries_update_ok:
  "entries_ok es \<Longrightarrow> valid_utf8 item \<Longrightarrow> valid_utf8 why \<Longrightarrow>
   entries_ok (voted now item a why es)"
  using bump_ok [OF entry_in_ok] by (simp add: entries_ok_def map_all_update)

lemma chans_of_ok: "data_ok d \<Longrightarrow> chans_ok (case map_of (kd_servers d) srv of None \<Rightarrow> [] | Some c \<Rightarrow> c)"
  by (auto simp: data_ok_def chans_ok_def dest: map_all_lookup split: option.split)

lemma chan_entries_ok: "data_ok d \<Longrightarrow> entries_ok (chan_entries srv ch d)"
  using chans_of_ok [of d srv]
  by (auto simp: chan_entries_def chans_ok_def entries_ok_def dest: map_all_lookup split: option.split)

lemma put_chan_ok:
  "data_ok d \<Longrightarrow> valid_utf8 srv \<Longrightarrow> valid_utf8 ch \<Longrightarrow> entries_ok es \<Longrightarrow> data_ok (put_chan srv ch es d)"
  using chans_of_ok [of d srv] by (simp add: data_ok_def put_chan_def chans_ok_def map_all_update)

lemma adjust_ok:
  assumes "data_ok (kr_data m)" and "valid_utf8 srv" and "valid_utf8 ch" and "valid_utf8 why"
  shows "data_ok (kr_data (snd (adjust U C ok now item a srv ch why m)))"
proof -
  let ?es = "voted now (lower_text U item) a why"
  have "data_ok (put_chan srv ch (?es (chan_entries srv ch (kr_data m))) (kr_data m))"
    using assms chan_entries_ok [OF assms(1)] by (intro put_chan_ok entries_update_ok) simp_all
  moreover have "entries_ok (?es (kd_global (kr_data m)))"
    using assms by (intro entries_update_ok) (simp_all add: data_ok_def)
  ultimately show ?thesis unfolding adjust_data by (simp add: data_ok_def)
qed

section \<open>Runs\<close>

definition kr_start :: "memory \<Rightarrow> karma" where
  "kr_start st = \<lparr>kr_data = \<lparr>kd_servers = [], kd_global = []\<rparr>, kr_store = st\<rparr>"

lemma reload:
  assumes "kr_codec_ok C" and "data_ok (kr_data m)"
  obtains m' where "load_karma C (kr_store (unload_karma C True m)) = Some m'" "data_ok (kr_data m')"
    "same_tallies (kr_data m) (kr_data m')"
proof -
  from assms obtain d where "kc_dec C (kc_enc C (kr_data m)) = Some d" "data_ok d" "same_tallies (kr_data m) d"
    by (auto simp: kr_codec_ok_def)
  then show thesis
    by (intro that [of "\<lparr>kr_data = d, kr_store = kr_store (unload_karma C True m)\<rparr>"]) (simp_all add: load_karma_def unload_karma_def save_karma_def mem_put_def mem_get_def)
qed

lemma karma_privmsg_data:
  "kr_data (snd (snd (karma_privmsg U C reg ok now ev m))) =
    (if sender_me ev \<or> is_command reg (msg ev) then kr_data m
     else (case parse_karma (msg ev) of
        None \<Rightarrow> kr_data m
      | Some (item, opr, why) \<Rightarrow>
          if opr = ''?'' then kr_data m
          else kr_data (snd (adjust U C ok now item (if opr = ''--'' then - 1 else 1) (server ev) (channel ev) why m))))"
  by (auto simp: karma_privmsg_def is_command_def parse_karma_def split: prod.split option.splits list.splits)

lemma parse_karma_ops: "parse_karma s = Some (item, opr, why) \<Longrightarrow> opr = ''++'' \<or> opr = ''--'' \<or> opr = ''?''"
proof -
  assume p: "parse_karma s = Some (item, opr, why)"
  then obtain t where "longest_item plain_op t (length t) = Some (item, opr) \<or>
      longest_item reason_op t (length t) = Some (item, opr, why)"
    by (auto simp: parse_karma_def split: list.splits if_splits option.splits)
  then obtain r where "plain_op r = Some opr \<or> reason_op r = Some (opr, why)"
    unfolding longest_item_cuts by blast
  then show ?thesis unfolding plain_op_iff reason_op_iff by blast
qed

lemma tallies_step:
  assumes "kr_codec_ok C" and "data_ok (kr_data m)" and "tallies (kr_data m) vs"
    and "\<forall>v \<in> set (votes_in U reg h). vote_ok v"
  shows "\<exists>m'. karma_step U C reg h m = Some m' \<and> data_ok (kr_data m') \<and> tallies (kr_data m') (vs @ votes_in U reg h)"
proof (cases h)
  case (Said ok now ev)
  show ?thesis
  proof (cases "sender_me ev \<or> is_command reg (msg ev) \<or> parse_karma (msg ev) = None \<or>
      (\<exists>item why. parse_karma (msg ev) = Some (item, ''?'', why))")
    case True
    then have "votes_in U reg h = []" "kr_data (snd (snd (karma_privmsg U C reg ok now ev m))) = kr_data m"
      by (auto simp: Said karma_privmsg_data)
    with assms show ?thesis by (simp add: Said)
  next
    case False
    then obtain item opr why where p: "parse_karma (msg ev) = Some (item, opr, why)" "opr \<noteq> ''?''" by auto
    with parse_karma_ops have "opr = ''++'' \<or> opr = ''--''" by blast
    then have am: "(if opr = ''--'' then - 1 else 1) = (if opr = ''++'' then 1 else - 1 :: int)" by auto
    let ?a = "if opr = ''++'' then 1 else - 1 :: int"
    have d: "kr_data (snd (snd (karma_privmsg U C reg ok now ev m))) =
        kr_data (snd (adjust U C ok now item ?a (server ev) (channel ev) why m))"
      using False p by (auto simp: karma_privmsg_data am)
    have v: "votes_in U reg h = [\<lparr>v_server = server ev, v_channel = channel ev, v_item = lower_text U item,
        v_amount = ?a, v_why = why\<rparr>]"
      using False p by (auto simp: Said)
    with assms(4) have "valid_utf8 (server ev)" "valid_utf8 (channel ev)" "valid_utf8 why" by (simp_all add: vote_ok_def)
    with adjust_tallies [OF assms(3)] adjust_ok [OF assms(2)] show ?thesis
      by (simp only: Said karma_step.simps d v [unfolded Said] option.inject ex_simps simp_thms)
  qed
next
  case (Kicked ok now ev)
  with assms adjust_tallies [OF assms(3)] adjust_ok [OF assms(2)] show ?thesis
    by (simp add: karma_kick_def vote_ok_def)
next
  case Reloaded
  from reload [OF assms(1,2)] obtain m' where m': "load_karma C (kr_store (unload_karma C True m)) = Some m'"
    "data_ok (kr_data m')" "same_tallies (kr_data m) (kr_data m')" .
  with same_tallies [OF m'(3) assms(3)] show ?thesis by (simp add: Reloaded)
qed

lemma tallies_run:
  assumes "kr_codec_ok C"
  shows "data_ok (kr_data m) \<Longrightarrow> tallies (kr_data m) vs \<Longrightarrow> \<forall>v \<in> set (votes_of U reg hs). vote_ok v \<Longrightarrow>
    \<exists>m'. karma_run U C reg hs m = Some m' \<and> data_ok (kr_data m') \<and> tallies (kr_data m') (vs @ votes_of U reg hs)"
proof (induction hs arbitrary: m vs)
  case (Cons h hs)
  have h: "\<forall>v \<in> set (votes_in U reg h). vote_ok v" and t: "\<forall>v \<in> set (votes_of U reg hs). vote_ok v"
    using Cons.prems(3) by (auto simp: votes_of_def)
  from tallies_step [OF assms Cons.prems(1,2) h] obtain m1 where
    m1: "karma_step U C reg h m = Some m1" "data_ok (kr_data m1)" "tallies (kr_data m1) (vs @ votes_in U reg h)" by blast
  from Cons.IH [OF m1(2,3) t] m1(1) show ?case by (auto simp: votes_of_def)
qed (simp add: votes_of_def)

lemma start_ok: "data_ok (kr_data (kr_start st))" "tallies (kr_data (kr_start st)) []"
  by (simp_all add: kr_start_def data_ok_def entries_ok_def tallies_def karma_at_def count_at_def chan_entries_def
      vote_sum_def cited_def)

text \<open>
  C36. The karma of an item is the sum of its votes. After any run of lines, kicks and reloads of the module,
  whatever the outcome of the single writes, the karma of an item in a channel is the number of votes up
  less the number of votes down cast for it there (a kick of the bot being one against the kicker), its
  global karma the same over all servers and channels, letter case aside; a query answers just these two
  numbers; and of every reason of three bytes or more the module knows how often it was given for the item,
  up and down. The run does not fail.
\<close>

theorem karma_tally:
  assumes "kr_codec_ok C" and "\<forall>v \<in> set (votes_of U reg hs). vote_ok v"
  shows "\<exists>m. karma_run U C reg hs (kr_start st) = Some m \<and> tallies (kr_data m) (votes_of U reg hs) \<and>
    (\<forall>item srv ch. get_karma U item srv ch (kr_data m) =
       (vote_sum (at_place srv ch (lower_text U item)) (votes_of U reg hs), vote_sum (on_item (lower_text U item)) (votes_of U reg hs)))"
proof -
  note s = start_ok [of st]
  from tallies_run [OF assms(1) s assms(2)] obtain m where
    "karma_run U C reg hs (kr_start st) = Some m" "tallies (kr_data m) (votes_of U reg hs)" by auto
  moreover have "get_karma U item srv ch d = (karma_at (lower_text U item) (chan_entries srv ch d), karma_at (lower_text U item) (kd_global d))"
    for item srv ch d by (simp add: get_karma_def karma_at_def)
  ultimately show ?thesis by (auto simp: tallies_def)
qed

section \<open>The reasons\<close>

definition reason_lines :: "string \<Rightarrow> bool \<Rightarrow> (string \<Rightarrow> int) \<Rightarrow> string list \<Rightarrow> string list" where
  \<comment> \<open>the answer for the reasons \<open>rs\<close>, given the times each was given\<close>
  "reason_lines item up n rs =
     (if rs = [] then [''No reasons were found for the karma '' @ (if up then ''increase'' else ''decrease'') @
        '' of {m}'' @ item @ ''{/}.'']
      else (''The following reasons were found for the karma '' @ (if up then ''increase'' else ''decrease'') @
        '' of {m}'' @ item @ ''{/}:'') #
        map (\<lambda>r. r @ '': '' @ (if up then ''{G}+'' else ''{R}-'') @ int_str (n r) @ ''{/}'') rs)"

lemma reasons_read_ok:
  assumes "entries_ok es"
  shows "reasons_ok (case map_of es item of Some e \<Rightarrow> reasons_of ud e | None \<Rightarrow> [])"
proof (cases "map_of es item")
  case (Some e)
  with assms have "entry_ok e" by (auto simp: entries_ok_def dest: map_all_lookup)
  from reasons_of_ok [OF this] Some show ?thesis by simp
qed (simp add: reasons_ok_def)

lemma count_at_reasons:
  "count_at ud why item es = count_reason why (case map_of es item of Some e \<Rightarrow> reasons_of ud e | None \<Rightarrow> [])"
  by (simp add: count_at_def count_reason_def split: option.split)

lemma why_karma_lines:
  "\<not> sender_me (cmd_event d) \<Longrightarrow> why_karma U d k =
   (let item = trim_space (lower_text U (data d)); up = (command d = ''wku'');
        es = chan_entries (server (cmd_event d)) (channel (cmd_event d)) k;
        rs = (case map_of es item of Some e \<Rightarrow> reasons_of (if up then ''up'' else ''down'') e | None \<Rightarrow> [])
    in (True, reason_lines item up (\<lambda>r. count_reason r rs) (sort_key (\<lambda>r. - count_reason r rs) (sort (map fst rs)))))"
  by (simp add: why_karma_def reason_lines_def)

definition times_given :: "case_tables \<Rightarrow> cmd_data \<Rightarrow> vote list \<Rightarrow> string \<Rightarrow> int" where
  \<comment> \<open>how often a reason was given for what the command asks about\<close>
  "times_given U d vs why =
     cited (at_place (server (cmd_event d)) (channel (cmd_event d)) (trim_space (lower_text U (data d))))
       (if command d = ''wku'' then ''up'' else ''down'') why vs"

text \<open>
  C37. The commands \<open>wku\<close> and \<open>wkd\<close> list the reasons given. After any such run the answer for an item names
  every reason given in the channel for its votes up (down) with the number of times it was given, each
  once, no other reason, the most frequent first and equally frequent ones in the order of strings.
\<close>

theorem karma_reasons:
  assumes "kr_codec_ok C" and "\<forall>v \<in> set (votes_of U reg hs). vote_ok v"
    and "karma_run U C reg hs (kr_start st) = Some m" and "\<not> sender_me (cmd_event d)"
  shows "\<exists>rs. why_karma U d (kr_data m) =
        (True, reason_lines (trim_space (lower_text U (data d))) (command d = ''wku'') (times_given U d (votes_of U reg hs)) rs) \<and>
      set rs = {why. 0 < times_given U d (votes_of U reg hs) why} \<and>
      sorted_wrt (\<lambda>a b. times_given U d (votes_of U reg hs) b < times_given U d (votes_of U reg hs) a \<or>
        times_given U d (votes_of U reg hs) a = times_given U d (votes_of U reg hs) b \<and> a < b) rs"
proof -
  define n where "n = times_given U d (votes_of U reg hs)"
  let ?item = "trim_space (lower_text U (data d))" and ?ud = "if command d = ''wku'' then ''up'' else ''down''"
  let ?es = "chan_entries (server (cmd_event d)) (channel (cmd_event d)) (kr_data m)"
  let ?rs = "case map_of ?es ?item of Some e \<Rightarrow> reasons_of ?ud e | None \<Rightarrow> []"
  note s = start_ok [of st]
  from tallies_run [OF assms(1) s assms(2)] assms(3) have m: "data_ok (kr_data m)" "tallies (kr_data m) (votes_of U reg hs)"
    by auto
  have n: "n why = count_reason why ?rs" for why
    using m(2) unfolding tallies_def n_def times_given_def count_at_reasons [symmetric] by simp
  have r: "reasons_ok ?rs" by (rule reasons_read_ok [OF chan_entries_ok [OF m(1)]])
  let ?ns = "sort_key (\<lambda>r. - n r) (sort (map fst ?rs))"
  have "sorted_wrt (<) (sort (map fst ?rs))"
    using r by (simp add: reasons_ok_def map_all_def strict_sorted_iff)
  from sort_key_wrt [OF this, of "\<lambda>r. - n r"]
  have "sorted_wrt (\<lambda>a b. n b < n a \<or> n a = n b \<and> a < b) ?ns" by simp
  moreover have "set ?ns = {why. 0 < n why}"
    unfolding n using r
    by (force simp: count_reason_def reasons_ok_def map_all_def image_iff dest: map_of_SomeD split: option.split)
  moreover have "why_karma U d (kr_data m) = (True, reason_lines ?item (command d = ''wku'') n ?ns)"
    using why_karma_lines [OF assms(4), of U "kr_data m"] by (simp add: n [abs_def])
  ultimately show ?thesis unfolding n_def by blast
qed

section \<open>An instance\<close>

instance entry_ext :: (countable) countable
proof
  have "inj (\<lambda>e :: 'a entry_ext. (k_karma e, k_last e, k_reasons e, entry.more e))" by (rule injI) simp
  then have "inj (to_nat \<circ> (\<lambda>e :: 'a entry_ext. (k_karma e, k_last e, k_reasons e, entry.more e)))"
    by (simp add: inj_compose)
  then show "\<exists>f :: 'a entry_ext \<Rightarrow> nat. inj f" by blast
qed

instance karma_data_ext :: (countable) countable
proof
  have "inj (\<lambda>d :: 'a karma_data_ext. (kd_servers d, kd_global d, karma_data.more d))" by (rule injI) simp
  then have "inj (to_nat \<circ> (\<lambda>d :: 'a karma_data_ext. (kd_servers d, kd_global d, karma_data.more d)))"
    by (simp add: inj_compose)
  then show "\<exists>f :: 'a karma_data_ext \<Rightarrow> nat. inj f" by blast
qed

definition counted_kr :: kr_codec where
  "counted_kr = \<lparr>kc_enc = (\<lambda>d. replicate (to_nat d) (CHR ''x'')), kc_dec = (\<lambda>j. Some (from_nat (length j)))\<rparr>"

lemma counted_kr_ok: "kr_codec_ok counted_kr"
  by (simp add: kr_codec_ok_def counted_kr_def same_tallies_def)

definition kr_tables :: case_tables where
  "kr_tables = \<lparr>ct_lower = id, ct_upper = id\<rparr>"

definition kr_reg :: "nat registry" where
  "kr_reg = register_karma 0 reg_new"

definition kr_line :: "string \<Rightarrow> event" where
  "kr_line s = no_event\<lparr>server := ''s'', channel := ''#c'', msg := s\<rparr>"

definition kr_ops :: "karma_op list" where
  "kr_ops = [Said False 0 (kr_line ''!Go++ # fast''), Reloaded, Said True 0 (kr_line ''!go++ #  fast ;)''),
     Said True 0 (kr_line ''!go++ # fast''), Said True 0 (kr_line ''!go--''), Said True 0 (kr_line ''!go?''),
     Kicked True 0 ((kr_line [])\<lparr>target_me := True, ev_sender := \<lparr>nick = ''op'', user = [], host = [], user_id = []\<rparr>\<rparr>)]"

definition kr_votes :: "vote list" where
  "kr_votes =
     (let v = (\<lambda>i a w. \<lparr>v_server = ''s'', v_channel = ''#c'', v_item = i, v_amount = a, v_why = w\<rparr>)
      in [v ''go'' 1 ''fast'', v ''go'' 1 ''fast ;)'', v ''go'' 1 ''fast'', v ''go'' (- 1) [],
          v ''op'' (- 1) ''For kicking defenseless bots''])"

lemma kr_lower: "lower_text kr_tables ''Go'' = ''go''" "lower_text kr_tables ''go'' = ''go''" "lower_text kr_tables ''op'' = ''op''"
proof -
  have "to_lower ''Go'' = ''go''" "to_lower ''go'' = ''go''" "to_lower ''op'' = ''op''" by code_simp+
  then show "lower_text kr_tables ''Go'' = ''go''" "lower_text kr_tables ''go'' = ''go''" "lower_text kr_tables ''op'' = ''op''"
    by (simp_all add: lower_text_ascii)
qed

lemma kr_parses:
  "parse_karma ''!Go++ # fast'' = Some (''Go'', ''++'', ''fast'')"
  "parse_karma ''!go++ #  fast ;)'' = Some (''go'', ''++'', ''fast ;)'')"
  "parse_karma ''!go++ # fast'' = Some (''go'', ''++'', ''fast'')"
  "parse_karma ''!go--'' = Some (''go'', ''--'', [])"
  "parse_karma ''!go?'' = Some (''go'', ''?'', [])"
  by code_simp+

lemma kr_words:
  "command_word ''!Go++ # fast'' = Some ''Go''" "command_word ''!go++ #  fast ;)'' = Some ''go''"
  "command_word ''!go++ # fast'' = Some ''go''" "command_word ''!go--'' = Some ''go''" "command_word ''!go?'' = Some ''go''"
  "has_cmd kr_reg ''Go'' = False" "has_cmd kr_reg ''go'' = False"
  by code_simp+

lemma kr_votes: "votes_of kr_tables kr_reg kr_ops = kr_votes"
  by (simp add: votes_of_def kr_ops_def kr_votes_def kr_line_def kr_parses kr_words kr_lower is_command_def no_event_def)

lemma kr_votes_ok: "\<forall>v \<in> set (votes_of kr_tables kr_reg kr_ops). vote_ok v"
  unfolding kr_votes by (simp add: kr_votes_def vote_ok_def valid_utf8_ascii)

lemma karma_tally_witness:
  "\<exists>m. karma_run kr_tables counted_kr kr_reg kr_ops (kr_start []) = Some m \<and>
     get_karma kr_tables ''Go'' ''s'' ''#c'' (kr_data m) = (2, 2)"
proof -
  have "vote_sum (at_place ''s'' ''#c'' ''go'') kr_votes = 2" "vote_sum (on_item ''go'') kr_votes = 2"
    by (simp_all add: vote_sum_def kr_votes_def at_place_def on_item_def)
  with karma_tally [OF counted_kr_ok kr_votes_ok, of "[]"] show ?thesis unfolding kr_votes by (metis kr_lower(1))
qed

definition kr_asked :: cmd_data where
  "kr_asked = \<lparr>command = ''wku'', data = ''Go'', cmd_event = kr_line ''!wku Go''\<rparr>"

lemma karma_reasons_witness:
  "\<exists>m rs. karma_run kr_tables counted_kr kr_reg kr_ops (kr_start []) = Some m \<and>
     why_karma kr_tables kr_asked (kr_data m) = (True, reason_lines ''go'' True (times_given kr_tables kr_asked kr_votes) rs) \<and>
     ''fast'' \<in> set rs"
proof -
  obtain m where m: "karma_run kr_tables counted_kr kr_reg kr_ops (kr_start []) = Some m"
    using tallies_run [OF counted_kr_ok start_ok kr_votes_ok] by blast
  have me: "\<not> sender_me (cmd_event kr_asked)" by (simp add: kr_asked_def kr_line_def no_event_def)
  have i: "trim_space (lower_text kr_tables (data kr_asked)) = ''go''"
  proof -
    have "trim_space ''go'' = ''go''" by (simp add: trim_space_ascii is_space_rune_def)
    then show ?thesis by (simp add: kr_asked_def kr_lower)
  qed
  have "0 < times_given kr_tables kr_asked kr_votes ''fast''"
    unfolding times_given_def i
    by (simp add: kr_asked_def kr_line_def no_event_def cited_def cites_def kr_votes_def at_place_def)
  moreover have "command kr_asked = ''wku''" by (simp add: kr_asked_def)
  ultimately show ?thesis
    using karma_reasons [OF counted_kr_ok kr_votes_ok m me] m unfolding i kr_votes by auto
qed

end
