(* ===== verification/Lastseen.thy ===== *)
theory Lastseen
  imports Go_Case Cmd Storage "HOL-Library.Countable"
begin

text \<open>
  modules/lastseen/lastseen.go: the last line of every nick in every channel, and the answer of \<open>!last\<close>.
  Instants are nanoseconds, stored times seconds; the printing of a time of day in the local zone is the
  argument \<open>hms\<close>. The floating divisions of \<open>timeAgo\<close> are exact ones here; they can only differ within the
  last microsecond before a month or a year is full.
\<close>

section \<open>State\<close>

record act =
  a_msg :: string
  a_time :: int

type_synonym nick_acts = "(string \<times> act) list"  \<comment> \<open>channel\<close>
type_synonym activity = "(string \<times> (string \<times> nick_acts) list) list"  \<comment> \<open>server, nick\<close>

record ls_codec =
  lc_enc :: "activity \<Rightarrow> json"
  lc_dec :: "json \<Rightarrow> activity option"

record lastseen =
  ls_activity :: activity
  ls_count :: nat
  ls_store :: memory

definition save_interval :: nat where
  "save_interval = 100"

definition second_ns :: int where
  "second_ns = 1000000000"

definition unix :: "int \<Rightarrow> int" where
  \<comment> \<open>\<open>Time.Unix\<close>\<close>
  "unix now = now div second_ns"

section \<open>What was heard\<close>

definition nicks_of :: "string \<Rightarrow> activity \<Rightarrow> (string \<times> nick_acts) list" where
  "nicks_of srv ac = (case map_of ac srv of Some ns \<Rightarrow> ns | None \<Rightarrow> [])"

definition by_chan :: "string \<Rightarrow> string \<Rightarrow> activity \<Rightarrow> nick_acts" where
  \<comment> \<open>\<open>m.activity[server][nick]\<close>\<close>
  "by_chan srv nk ac = (case map_of (nicks_of srv ac) nk of Some cs \<Rightarrow> cs | None \<Rightarrow> [])"

definition put_act :: "string \<Rightarrow> string \<Rightarrow> string \<Rightarrow> act \<Rightarrow> activity \<Rightarrow> activity" where
  "put_act srv nk ch a ac =
     AList.update srv (AList.update nk (AList.update ch a (by_chan srv nk ac)) (nicks_of srv ac)) ac"

definition save_lastseen :: "ls_codec \<Rightarrow> bool \<Rightarrow> lastseen \<Rightarrow> lastseen" where
  "save_lastseen C ok m =
     (case mem_put ''lastseen'' ''activity'' (if ok then Some (lc_enc C (ls_activity m)) else None) (ls_store m) of
        None \<Rightarrow> m
      | Some st \<Rightarrow> m\<lparr>ls_store := st\<rparr>)"

definition ls_privmsg :: "case_tables \<Rightarrow> ls_codec \<Rightarrow> bool \<Rightarrow> int \<Rightarrow> event \<Rightarrow> lastseen \<Rightarrow> lastseen" where
  "ls_privmsg U C ok now ev m =
     (if sender_me ev \<or> msg ev = [] \<or> has_prefix ''!'' (msg ev) then m
      else
        (let nk = lower_text U (nick (ev_sender ev));
             m1 = m\<lparr>ls_activity := put_act (server ev) nk (channel ev) \<lparr>a_msg = msg ev, a_time = unix now\<rparr> (ls_activity m),
                    ls_count := ls_count m + 1\<rparr>
         in if save_interval \<le> ls_count m1 then save_lastseen C ok (m1\<lparr>ls_count := 0\<rparr>) else m1))"

section \<open>What is told\<close>

definition max_dur :: int where
  "max_dur = 9223372036854775807"

definition dur_sub :: "int \<Rightarrow> int \<Rightarrow> int" where
  \<comment> \<open>\<open>Time.Sub\<close>, which stops at the largest and the least duration\<close>
  "dur_sub a b = max (- max_dur - 1) (min max_dur (a - b))"

definition minute_ns :: int where "minute_ns = 60 * second_ns"
definition hour_ns :: int where "hour_ns = 3600 * second_ns"

definition time_ago :: "int \<Rightarrow> string" where
  "time_ago d =
     (if d < minute_ns then ''just now''
      else if d < 2 * minute_ns then ''a minute ago''
      else if d < hour_ns then int_str (d div minute_ns) @ '' minutes ago''
      else if d < 2 * hour_ns then ''about an hour ago''
      else if d < 24 * hour_ns then int_str (d div hour_ns) @ '' hours ago''
      else if d < 48 * hour_ns then ''yesterday''
      else if d < 7 * 24 * hour_ns then int_str (d div (24 * hour_ns)) @ '' days ago''
      else if d < 14 * 24 * hour_ns then ''last week''
      else if d < 31 * 24 * hour_ns then int_str (d div (24 * 7 * hour_ns)) @ '' weeks ago''
      else if d < 61 * 24 * hour_ns then ''last month''
      else if d < 365 * 24 * hour_ns then int_str (d div (24 * 30 * hour_ns)) @ '' months ago''
      else if d < 2 * 365 * 24 * hour_ns then ''last year''
      else int_str (d div (24 * 365 * hour_ns)) @ '' years ago'')"

fun newest :: "nick_acts \<Rightarrow> (string \<times> act) option \<Rightarrow> (string \<times> act) option" where
  \<comment> \<open>the loop over the channels, with \<open>lastChan\<close> and \<open>lastAct\<close>\<close>
  "newest [] best = best"
| "newest ((ch, a) # cs) best =
     newest cs
       (case best of
          None \<Rightarrow> Some (ch, a)
        | Some (bc, b) \<Rightarrow> if a_time b < a_time a \<or> a_time a = a_time b \<and> ch < bc then Some (ch, a) else best)"

definition seen_line :: "(int \<Rightarrow> string) \<Rightarrow> int \<Rightarrow> int \<Rightarrow> string \<Rightarrow> string \<Rightarrow> string \<Rightarrow> act \<Rightarrow> act option \<Rightarrow> string" where
  \<comment> \<open>the switch of \<open>lastAct\<close>; \<open>here\<close> is \<open>byChan[channel]\<close>, and the clock is read twice\<close>
  "seen_line hms now now' target0 ch lc la here =
     (let ago = time_ago (dur_sub now (a_time la * second_ns)); clock = hms (a_time la)
      in if lc = ch
         then target0 @ '' was last seen '' @ ago @ '' on this channel: '' @ clock @ '' <'' @ target0 @ ''> '' @ a_msg la
         else (case here of
             None \<Rightarrow> target0 @ '' was last seen in '' @ lc @ '' '' @ ago @ ''. Never seen in this channel!''
           | Some h \<Rightarrow>
               target0 @ '' was last seen in '' @ lc @ '' '' @ ago @ ''. Last here '' @
               time_ago (dur_sub now' (a_time h * second_ns)) @ '': '' @ clock @ '' <'' @ target0 @ ''> '' @ a_msg h))"

definition never_seen :: "string \<Rightarrow> string" where
  "never_seen target0 = target0 @ '' destroyed (never seen that nick anywhere).''"

definition last_act :: "case_tables \<Rightarrow> (int \<Rightarrow> string) \<Rightarrow> int \<Rightarrow> int \<Rightarrow> string \<Rightarrow> string \<Rightarrow> string \<Rightarrow> activity \<Rightarrow> string" where
  "last_act U hms now now' target0 srv ch ac =
     (let cs = by_chan srv (lower_text U target0) ac
      in case newest cs None of
          None \<Rightarrow> never_seen target0
        | Some (lc, la) \<Rightarrow> seen_line hms now now' target0 ch lc la (map_of cs ch))"

definition cb_last :: "case_tables \<Rightarrow> (int \<Rightarrow> string) \<Rightarrow> int \<Rightarrow> int \<Rightarrow> cmd_data \<Rightarrow> lastseen \<Rightarrow> bool \<times> (string \<times> string) list" where
  "cb_last U hms now now' d m =
     (if sender_me (cmd_event d) then (False, [])
      else
        (let t = trim_space (data d); ch = channel (cmd_event d)
         in if t = [] then (True, [(ch, ''!last <nick> Shows last known activity for <nick> on this channel'')])
            else (True, [(ch, last_act U hms now now' t (server (cmd_event d)) ch (ls_activity m))])))"

definition load_lastseen :: "ls_codec \<Rightarrow> nat \<Rightarrow> memory \<Rightarrow> lastseen option" where
  \<comment> \<open>the counter is a field of the module and not reset\<close>
  "load_lastseen C n st =
     (case mem_get ''lastseen'' ''activity'' st of
        None \<Rightarrow> Some \<lparr>ls_activity = [], ls_count = n, ls_store = st\<rparr>
      | Some j \<Rightarrow> map_option (\<lambda>ac. \<lparr>ls_activity = ac, ls_count = n, ls_store = st\<rparr>) (lc_dec C j))"

definition unload_lastseen :: "ls_codec \<Rightarrow> bool \<Rightarrow> lastseen \<Rightarrow> lastseen" where
  "unload_lastseen C ok m = save_lastseen C ok m"

definition register_lastseen :: "'h \<Rightarrow> 'h registry \<Rightarrow> 'h registry" where
  "register_lastseen h r = register ''lastseen'' ''last'' h r"

section \<open>How long ago\<close>

definition counts_units :: "string \<Rightarrow> string \<Rightarrow> int \<Rightarrow> int \<Rightarrow> int \<Rightarrow> int \<Rightarrow> bool" where
  \<comment> \<open>the text is a number from \<open>lo\<close> to \<open>hi\<close> and the word, and \<open>d\<close> is that many whole units\<close>
  "counts_units w s d k lo hi \<longleftrightarrow> (\<exists>n. s = int_str n @ w \<and> lo \<le> n \<and> n \<le> hi \<and> n * k \<le> d \<and> d < (n + 1) * k)"

lemma counts_div:
  fixes d k :: int
  assumes "0 < k" and "lo * k \<le> d" and "d < (hi + 1) * k"
  shows "counts_units w (int_str (d div k) @ w) d k lo hi"
proof -
  have "(d div k + 1) * k = d div k * k + k" by (simp add: algebra_simps)
  then have q: "d div k * k \<le> d" "d < (d div k + 1) * k"
    using pos_mod_bound [OF assms(1), of d] pos_mod_sign [OF assms(1), of d] div_mult_mod_eq [of d k] by linarith+
  then have "lo * k < (d div k + 1) * k" "d div k * k < (hi + 1) * k" using assms by linarith+
  then have "lo < d div k + 1" "d div k < hi + 1" using assms(1) by (simp_all add: mult_less_cancel_right)
  with q show ?thesis unfolding counts_units_def by auto
qed

lemmas units = minute_ns_def hour_ns_def second_ns_def

text \<open>
  The wording of the time passed. The steps are exhaustive and never say a number that has a word of its
  own: minutes run from 2 to 59, hours from 2 to 23, days from 2 to 6, weeks from 2 to 4, months from 2 to
  12, years from 2, and the number told is the whole number of such units that have passed.
\<close>

theorem time_ago_numbers:
  "time_ago d \<in> {''just now'', ''a minute ago'', ''about an hour ago'', ''yesterday'', ''last week'', ''last month'', ''last year''} \<or>
   counts_units '' minutes ago'' (time_ago d) d minute_ns 2 59 \<or>
   counts_units '' hours ago'' (time_ago d) d hour_ns 2 23 \<or>
   counts_units '' days ago'' (time_ago d) d (24 * hour_ns) 2 6 \<or>
   counts_units '' weeks ago'' (time_ago d) d (24 * 7 * hour_ns) 2 4 \<or>
   counts_units '' months ago'' (time_ago d) d (24 * 30 * hour_ns) 2 12 \<or>
   counts_units '' years ago'' (time_ago d) d (24 * 365 * hour_ns) 2 (d div (24 * 365 * hour_ns))"
proof -
  consider "d < 2 * minute_ns" | "hour_ns \<le> d" "d < 2 * hour_ns" | "24 * hour_ns \<le> d" "d < 48 * hour_ns"
    | "7 * 24 * hour_ns \<le> d" "d < 14 * 24 * hour_ns" | "31 * 24 * hour_ns \<le> d" "d < 61 * 24 * hour_ns"
    | "365 * 24 * hour_ns \<le> d" "d < 2 * 365 * 24 * hour_ns"
    | (min) "2 * minute_ns \<le> d" "d < hour_ns" | (hours) "2 * hour_ns \<le> d" "d < 24 * hour_ns"
    | (days) "48 * hour_ns \<le> d" "d < 7 * 24 * hour_ns" | (weeks) "14 * 24 * hour_ns \<le> d" "d < 31 * 24 * hour_ns"
    | (months) "61 * 24 * hour_ns \<le> d" "d < 365 * 24 * hour_ns" | (years) "2 * 365 * 24 * hour_ns \<le> d"
    by linarith
  then show ?thesis
  proof cases
    case min
    then have "time_ago d = int_str (d div minute_ns) @ '' minutes ago''" by (simp add: time_ago_def units)
    with min counts_div [of minute_ns 2 d 59 "'' minutes ago''"] show ?thesis by (simp add: units)
  next
    case hours
    then have "time_ago d = int_str (d div hour_ns) @ '' hours ago''" by (simp add: time_ago_def units)
    with hours counts_div [of hour_ns 2 d 23 "'' hours ago''"] show ?thesis by (simp add: units)
  next
    case days
    then have "time_ago d = int_str (d div (24 * hour_ns)) @ '' days ago''" by (simp add: time_ago_def units)
    with days counts_div [of "24 * hour_ns" 2 d 6 "'' days ago''"] show ?thesis by (simp add: units)
  next
    case weeks
    then have "time_ago d = int_str (d div (24 * 7 * hour_ns)) @ '' weeks ago''" by (simp add: time_ago_def units)
    with weeks counts_div [of "24 * 7 * hour_ns" 2 d 4 "'' weeks ago''"] show ?thesis by (simp add: units)
  next
    case months
    then have "time_ago d = int_str (d div (24 * 30 * hour_ns)) @ '' months ago''" by (simp add: time_ago_def units)
    with months counts_div [of "24 * 30 * hour_ns" 2 d 12 "'' months ago''"] show ?thesis by (simp add: units)
  next
    case years
    let ?k = "24 * 365 * hour_ns"
    have "d < (d div ?k + 1) * ?k"
      using pos_mod_bound [of ?k d] div_mult_mod_eq [of d ?k] by (simp add: units algebra_simps)
    moreover have "time_ago d = int_str (d div ?k) @ '' years ago''" using years by (simp add: time_ago_def units)
    ultimately show ?thesis using years counts_div [of ?k 2 d "d div ?k" "'' years ago''"] by (simp add: units)
  qed (auto simp add: time_ago_def units)
qed

section \<open>The newest line\<close>

definition not_older :: "string \<times> act \<Rightarrow> string \<times> act \<Rightarrow> bool" where
  "not_older x y = (a_time (snd y) < a_time (snd x) \<or> a_time (snd y) = a_time (snd x) \<and> fst x \<le> fst y)"

lemma newest_best:
  "newest cs best = Some x \<Longrightarrow> x \<in> set cs \<union> set_option best \<and> (\<forall>y \<in> set cs \<union> set_option best. not_older x y)"
proof (induction cs best rule: newest.induct)
  case (1 best)
  then show ?case by (simp add: not_older_def)
next
  case (2 ch a cs best)
  let ?b = "case best of None \<Rightarrow> Some (ch, a)
      | Some (bc, b) \<Rightarrow> if a_time b < a_time a \<or> a_time a = a_time b \<and> ch < bc then Some (ch, a) else best"
  from 2 have ih: "x \<in> set cs \<union> set_option ?b" "\<forall>y \<in> set cs \<union> set_option ?b. not_older x y" by auto
  have "x \<in> set ((ch, a) # cs) \<union> set_option best" using ih(1) by (auto split: option.splits if_splits)
  moreover have "not_older x (ch, a) \<and> (\<forall>y \<in> set_option best. not_older x y)"
    using ih(2) by (auto simp: not_older_def split: option.splits if_splits)
  ultimately show ?case using ih(2) by auto
qed

lemma newest_None: "newest cs best = None \<longleftrightarrow> cs = [] \<and> best = None"
  by (induction cs best rule: newest.induct) (auto split: option.splits)

section \<open>Runs\<close>

datatype ls_op = Heard bool int event  \<comment> \<open>outcome of the write, clock, event\<close>

type_synonym ls_log = "((string \<times> string \<times> string) \<times> act) list"

fun ls_step :: "case_tables \<Rightarrow> ls_codec \<Rightarrow> ls_op \<Rightarrow> lastseen \<Rightarrow> lastseen" where
  "ls_step U C (Heard ok now ev) m = ls_privmsg U C ok now ev m"

fun heard_in :: "case_tables \<Rightarrow> ls_op \<Rightarrow> ls_log" where
  \<comment> \<open>what counts: lines of others that are neither empty nor commands\<close>
  "heard_in U (Heard ok now ev) =
     (if sender_me ev \<or> msg ev = [] \<or> has_prefix ''!'' (msg ev) then []
      else [((server ev, lower_text U (nick (ev_sender ev)), channel ev), \<lparr>a_msg = msg ev, a_time = unix now\<rparr>)])"

definition ls_run :: "case_tables \<Rightarrow> ls_codec \<Rightarrow> ls_op list \<Rightarrow> lastseen \<Rightarrow> lastseen" where
  "ls_run U C ops m = fold (ls_step U C) ops m"

definition heard :: "case_tables \<Rightarrow> ls_op list \<Rightarrow> ls_log" where
  "heard U ops = concat (map (heard_in U) ops)"

definition knows :: "activity \<Rightarrow> ls_log \<Rightarrow> bool" where
  \<comment> \<open>of every nick and channel the last line of the log\<close>
  "knows ac log \<longleftrightarrow> (\<forall>srv nk ch. map_of (by_chan srv nk ac) ch = map_of (rev log) (srv, nk, ch))"

lemma by_chan_put [simp]:
  "by_chan srv' nk' (put_act srv nk ch a ac) =
     (if srv' = srv \<and> nk' = nk then AList.update ch a (by_chan srv nk ac) else by_chan srv' nk' ac)"
  by (auto simp: by_chan_def nicks_of_def put_act_def split: option.splits)

lemma knows_put: "knows ac log \<Longrightarrow> knows (put_act srv nk ch a ac) (log @ [((srv, nk, ch), a)])"
  by (auto simp: knows_def)

definition acts_ok :: "activity \<Rightarrow> bool" where
  "acts_ok = map_all (\<lambda>srv. map_all (\<lambda>nk. map_all (\<lambda>ch a. valid_utf8 srv \<and> valid_utf8 nk \<and> valid_utf8 ch \<and> valid_utf8 (a_msg a))))"

definition same_acts :: "activity \<Rightarrow> activity \<Rightarrow> bool" where
  "same_acts ac ac' \<longleftrightarrow> (\<forall>srv nk ch. map_of (by_chan srv nk ac') ch = map_of (by_chan srv nk ac) ch)"

definition ls_codec_ok :: "ls_codec \<Rightarrow> bool" where
  \<comment> \<open>JSON brings back data whose strings are UTF-8, its maps in some order\<close>
  "ls_codec_ok C = (\<forall>ac. acts_ok ac \<longrightarrow> (\<exists>ac'. lc_dec C (lc_enc C ac) = Some ac' \<and> same_acts ac ac'))"

definition ev_utf8 :: "event \<Rightarrow> bool" where
  "ev_utf8 ev \<longleftrightarrow> valid_utf8 (server ev) \<and> valid_utf8 (channel ev) \<and> valid_utf8 (msg ev)"

lemma put_act_ok:
  assumes ac: "acts_ok ac" and v: "valid_utf8 srv" "valid_utf8 nk" "valid_utf8 ch" "valid_utf8 (a_msg a)"
  shows "acts_ok (put_act srv nk ch a ac)"
proof -
  let ?P = "\<lambda>srv nk. map_all (\<lambda>ch a. valid_utf8 srv \<and> valid_utf8 nk \<and> valid_utf8 ch \<and> valid_utf8 (a_msg a))"
  have n: "map_all (?P srv) (nicks_of srv ac)"
    using ac by (auto simp: acts_ok_def nicks_of_def dest: map_all_lookup split: option.split)
  then have "?P srv nk (by_chan srv nk ac)"
    by (auto simp: by_chan_def dest: map_all_lookup split: option.split)
  from map_all_update [OF this, of ch a] v have "?P srv nk (AList.update ch a (by_chan srv nk ac))" by simp
  with n have "map_all (?P srv) (AList.update nk (AList.update ch a (by_chan srv nk ac)) (nicks_of srv ac))"
    by (rule map_all_update)
  with ac show ?thesis unfolding acts_ok_def put_act_def by (rule map_all_update)
qed

text \<open>What holds between two lines: the store has the activity as it was after the last full hundred.\<close>

definition ls_inv :: "ls_codec \<Rightarrow> ls_log \<Rightarrow> lastseen \<Rightarrow> bool" where
  "ls_inv C log m \<longleftrightarrow> knows (ls_activity m) log \<and> acts_ok (ls_activity m) \<and> ls_count m = length log mod save_interval \<and>
     (\<exists>ac. knows ac (take (length log - length log mod save_interval) log) \<and> acts_ok ac \<and>
        mem_get ''lastseen'' ''activity'' (ls_store m) = (if length log < save_interval then None else Some (lc_enc C ac)))"

lemma save_lastseen_facts [simp]:
  "ls_activity (save_lastseen C ok m) = ls_activity m" "ls_count (save_lastseen C ok m) = ls_count m"
  "mem_get ''lastseen'' ''activity'' (ls_store (save_lastseen C True m)) = Some (lc_enc C (ls_activity m))"
  by (simp_all add: save_lastseen_def mem_put_def mem_get_def split: option.split)

lemma ls_inv_step:
  assumes "ls_inv C log m" and "ev_utf8 ev"
  shows "ls_inv C (log @ heard_in U (Heard True now ev)) (ls_step U C (Heard True now ev) m)"
proof (cases "sender_me ev \<or> msg ev = [] \<or> has_prefix ''!'' (msg ev)")
  case True
  then show ?thesis using assms by (auto simp: ls_privmsg_def)
next
  case False
  let ?a = "\<lparr>a_msg = msg ev, a_time = unix now\<rparr>"
  let ?ac = "put_act (server ev) (lower_text U (nick (ev_sender ev))) (channel ev) ?a (ls_activity m)"
  have h: "heard_in U (Heard True now ev) = [((server ev, lower_text U (nick (ev_sender ev)), channel ev), ?a)]"
    using False by auto
  have k: "knows ?ac (log @ heard_in U (Heard True now ev))" "acts_ok ?ac"
    using assms knows_put [of "ls_activity m" log] put_act_ok [of "ls_activity m"]
    by (simp_all add: h ls_inv_def ev_utf8_def del: heard_in.simps)
  have c: "ls_count m = length log mod save_interval" using assms(1) by (simp add: ls_inv_def)
  show ?thesis
  proof (cases "save_interval \<le> ls_count m + 1")
    case True
    then have m: "Suc (length log) mod save_interval = 0" "\<not> Suc (length log) < save_interval"
      using c by (auto simp: save_interval_def mod_Suc split: if_splits)
    show ?thesis
      using True False k m h by (auto simp: ls_inv_def ls_privmsg_def)
  next
    case no: False
    then have m: "Suc (length log) mod save_interval = Suc (length log mod save_interval)"
      using c by (auto simp: save_interval_def mod_Suc)
    have "length log mod save_interval = length log" if "length log < save_interval" using that by simp
    with no c have l: "Suc (length log) < save_interval \<longleftrightarrow> length log < save_interval" by linarith
    have t: "Suc (length log) - Suc (length log mod save_interval) = length log - length log mod save_interval" by simp
    have s: "ls_step U C (Heard True now ev) m = m\<lparr>ls_activity := ?ac, ls_count := ls_count m + 1\<rparr>"
      using False no by (simp add: ls_privmsg_def)
    from assms(1) obtain ac where "knows ac (take (length log - length log mod save_interval) log)" "acts_ok ac"
      "mem_get ''lastseen'' ''activity'' (ls_store m) = (if length log < save_interval then None else Some (lc_enc C ac))"
      unfolding ls_inv_def by blast
    then show ?thesis unfolding s ls_inv_def using k h m t l c by (intro conjI exI [of _ ac]) simp_all
  qed
qed

definition ls_start :: "memory \<Rightarrow> lastseen" where
  "ls_start st = \<lparr>ls_activity = [], ls_count = 0, ls_store = st\<rparr>"

lemma ls_run_snoc: "ls_run U C (ops @ [h]) m = ls_step U C h (ls_run U C ops m)"
  by (simp add: ls_run_def)

lemma heard_snoc: "heard U (ops @ [h]) = heard U ops @ heard_in U h"
  by (simp add: heard_def)

lemma knows_run:
  "knows (ls_activity (ls_run U C ops (ls_start st))) (heard U ops) \<and>
   (\<forall>srv nk. wf_map (by_chan srv nk (ls_activity (ls_run U C ops (ls_start st)))))"
proof (induction ops rule: rev_induct)
  case Nil
  show ?case by (simp add: ls_run_def heard_def ls_start_def knows_def by_chan_def nicks_of_def)
next
  case (snoc h ops)
  obtain ok now ev where h: "h = Heard ok now ev" by (cases h) auto
  show ?case unfolding ls_run_snoc heard_snoc h using snoc knows_put by (auto simp: ls_privmsg_def)
qed

definition newest_in :: "ls_log \<Rightarrow> string \<Rightarrow> string \<Rightarrow> string \<Rightarrow> act \<Rightarrow> bool" where
  \<comment> \<open>of the last lines of a nick in each channel, the latest, and of those of one second the first channel\<close>
  "newest_in log srv nk c a \<longleftrightarrow>
     map_of (rev log) (srv, nk, c) = Some a \<and>
     (\<forall>c' a'. map_of (rev log) (srv, nk, c') = Some a' \<longrightarrow>
        a_time a' < a_time a \<or> a_time a' = a_time a \<and> c \<le> c')"

text \<open>
  C39. What \<open>!last\<close> answers. After any run of lines, for a nick in any letter case, the answer is about the
  channel of the newest of its lines (equally new ones: the first channel by name), and tells that line when
  this is the channel asked in, else the last line of the nick here when there is one, else that there is
  none; a nick of which no line is known was never seen. It depends on nothing but the lines heard.
\<close>

theorem lastseen_answers:
  assumes "\<not> sender_me (cmd_event d)" and "trim_space (data d) = t" and "t \<noteq> []"
    and "server (cmd_event d) = srv" and "channel (cmd_event d) = ch" and "lower_text U t = nk"
  shows "\<exists>s. cb_last U hms now now' d (ls_run U C ops (ls_start st)) = (True, [(ch, s)]) \<and>
    ((\<forall>c. map_of (rev (heard U ops)) (srv, nk, c) = None) \<and> s = never_seen t \<or>
     (\<exists>c a. newest_in (heard U ops) srv nk c a \<and>
        s = seen_line hms now now' t ch c a (map_of (rev (heard U ops)) (srv, nk, ch))))"
proof -
  let ?cs = "by_chan srv nk (ls_activity (ls_run U C ops (ls_start st)))"
  have k: "map_of ?cs c = map_of (rev (heard U ops)) (srv, nk, c)" and w: "wf_map ?cs" for c
    using knows_run [of U C ops st] by (auto simp: knows_def)
  have e: "cb_last U hms now now' d (ls_run U C ops (ls_start st)) =
      (True, [(ch, case newest ?cs None of None \<Rightarrow> never_seen t | Some (lc, la) \<Rightarrow> seen_line hms now now' t ch lc la (map_of ?cs ch))])"
    using assms by (simp add: cb_last_def last_act_def)
  show ?thesis
  proof (cases "newest ?cs None")
    case None
    then have "?cs = []" by (simp add: newest_None)
    then have "map_of (rev (heard U ops)) (srv, nk, c) = None" for c using k [of c] by simp
    with None e show ?thesis by simp
  next
    case (Some x)
    obtain c a where x: "x = (c, a)" by (cases x)
    with newest_best [OF Some] have "map_of ?cs c = Some a" "\<forall>(c', a') \<in> set ?cs. not_older (c, a) (c', a')"
      using w by (auto simp: map_of_some_iff)
    then have "newest_in (heard U ops) srv nk c a"
      unfolding newest_in_def k [symmetric] by (auto simp: not_older_def dest!: map_of_SomeD)
    with Some e k x show ?thesis by auto
  qed
qed

text \<open>
  C40. What a restart forgets. If the writes succeed, loading the module from the store of a running one
  gives the activity as it was after the last full hundred of lines, so that a core that ends without
  unloading its modules loses the lines after it, at most 99; after \<open>Unload\<close> nothing is lost.
\<close>

theorem lastseen_restart:
  assumes "ls_codec_ok C" and "\<forall>ev \<in> set evs. ev_utf8 (snd ev)" and "mem_get ''lastseen'' ''activity'' st = None"
    and "m = ls_run U C (map (\<lambda>(now, ev). Heard True now ev) evs) (ls_start st)"
    and "log = heard U (map (\<lambda>(now, ev). Heard True now ev) evs)"
  shows "(\<exists>m'. load_lastseen C 0 (ls_store m) = Some m' \<and>
      knows (ls_activity m') (take (length log - length log mod 100) log)) \<and>
    (\<exists>m'. load_lastseen C 0 (ls_store (unload_lastseen C True m)) = Some m' \<and> knows (ls_activity m') log)"
proof -
  have "ls_inv C (heard U (map (\<lambda>(now, ev). Heard True now ev) evs))
      (ls_run U C (map (\<lambda>(now, ev). Heard True now ev) evs) (ls_start st))"
    using assms(2)
  proof (induction evs rule: rev_induct)
    case Nil
    show ?case using assms(3)
      by (auto simp: ls_inv_def heard_def ls_run_def ls_start_def knows_def by_chan_def nicks_of_def acts_ok_def
          save_interval_def intro!: exI [of _ "[]"])
  next
    case (snoc e evs)
    then show ?case using ls_inv_step [of C _ _ "snd e" U "fst e"]
      by (cases e) (simp add: ls_run_snoc heard_snoc del: heard_in.simps ls_step.simps)
  qed
  then have inv: "ls_inv C log m" unfolding assms(4,5) .
  have same: "knows ac' l" if "same_acts ac ac'" "knows ac l" for ac ac' l using that by (simp add: same_acts_def knows_def)
  from inv obtain ac where ac: "knows ac (take (length log - length log mod 100) log)" "acts_ok ac"
    "mem_get ''lastseen'' ''activity'' (ls_store m) = (if length log < 100 then None else Some (lc_enc C ac))"
    unfolding ls_inv_def save_interval_def by blast
  from assms(1) ac(2) obtain ac' where ac': "lc_dec C (lc_enc C ac) = Some ac'" "same_acts ac ac'"
    unfolding ls_codec_ok_def by blast
  have "\<exists>m'. load_lastseen C 0 (ls_store m) = Some m' \<and>
      knows (ls_activity m') (take (length log - length log mod 100) log)"
  proof (cases "length log < 100")
    case True
    then show ?thesis using ac(3) by (simp add: load_lastseen_def knows_def by_chan_def nicks_of_def)
  next
    case False
    then show ?thesis using ac(3) ac' same [OF ac'(2) ac(1)] by (simp add: load_lastseen_def)
  qed
  moreover from inv have k: "knows (ls_activity m) log" "acts_ok (ls_activity m)" by (simp_all add: ls_inv_def)
  with assms(1) obtain b where b: "lc_dec C (lc_enc C (ls_activity m)) = Some b" "same_acts (ls_activity m) b"
    unfolding ls_codec_ok_def by blast
  ultimately show ?thesis using b(1) same [OF b(2) k(1)] by (simp add: load_lastseen_def unload_lastseen_def)
qed

section \<open>An instance\<close>

definition ls_tables :: case_tables where
  "ls_tables = \<lparr>ct_lower = id, ct_upper = id\<rparr>"

definition ls_line :: "string \<Rightarrow> string \<Rightarrow> event" where
  "ls_line ch s = no_event\<lparr>server := ''s'', channel := ch, msg := s,
     ev_sender := \<lparr>nick = ''Ben'', user = [], host = [], user_id = []\<rparr>\<rparr>"

definition ls_ops :: "ls_op list" where
  "ls_ops = [Heard True 5000000000 (ls_line ''#a'' ''hi''), Heard True 9000000000 (ls_line ''#b'' ''yo''),
     Heard True 9500000000 (ls_line ''#a'' ''!last ben'')]"

definition ls_asked :: cmd_data where
  "ls_asked = \<lparr>command = ''last'', data = ''ben'', cmd_event = ls_line ''#a'' ''!last ben''\<rparr>"

lemma ls_lower: "lower_text ls_tables ''Ben'' = ''ben''" "lower_text ls_tables ''ben'' = ''ben''"
proof -
  have "to_lower ''Ben'' = ''ben''" "to_lower ''ben'' = ''ben''" by code_simp+
  then show "lower_text ls_tables ''Ben'' = ''ben''" "lower_text ls_tables ''ben'' = ''ben''" by (simp_all add: lower_text_ascii)
qed

lemma ls_heard: "heard ls_tables ls_ops =
    [((''s'', ''ben'', ''#a''), \<lparr>a_msg = ''hi'', a_time = 5\<rparr>), ((''s'', ''ben'', ''#b''), \<lparr>a_msg = ''yo'', a_time = 9\<rparr>)]"
  by (simp add: heard_def ls_ops_def ls_line_def no_event_def ls_lower unix_def second_ns_def has_prefix_def)

instance act_ext :: (countable) countable
proof
  have "inj (\<lambda>a :: 'a act_ext. (a_msg a, a_time a, act.more a))" by (rule injI) simp
  then have "inj (to_nat \<circ> (\<lambda>a :: 'a act_ext. (a_msg a, a_time a, act.more a)))" by (simp add: inj_compose)
  then show "\<exists>f :: 'a act_ext \<Rightarrow> nat. inj f" by blast
qed

definition counted_ls :: ls_codec where
  "counted_ls = \<lparr>lc_enc = (\<lambda>d. replicate (to_nat d) (CHR ''x'')), lc_dec = (\<lambda>j. Some (from_nat (length j)))\<rparr>"

lemma counted_ls_ok: "ls_codec_ok counted_ls"
  by (simp add: ls_codec_ok_def counted_ls_def same_acts_def)

lemma lastseen_answers_witness:
  "cb_last ls_tables (\<lambda>t. ''01:02:03'') 130000000000 130000000000 ls_asked (ls_run ls_tables counted_ls ls_ops (ls_start [])) =
   (True, [(''#a'', ''ben was last seen in #b 2 minutes ago. Last here 2 minutes ago: 01:02:03 <ben> hi'')])"
proof -
  have t: "trim_space ''ben'' = ''ben''" by (simp add: trim_space_ascii is_space_rune_def)
  have a: "\<not> sender_me (cmd_event ls_asked)" "trim_space (data ls_asked) = ''ben''" "''ben'' \<noteq> []"
    "server (cmd_event ls_asked) = ''s''" "channel (cmd_event ls_asked) = ''#a''" "lower_text ls_tables ''ben'' = ''ben''"
    by (simp_all add: ls_asked_def ls_line_def no_event_def t ls_lower)
  have n: "newest_in (heard ls_tables ls_ops) ''s'' ''ben'' c x \<Longrightarrow> c = ''#b'' \<and> x = \<lparr>a_msg = ''yo'', a_time = 9\<rparr>" for c x
    unfolding ls_heard newest_in_def by (auto split: if_splits)
  have i2: "int_str 2 = ''2''" by code_simp
  have two: "time_ago (dur_sub 130000000000 (t * second_ns)) = ''2 minutes ago''" if "t = 5 \<or> t = 9" for t
    using that by (auto simp: time_ago_def dur_sub_def max_dur_def units i2)
  have s: "seen_line (\<lambda>t. ''01:02:03'') 130000000000 130000000000 ''ben'' ''#a'' ''#b'' \<lparr>a_msg = ''yo'', a_time = 9\<rparr>
      (map_of (rev (heard ls_tables ls_ops)) (''s'', ''ben'', ''#a'')) =
      ''ben was last seen in #b 2 minutes ago. Last here 2 minutes ago: 01:02:03 <ben> hi''"
    unfolding ls_heard by (simp add: seen_line_def two)
  have "map_of (rev (heard ls_tables ls_ops)) (''s'', ''ben'', ''#a'') \<noteq> None" unfolding ls_heard by simp
  with lastseen_answers [OF a, of "\<lambda>t. ''01:02:03''" 130000000000 130000000000 counted_ls ls_ops "[]"] n s show ?thesis by metis
qed

lemma heard_replicate:
  "heard U (replicate n h) = concat (replicate n (heard_in U h))"
  by (simp add: heard_def)

lemma lastseen_restart_witness:
  "let m = ls_run ls_tables counted_ls (replicate 101 (Heard True 0 (ls_line ''#a'' ''hi''))) (ls_start [])
   in \<exists>m'. load_lastseen counted_ls 0 (ls_store m) = Some m' \<and>
        knows (ls_activity m') (replicate 100 ((''s'', ''ben'', ''#a''), \<lparr>a_msg = ''hi'', a_time = 0\<rparr>))"
proof -
  let ?x = "((''s'', ''ben'', ''#a''), \<lparr>a_msg = ''hi'', a_time = 0\<rparr>)"
  let ?evs = "replicate 101 (0 :: int, ls_line ''#a'' ''hi'')"
  have "heard_in ls_tables (Heard True 0 (ls_line ''#a'' ''hi'')) = [?x]"
    by (simp add: ls_line_def no_event_def ls_lower unix_def has_prefix_def)
  moreover have "concat (replicate n [?x]) = replicate n ?x" for n by (induction n) simp_all
  ultimately have h: "heard ls_tables (map (\<lambda>(now, ev). Heard True now ev) ?evs) = replicate 101 ?x"
    by (simp only: map_replicate prod.case heard_replicate)
  have v: "\<forall>ev \<in> set ?evs. ev_utf8 (snd ev)"
    by (simp add: ls_line_def no_event_def ev_utf8_def valid_utf8_ascii)
  from lastseen_restart [OF counted_ls_ok v _ refl refl, of "[]" ls_tables] show ?thesis
    unfolding h by (simp add: mem_get_def ns_data_def map_replicate)
qed

end
