(* ===== verification/Core.thy ===== *)
theory Core
  imports Session Format Conf Storage Admin Go_Case
begin

text \<open>
  internal/core/core.go, transport.go and builtins.go: the connection as the dispatcher sees it, what is said
  through it, the channels joined by themselves and the console commands of the core. All of it runs on the
  dispatcher, one piece of work after the other. What the core does to the outside is its \<open>trace\<close>. The
  modules are an argument: \<open>ce_react\<close> says what they call in answer to the last entry of the trace, so that
  they may depend on all that happened before. Hooks of \<open>IRC_SENT\<close> may say something in turn; the bus
  enters none of them twice, so that \<open>ce_depth\<close>, a bound on the nesting, is at most their number.
\<close>

section \<open>State\<close>

record link =
  lk_session :: session
  lk_held :: "event list"

datatype core_action =
    Dialed  \<comment> \<open>a connection is up\<close>
  | Wrote string
  | Wrote_high string
  | Submitted event  \<comment> \<open>to the bus\<close>
  | Handled event  \<comment> \<open>by the command registry\<close>
  | Welcomed
  | Retry_in int
  | Closed

datatype call = Say string string | Raw string

record core =
  cr_network :: string
  cr_nick :: string
  cr_link :: "link option"  \<comment> \<open>\<open>conn\<close> and \<open>session\<close>, set and cleared together\<close>
  cr_backoff :: backoff
  cr_retries :: nat  \<comment> \<open>pending timers that will connect\<close>
  cr_channels :: "string list"
  cr_conf :: conf
  cr_store :: memory
  trace :: "core_action list"

record core_env =
  ce_react :: "core_action list \<Rightarrow> call list"
  ce_depth :: nat
  ce_float_ok :: "string \<Rightarrow> bool"
  ce_enc_list :: "string list \<Rightarrow> json option"
  ce_dec_list :: "json \<Rightarrow> string list option"
  ce_enc_map :: "(string \<times> string) list \<Rightarrow> json option"
  ce_quote :: "string \<Rightarrow> string"  \<comment> \<open>\<open>%q\<close>\<close>
  ce_error :: "conf_error \<Rightarrow> string"  \<comment> \<open>the text of an error of the settings\<close>

definition logged :: "core_action \<Rightarrow> core \<Rightarrow> core" where
  "logged a s = s\<lparr>trace := trace s @ [a]\<rparr>"

definition set_session :: "session \<Rightarrow> core \<Rightarrow> core" where
  "set_session x s = s\<lparr>cr_link := map_option (\<lambda>l. l\<lparr>lk_session := x\<rparr>) (cr_link s)\<rparr>"

section \<open>The channels joined by themselves\<close>

definition save_channels :: "core_env \<Rightarrow> core \<Rightarrow> core" where
  \<comment> \<open>an error is only logged\<close>
  "save_channels E s =
     (case mem_put ''core'' ''channels'' (ce_enc_list E (cr_channels s)) (cr_store s) of
        None \<Rightarrow> s | Some st \<Rightarrow> s\<lparr>cr_store := st\<rparr>)"

definition add_channel :: "core_env \<Rightarrow> string \<Rightarrow> core \<Rightarrow> bool \<times> core" where
  "add_channel E ch s =
     (if \<exists>have \<in> set (cr_channels s). equal_fold have ch then (False, s)
      else (True, save_channels E (s\<lparr>cr_channels := cr_channels s @ [ch]\<rparr>)))"

definition remove_channel :: "core_env \<Rightarrow> string \<Rightarrow> core \<Rightarrow> bool \<times> core" where
  "remove_channel E ch s =
     (let left = filter (\<lambda>have. \<not> equal_fold have ch) (cr_channels s)
      in if length left = length (cr_channels s) then (False, s\<lparr>cr_channels := left\<rparr>)
         else (True, save_channels E (s\<lparr>cr_channels := left\<rparr>)))"

definition load_channels :: "core_env \<Rightarrow> string list \<Rightarrow> core \<Rightarrow> core" where
  \<comment> \<open>the flags seed the set on the first boot; what cannot be read leaves it empty\<close>
  "load_channels E flags s =
     (case mem_get ''core'' ''channels'' (cr_store s) of
        None \<Rightarrow> save_channels E (s\<lparr>cr_channels := flags\<rparr>)
      | Some j \<Rightarrow> (case ce_dec_list E j of None \<Rightarrow> s | Some chs \<Rightarrow> s\<lparr>cr_channels := chs\<rparr>))"

fun write_sends :: "action list \<Rightarrow> core \<Rightarrow> core" where
  \<comment> \<open>the lines a session sends, when it sends nothing but lines\<close>
  "write_sends [] s = s"
| "write_sends (Send l # as) s = write_sends as (logged (Wrote l) s)"
| "write_sends (Send_high l # as) s = write_sends as (logged (Wrote_high l) s)"
| "write_sends (_ # as) s = write_sends as s"

definition join_now :: "int \<Rightarrow> string list \<Rightarrow> core \<Rightarrow> core" where
  \<comment> \<open>\<open>session.JoinChannels\<close>, when there is a session\<close>
  "join_now now chs s =
     (case cr_link s of
        None \<Rightarrow> s
      | Some l \<Rightarrow> (let (as, x) = join_channels now chs (lk_session l) in write_sends as (set_session x s)))"

definition on_invited :: "core_env \<Rightarrow> int \<Rightarrow> event \<Rightarrow> core \<Rightarrow> core" where
  "on_invited E now ev s =
     (if channel ev = [] then s else join_now now [channel ev] (snd (add_channel E (channel ev) s)))"

section \<open>Saying something\<close>

definition split_lines :: "string \<Rightarrow> string list" where
  "split_lines m = filter (\<lambda>l. trim_space l \<noteq> []) (split_on (CHR 0x0A) m)"

definition is_channel :: "string \<Rightarrow> bool" where
  "is_channel t = (case t of [] \<Rightarrow> False | c # _ \<Rightarrow> c \<in> {CHR ''#'', CHR ''&'', CHR ''+'', CHR ''!''})"

definition receiver_of :: "string \<Rightarrow> string" where
  \<comment> \<open>\<open>strings.Map\<close> writes U+FFFD for an invalid byte\<close>
  "receiver_of r = from_runes (filter (\<lambda>q. q \<notin> {0x3A, 0x20, 0x09, 0x0D, 0x0A}) (runes r))"

definition sent_event :: "core \<Rightarrow> string \<Rightarrow> string \<Rightarrow> event" where
  "sent_event s r part = no_event\<lparr>ev_name := ''IRC_SENT'', bot_nick := cr_nick s, server := cr_network s,
     ev_sender := \<lparr>nick = cr_nick s, user = [], host = [], user_id = []\<rparr>, sender_me := True,
     channel := r, msg := part\<rparr>"

definition may_say :: "string \<Rightarrow> core \<Rightarrow> bool" where
  \<comment> \<open>the guards of \<open>privmsg\<close>, for a cleaned receiver\<close>
  "may_say r s =
     (case cr_link s of
        None \<Rightarrow> False
      | Some l \<Rightarrow> welcomed (lk_session l) \<and> r \<noteq> [] \<and> (is_channel r \<longrightarrow> in_channel r (lk_session l)))"

definition say_part :: "(core_action \<Rightarrow> core \<Rightarrow> core) \<Rightarrow> string \<Rightarrow> string \<Rightarrow> core \<Rightarrow> core" where
  "say_part sub r part s =
     sub (Submitted (sent_event s r part))
       (fold (\<lambda>l. logged (Wrote l)) (split_message (''PRIVMSG '' @ r @ '' :'') part) s)"

definition privmsg :: "(core_action \<Rightarrow> core \<Rightarrow> core) \<Rightarrow> string \<Rightarrow> string \<Rightarrow> core \<Rightarrow> core" where
  \<comment> \<open>\<open>sub\<close> is what submitting to the bus does\<close>
  "privmsg sub receiver m s =
     (let r = receiver_of receiver in if may_say r s then fold (say_part sub r) (split_lines m) s else s)"

definition send_raw :: "string \<Rightarrow> core \<Rightarrow> core" where
  "send_raw l s = (if cr_link s = None then s else logged (Wrote_high l) s)"

definition do_call :: "(core_action \<Rightarrow> core \<Rightarrow> core) \<Rightarrow> call \<Rightarrow> core \<Rightarrow> core" where
  "do_call sub c s = (case c of Say r m \<Rightarrow> privmsg sub r m s | Raw l \<Rightarrow> send_raw l s)"

primrec notify :: "nat \<Rightarrow> core_env \<Rightarrow> core_action \<Rightarrow> core \<Rightarrow> core" where
  \<comment> \<open>an entry of the trace and what the modules call in answer, so many levels deep\<close>
  "notify 0 E a s = logged a s"
| "notify (Suc n) E a s =
     (let s' = logged a s in fold (do_call (\<lambda>b. notify n E b)) (ce_react E (trace s')) s')"

definition in_channel_now :: "string \<Rightarrow> core \<Rightarrow> bool" where
  "in_channel_now ch s = (case cr_link s of None \<Rightarrow> False | Some l \<Rightarrow> in_channel ch (lk_session l))"

definition members_now :: "string \<Rightarrow> core \<Rightarrow> string list" where
  "members_now ch s = (case cr_link s of None \<Rightarrow> [] | Some l \<Rightarrow> members_of ch (lk_session l))"

section \<open>Events\<close>

definition user_msg :: "event \<Rightarrow> bool" where
  "user_msg ev = (ev_name ev = ''IRC_PRIVMSG'' \<and> \<not> sender_me ev)"

definition submit_event :: "core_env \<Rightarrow> int \<Rightarrow> event \<Rightarrow> core \<Rightarrow> core" where
  \<comment> \<open>the hook of the core itself is the first of \<open>IRC_INVITE\<close>\<close>
  "submit_event E now ev s =
     (let s1 = logged (Submitted ev) s; s2 = (if ev_name ev = ''IRC_INVITE'' then on_invited E now ev s1 else s1)
      in fold (do_call (\<lambda>b. notify (ce_depth E) E b)) (ce_react E (trace s1)) s2)"

definition dispatch_event :: "core_env \<Rightarrow> int \<Rightarrow> event \<Rightarrow> core \<Rightarrow> core" where
  "dispatch_event E now ev s =
     (let s1 = submit_event E now ev s
      in if user_msg ev then notify (Suc (ce_depth E)) E (Handled ev) s1 else s1)"

definition hold_cap :: nat where
  "hold_cap = 64"

definition emit_event :: "core_env \<Rightarrow> int \<Rightarrow> event \<Rightarrow> core \<Rightarrow> core" where
  "emit_event E now ev s =
     (case cr_link s of
        None \<Rightarrow> s
      | Some l \<Rightarrow>
          if user_msg ev \<and> \<not> welcomed (lk_session l)
          then (if length (lk_held l) < hold_cap then s\<lparr>cr_link := Some (l\<lparr>lk_held := lk_held l @ [ev]\<rparr>)\<rparr> else s)
          else dispatch_event E now ev s)"

definition welcome_now :: "core_env \<Rightarrow> int \<Rightarrow> core \<Rightarrow> core" where
  "welcome_now E now s =
     (case cr_link s of
        None \<Rightarrow> s
      | Some l \<Rightarrow>
          (let s1 = join_now now (cr_channels s) (logged Welcomed s); s2 = fold (dispatch_event E now) (lk_held l) s1
           in s2\<lparr>cr_link := map_option (\<lambda>l. l\<lparr>lk_held := []\<rparr>) (cr_link s2)\<rparr>))"

fun session_action :: "core_env \<Rightarrow> int \<Rightarrow> action \<Rightarrow> core \<Rightarrow> core" where
  "session_action E now (Send l) s = logged (Wrote l) s"
| "session_action E now (Send_high l) s = logged (Wrote_high l) s"
| "session_action E now (Emit ev) s = emit_event E now ev s"
| "session_action E now Welcome s = welcome_now E now s"

section \<open>The connection\<close>

definition schedule_reconnect :: "int \<Rightarrow> core \<Rightarrow> core" where
  "schedule_reconnect now s =
     (let (d, b) = backoff_next now (cr_backoff s)
      in logged (Retry_in d) (s\<lparr>cr_backoff := b, cr_retries := cr_retries s + 1\<rparr>))"

definition connect :: "bool \<Rightarrow> int \<Rightarrow> core \<Rightarrow> core" where
  \<comment> \<open>whether the dial succeeds is decided outside\<close>
  "connect up now s =
     (if \<not> up then schedule_reconnect now s
      else
        (let x = new_session (cr_network s) (cr_nick s)
         in write_sends (register_lines x) (logged Dialed (s\<lparr>cr_link := Some \<lparr>lk_session = x, lk_held = []\<rparr>\<rparr>))))"

definition disconnected :: "int \<Rightarrow> core \<Rightarrow> core" where
  "disconnected now s =
     schedule_reconnect now ((if cr_link s = None then s else logged Closed s)\<lparr>cr_link := None\<rparr>)"

definition line_in :: "core_env \<Rightarrow> int \<Rightarrow> string \<Rightarrow> core \<Rightarrow> core" where
  "line_in E now l s =
     (case cr_link s of
        None \<Rightarrow> s
      | Some k \<Rightarrow>
          (let (as, x) = handle_line now l (lk_session k) in fold (session_action E now) as (set_session x s)))"

definition shutdown :: "core_env \<Rightarrow> int \<Rightarrow> bool \<Rightarrow> string \<Rightarrow> core \<Rightarrow> core" where
  \<comment> \<open>with the goodbye drawn\<close>
  "shutdown E now skip bye s =
     (if cr_link s = None then s
      else (let s1 = submit_event E now (no_event\<lparr>ev_name := ''QUIT''\<rparr>) s
            in logged Closed (if skip then s1 else logged (Wrote (''QUIT :'' @ bye)) s1)))"

definition boot :: "core_env \<Rightarrow> (json \<Rightarrow> (string \<times> string) list option) \<Rightarrow> string \<Rightarrow> string \<Rightarrow> string list \<Rightarrow> bool \<Rightarrow> int \<Rightarrow> memory \<Rightarrow> core" where
  \<comment> \<open>\<open>Run\<close> up to its loop, without the modules\<close>
  "boot E dec net nk flags up now st =
     (let c0 = (case mem_get ''core'' ''conf'' st of
            None \<Rightarrow> conf_new
          | Some j \<Rightarrow> (case dec j of None \<Rightarrow> conf_new | Some vs \<Rightarrow> load_stored vs conf_new));
          s = \<lparr>cr_network = net, cr_nick = nk, cr_link = None, cr_backoff = backoff_new, cr_retries = 0, cr_channels = [],
               cr_conf = create_int (ce_float_ok E) ''anti_flood_max_lines'' 4 c0, cr_store = st, trace = []\<rparr>
      in connect up now (load_channels E flags s))"

section \<open>Console commands\<close>

definition conf_re :: "string \<Rightarrow> (string \<times> string) option" where
  \<comment> \<open>the groups of \<open>^(?i)conf(?:\s+([^=\s]+)\s*(?:=\s*(.+))?)?$\<close>\<close>
  "conf_re line =
     (if to_lower (take 4 line) \<noteq> ''conf'' then None
      else if drop 4 line = [] then Some ([], [])
      else
        (let r = drop 4 line; r1 = dropWhile is_ws r;
             name = takeWhile (\<lambda>c. \<not> is_ws c \<and> c \<noteq> CHR ''='') r1; r2 = dropWhile is_ws (drop (length name) r1)
         in if r = r1 \<or> name = [] then None
            else (case r2 of
                [] \<Rightarrow> Some (name, [])
              | c # t \<Rightarrow>
                  if c \<noteq> CHR ''='' then None
                  else (let v = dropWhile is_ws t; g = (if v = [] \<and> t \<noteq> [] then [last t] else v)
                        in if g = [] \<or> CHR 0x0A \<in> set g then None else Some (name, g)))))"

definition one_word_re :: "string \<Rightarrow> string \<Rightarrow> string option" where
  \<comment> \<open>the group of \<open>^(?i)w\s+(\S+)$\<close>\<close>
  "one_word_re w line =
     (let r = drop (length w) line; g = dropWhile is_ws r
      in if to_lower (take (length w) line) = w \<and> r \<noteq> g \<and> g \<noteq> [] \<and> list_all (\<lambda>c. \<not> is_ws c) g then Some g else None)"

definition save_conf :: "core_env \<Rightarrow> core \<Rightarrow> core" where
  "save_conf E s =
     (case mem_put ''core'' ''conf'' (ce_enc_map E (stored (cr_conf s))) (cr_store s) of
        None \<Rightarrow> s | Some st \<Rightarrow> s\<lparr>cr_store := st\<rparr>)"

definition set_conf :: "core_env \<Rightarrow> int \<Rightarrow> string \<Rightarrow> string \<Rightarrow> core \<Rightarrow> conf_error option \<times> core" where
  \<comment> \<open>\<open>conf.Set\<close> with the \<open>OnChange\<close> of the core\<close>
  "set_conf E now name v s =
     (case conf_set (ce_float_ok E) name v (cr_conf s) of
        Inl e \<Rightarrow> (Some e, s)
      | Inr (n, c) \<Rightarrow>
          (None, submit_event E now (no_event\<lparr>ev_name := ''config_changed'', msg := n\<rparr>) (save_conf E (s\<lparr>cr_conf := c\<rparr>))))"

definition run_conf :: "core_env \<Rightarrow> int \<Rightarrow> string \<Rightarrow> core \<Rightarrow> string \<times> core" where
  "run_conf E now line s =
     (case conf_re line of
        None \<Rightarrow> ([], s)
      | Some (name, v) \<Rightarrow>
          (let dump = conf_dump (cr_conf s); val = (\<lambda>n. case map_of dump n of Some x \<Rightarrow> x | None \<Rightarrow> [])
           in if name = []
              then (concat (map (\<lambda>n. ''{y}'' @ n @ ''{/} = '' @ val n @ [CHR 0x0A]) (conf_list (cr_conf s))), s)
              else if v = [] then
                (case map_of dump name of
                   Some x \<Rightarrow> (''{y}'' @ name @ ''{/} = '' @ x, s)
                 | None \<Rightarrow> (''{r}Error:{/} no such setting '' @ ce_quote E name, s))
              else
                (case set_conf E now name v s of
                   (Some e, s1) \<Rightarrow> (''{r}Error:{/} '' @ ce_error E e, s1)
                 | (None, s1) \<Rightarrow> (''{g}'' @ name @ '' = '' @ v @ ''{/}'', s1))))"

definition run_join :: "core_env \<Rightarrow> int \<Rightarrow> string \<Rightarrow> core \<Rightarrow> string \<times> core" where
  "run_join E now line s =
     (case one_word_re ''join'' line of
        None \<Rightarrow> ([], s)
      | Some ch \<Rightarrow>
          (let (added, s1) = add_channel E ch s; s2 = join_now now [ch] s1
           in (if \<not> added then ''{y}'' @ ch @ ''{/} was already in the autojoin set, join sent anyway.''
               else ''{g}Joining '' @ ch @ ''{/} (persisted).'', s2)))"

definition run_part :: "core_env \<Rightarrow> string \<Rightarrow> core \<Rightarrow> string \<times> core" where
  "run_part E line s =
     (case one_word_re ''part'' line of
        None \<Rightarrow> ([], s)
      | Some ch \<Rightarrow>
          (case remove_channel E ch s of
             (False, s1) \<Rightarrow> (''{r}Error:{/} '' @ ch @ '' is not in the autojoin set.'', s1)
           | (True, s1) \<Rightarrow>
               (''{g}Left '' @ ch @ ''{/} (removed from autojoin).'',
                if cr_link s1 \<noteq> None then logged (Wrote (''PART '' @ ch)) s1 else s1)))"

definition core_specs :: "core_env \<Rightarrow> int \<Rightarrow> core spec list" where
  \<comment> \<open>the commands that change something\<close>
  "core_specs E now =
     [\<lparr>sp_name = ''conf'', sp_match = (\<lambda>l. whole (conf_re l \<noteq> None) l),
        sp_help = ''Change or display config setting. No args for conf dump.'', sp_args = [''<setting>'', ''<newvalue>''],
        sp_su = True, sp_run = Module_run (\<lambda>_ l s. (Ran (Output (fst (run_conf E now l s))), snd (run_conf E now l s)))\<rparr>,
      \<lparr>sp_name = ''join'', sp_match = (\<lambda>l. whole (one_word_re ''join'' l \<noteq> None) l),
        sp_help = ''Join a channel and add it to the autojoin set'', sp_args = [''<channel>''], sp_su = True,
        sp_run = Module_run (\<lambda>_ l s. (Ran (Output (fst (run_join E now l s))), snd (run_join E now l s)))\<rparr>,
      \<lparr>sp_name = ''part'', sp_match = (\<lambda>l. whole (one_word_re ''part'' l \<noteq> None) l),
        sp_help = ''Leave a channel and drop it from the autojoin set'', sp_args = [''<channel>''], sp_su = True,
        sp_run = Module_run (\<lambda>_ l s. (Ran (Output (fst (run_part E l s))), snd (run_part E l s)))\<rparr>]"

end
