(* ===== verification/Core_Run.thy ===== *)
theory Core_Run
  imports Core
begin

text \<open>
  Runs of the core: the connection comes and goes, lines arrive, timers and fetched results let modules say
  something, and the console changes settings and channels.
\<close>

section \<open>Operations\<close>

datatype core_op =
    Dial bool int  \<comment> \<open>the reconnect timer fires; the outcome of the dial\<close>
  | Lost int  \<comment> \<open>the connection breaks\<close>
  | Line_in int string
  | Invoke "call list"  \<comment> \<open>what modules call from timers and fetched results\<close>
  | Console_conf int string
  | Console_join int string
  | Console_part string

fun core_step :: "core_env \<Rightarrow> core_op \<Rightarrow> core \<Rightarrow> core" where
  "core_step E (Dial up now) s = (if cr_retries s = 0 then s else connect up now (s\<lparr>cr_retries := cr_retries s - 1\<rparr>))"
| "core_step E (Lost now) s = (if cr_link s = None then s else disconnected now s)"
| "core_step E (Line_in now l) s = line_in E now l s"
| "core_step E (Invoke cs) s = fold (do_call (\<lambda>b. notify (ce_depth E) E b)) cs s"
| "core_step E (Console_conf now l) s = snd (run_conf E now l s)"
| "core_step E (Console_join now l) s = snd (run_join E now l s)"
| "core_step E (Console_part l) s = snd (run_part E l s)"

definition core_run :: "core_env \<Rightarrow> core_op list \<Rightarrow> core \<Rightarrow> core" where
  "core_run E ops s = fold (core_step E) ops s"

section \<open>What a step leaves alone\<close>

definition up :: "core \<Rightarrow> bool option" where
  \<comment> \<open>whether there is a connection, and whether it is welcomed\<close>
  "up s = map_option (\<lambda>l. welcomed (lk_session l)) (cr_link s)"

definition held :: "core \<Rightarrow> event list" where
  "held s = (case cr_link s of None \<Rightarrow> [] | Some l \<Rightarrow> lk_held l)"

definition ordinary :: "bool option \<Rightarrow> core_action \<Rightarrow> bool" where
  "ordinary u a =
     (case a of
        Wrote l \<Rightarrow> has_prefix ''PRIVMSG '' l \<longrightarrow> u = Some True
      | Wrote_high l \<Rightarrow> True | Submitted ev \<Rightarrow> True | Handled ev \<Rightarrow> True
      | _ \<Rightarrow> False)"

definition handled_in :: "core_action list \<Rightarrow> event list" where
  "handled_in t = concat (map (\<lambda>a. case a of Handled ev \<Rightarrow> [ev] | _ \<Rightarrow> []) t)"

lemma handled_simps [simp]:
  "handled_in [] = []" "handled_in (Handled ev # t) = ev # handled_in t" "handled_in (a @ b) = handled_in a @ handled_in b"
  "handled_in (Wrote l # t) = handled_in t" "handled_in (Wrote_high l # t) = handled_in t" "handled_in (Submitted ev # t) = handled_in t"
  "handled_in (Dialed # t) = handled_in t" "handled_in (Welcomed # t) = handled_in t" "handled_in (Retry_in d # t) = handled_in t"
  "handled_in (Closed # t) = handled_in t"
  by (simp_all add: handled_in_def)

definition goes :: "core \<Rightarrow> event list \<Rightarrow> core \<Rightarrow> bool" where
  \<comment> \<open>from \<open>s\<close> to \<open>s'\<close> with these commands handled, on the same connection\<close>
  "goes s evs s' \<longleftrightarrow> up s' = up s \<and> held s' = held s \<and> cr_retries s' = cr_retries s \<and>
     (\<exists>t. trace s' = trace s @ t \<and> handled_in t = evs \<and> list_all (ordinary (up s)) t)"

lemma goes_refl [simp, intro]: "goes s [] s"
  by (simp add: goes_def)

lemma goes_trans: "goes s a s' \<Longrightarrow> goes s' b s'' \<Longrightarrow> goes s (a @ b) s''"
  by (fastforce simp: goes_def intro: exI [of _ "_ @ _"])

lemma goes_up: "goes s a s' \<Longrightarrow> up s' = up s"
  by (simp add: goes_def)

lemma goes_fold:
  "(\<And>x s'. x \<in> set xs \<Longrightarrow> up s' = up s \<Longrightarrow> goes s' (g x) (f x s')) \<Longrightarrow> goes s (concat (map g xs)) (fold f xs s)"
proof (induction xs arbitrary: s)
  case (Cons x xs)
  have x: "goes s (g x) (f x s)" using Cons.prems by simp
  have "goes (f x s) (concat (map g xs)) (fold f xs (f x s))"
    using goes_up [OF x] Cons.prems by (intro Cons.IH) simp
  from goes_trans [OF x this] show ?case by simp
qed simp

lemma goes_quiet: "(\<And>x s'. x \<in> set xs \<Longrightarrow> up s' = up s \<Longrightarrow> goes s' [] (f x s')) \<Longrightarrow> goes s [] (fold f xs s)"
  using goes_fold [of xs s "\<lambda>x. []" f] by (simp add: concat_eq_Nil_conv [THEN iffD2])

lemma goes_logged: "ordinary (up s) a \<Longrightarrow> goes s (handled_in [a]) (logged a s)"
  by (auto simp: goes_def logged_def up_def held_def)

lemma goes_logged_simps [simp]:
  "goes s [] (logged (Wrote_high l) s)" "goes s [] (logged (Submitted ev) s)" "goes s [ev] (logged (Handled ev) s)"
  "has_prefix ''PRIVMSG '' l \<longrightarrow> up s = Some True \<Longrightarrow> goes s [] (logged (Wrote l) s)"
  using goes_logged [of s "Wrote_high l"] goes_logged [of s "Submitted ev"] goes_logged [of s "Handled ev"]
    goes_logged [of s "Wrote l"] by (simp_all add: ordinary_def)

lemma goes_same:
  "up s' = up s \<Longrightarrow> held s' = held s \<Longrightarrow> cr_retries s' = cr_retries s \<Longrightarrow> trace s' = trace s \<Longrightarrow> goes s [] s'"
  by (simp add: goes_def)

section \<open>Modules and the core's own doings\<close>

lemma split_message_prefix: "l \<in> set (split_message p m) \<Longrightarrow> has_prefix p l"
  by (auto simp: split_message_def split: if_splits)

lemma do_call_goes:
  assumes sub: "\<And>ev s. goes s [] (sub (Submitted ev) s)"
  shows "goes s [] (do_call sub c s)"
proof (cases c)
  case (Say receiver m)
  let ?r = "receiver_of receiver"
  have part: "goes s' [] (say_part sub ?r p s')" if "up s' = Some True" for p s'
  proof -
    let ?s1 = "fold (\<lambda>l. logged (Wrote l)) (split_message (''PRIVMSG '' @ ?r @ '' :'') p) s'"
    have "goes s' [] ?s1" using that by (intro goes_quiet) simp
    from goes_trans [OF this sub] show ?thesis by (simp add: say_part_def)
  qed
  show ?thesis
  proof (cases "may_say ?r s")
    case True
    then have "up s = Some True" by (auto simp: may_say_def up_def split: option.splits)
    then have "goes s [] (fold (say_part sub ?r) (split_lines m) s)" by (intro goes_quiet part) simp
    with True Say show ?thesis by (simp add: do_call_def privmsg_def)
  qed (simp add: Say do_call_def privmsg_def)
qed (simp add: do_call_def send_raw_def)

lemma notify_goes: "ordinary (up s) a \<Longrightarrow> goes s (handled_in [a]) (notify n E a s)"
proof (induction n arbitrary: a s)
  case (Suc n)
  let ?s = "logged a s"
  have "goes ?s [] (fold (do_call (\<lambda>b. notify n E b)) (ce_react E (trace ?s)) ?s)"
  proof (intro goes_quiet do_call_goes)
    fix ev s show "goes s [] (notify n E (Submitted ev) s)" using Suc.IH [of s "Submitted ev"] by (simp add: ordinary_def)
  qed
  from goes_trans [OF goes_logged [OF Suc.prems] this] show ?case by simp
qed (simp add: goes_logged)

lemma calls_goes: "goes s [] (fold (do_call (\<lambda>b. notify n E b)) cs s)"
proof (intro goes_quiet do_call_goes)
  fix ev s show "goes s [] (notify n E (Submitted ev) s)" using notify_goes [of s "Submitted ev"] by (simp add: ordinary_def)
qed

lemma write_sends_goes:
  "\<forall>l. Send l \<in> set as \<longrightarrow> \<not> has_prefix ''PRIVMSG '' l \<Longrightarrow> goes s [] (write_sends as s)"
proof (induction as s rule: write_sends.induct)
  case (2 l acts s)
  then have "goes s [] (logged (Wrote l) s)" "goes (logged (Wrote l) s) [] (write_sends acts (logged (Wrote l) s))" by auto
  from goes_trans [OF this] show ?case by simp
next
  case (3 l acts s)
  then have "goes (logged (Wrote_high l) s) [] (write_sends acts (logged (Wrote_high l) s))" by auto
  from goes_trans [OF goes_logged_simps(1) this] show ?case by simp
qed auto

lemma join_sends: "Send l \<in> set (fst (join_channels now chs x)) \<Longrightarrow> \<not> has_prefix ''PRIVMSG '' l"
  by (induction now chs x rule: join_channels.induct) (auto simp: has_prefix_def case_prod_beta')

lemma join_now_goes: "goes s [] (join_now now chs s)"
proof (cases "cr_link s")
  case (Some l)
  let ?j = "join_channels now chs (lk_session l)"
  have "goes s [] (set_session (snd ?j) s)"
    using Some join_channels_welcome [of now chs "lk_session l"]
    by (intro goes_same) (simp_all add: set_session_def up_def held_def)
  moreover have "goes (set_session (snd ?j) s) [] (write_sends (fst ?j) (set_session (snd ?j) s))"
    using join_sends by (intro write_sends_goes) blast
  ultimately have "goes s [] (write_sends (fst ?j) (set_session (snd ?j) s))" using goes_trans by fastforce
  with Some show ?thesis by (simp add: join_now_def case_prod_beta')
qed (simp add: join_now_def)

lemma save_channels_goes: "goes s [] (save_channels E s)"
  by (auto simp: save_channels_def up_def held_def intro: goes_same split: option.split)

lemma add_channel_goes: "goes s [] (snd (add_channel E ch s))"
proof -
  let ?s = "s\<lparr>cr_channels := cr_channels s @ [ch]\<rparr>"
  have "goes s [] ?s" by (intro goes_same) (simp_all add: up_def held_def)
  from goes_trans [OF this save_channels_goes] show ?thesis by (simp add: add_channel_def)
qed

lemma remove_channel_goes: "goes s [] (snd (remove_channel E ch s))"
proof -
  let ?s = "s\<lparr>cr_channels := filter (\<lambda>have. \<not> equal_fold have ch) (cr_channels s)\<rparr>"
  have "goes s [] ?s" by (intro goes_same) (simp_all add: up_def held_def)
  from goes_trans [OF this save_channels_goes] this show ?thesis by (simp add: remove_channel_def)
qed

lemma submit_event_goes: "goes s [] (submit_event E now ev s)"
proof -
  let ?s1 = "logged (Submitted ev) s"
  let ?s2 = "if ev_name ev = ''IRC_INVITE'' then on_invited E now ev ?s1 else ?s1"
  have "goes ?s1 [] (on_invited E now ev ?s1)"
    using goes_trans [OF add_channel_goes [of ?s1 E "channel ev"] join_now_goes] by (simp add: on_invited_def)
  then have "goes ?s1 [] ?s2" by simp
  from goes_trans [OF goes_trans [OF goes_logged_simps(2) this] calls_goes] show ?thesis
    by (simp add: submit_event_def)
qed

lemma dispatch_event_goes: "goes s (if user_msg ev then [ev] else []) (dispatch_event E now ev s)"
proof -
  let ?s1 = "submit_event E now ev s"
  have "goes ?s1 [ev] (notify (Suc (ce_depth E)) E (Handled ev) ?s1)"
    using notify_goes [of ?s1 "Handled ev" "Suc (ce_depth E)" E] by (simp add: ordinary_def)
  from goes_trans [OF submit_event_goes this] submit_event_goes show ?thesis
    by (simp add: dispatch_event_def)
qed

section \<open>A line\<close>

definition user_msgs :: "action list \<Rightarrow> event list" where
  "user_msgs acts = concat (map (\<lambda>a. case a of Emit ev \<Rightarrow> if user_msg ev then [ev] else [] | _ \<Rightarrow> []) acts)"

lemma user_msgs_simps [simp]:
  "user_msgs [] = []" "user_msgs (Emit ev # acts) = (if user_msg ev then [ev] else []) @ user_msgs acts"
  "user_msgs (Send l # acts) = user_msgs acts" "user_msgs (Send_high l # acts) = user_msgs acts" "user_msgs (Welcome # acts) = user_msgs acts"
  by (simp_all add: user_msgs_def)

definition plain_sends :: "action list \<Rightarrow> bool" where
  "plain_sends acts \<longleftrightarrow> Welcome \<notin> set acts \<and> (\<forall>l. Send l \<in> set acts \<longrightarrow> \<not> has_prefix ''PRIVMSG '' l)"

lemma dispatch_line_shape:
  "fst (dispatch_line now ev line s) = [Welcome] \<or> plain_sends (fst (dispatch_line now ev line s))"
  unfolding dispatch_line_def session_handlers plain_sends_def
  by (auto simp: has_prefix_def split: list.split prod.split)

lemma handle_line_shape: "fst (handle_line now l s) = [Welcome] \<or> plain_sends (fst (handle_line now l s))"
proof (cases "parse_line l")
  case (Some line)
  then show ?thesis
    using dispatch_line_shape [of now "line_event line (fst (sender_of line s)) s" line "snd (sender_of line s)"]
    by (simp add: handle_line_def case_prod_beta')
qed (simp add: handle_line_def plain_sends_def)

lemma handle_line_cases:
  obtains (first) x where "handle_line now l s = ([Welcome], x)" "\<not> welcomed s" "welcomed x"
  | (later) acts x where "handle_line now l s = (acts, x)" "plain_sends acts" "welcomed x = welcomed s"
proof (cases "fst (handle_line now l s) = [Welcome]")
  case True
  with handle_line_welcome [of now l s] show ?thesis
    by (intro first [of "snd (handle_line now l s)"]) (auto simp: prod_eq_iff split: if_splits)
next
  case False
  with handle_line_shape have p: "plain_sends (fst (handle_line now l s))" by blast
  then have "welcomes (fst (handle_line now l s)) = 0" by (auto simp: plain_sends_def welcomes_def filter_empty_conv)
  with handle_line_welcome [of now l s] p show ?thesis
    by (intro later [of "fst (handle_line now l s)" "snd (handle_line now l s)"]) (auto split: if_splits)
qed

lemma actions_open:
  "plain_sends acts \<Longrightarrow> up s = Some True \<Longrightarrow> goes s (user_msgs acts) (fold (session_action E now) acts s)"
proof (induction acts arbitrary: s)
  case (Cons a acts)
  have p: "plain_sends acts" using Cons.prems(1) by (simp add: plain_sends_def)
  have one: "goes s (user_msgs [a]) (session_action E now a s)"
  proof (cases a)
    case (Emit ev)
    have "emit_event E now ev s = dispatch_event E now ev s"
      using Cons.prems(2) by (auto simp: emit_event_def up_def split: option.splits)
    with dispatch_event_goes [of s ev E now] show ?thesis by (simp add: Emit)
  qed (use Cons.prems in \<open>auto simp: plain_sends_def\<close>)
  from goes_up [OF one] Cons.prems(2) have "up (session_action E now a s) = Some True" by simp
  from goes_trans [OF one Cons.IH [OF p this]] show ?case by (cases a) simp_all
qed simp

definition kept :: "event list \<Rightarrow> event list \<Rightarrow> event list" where
  "kept h evs = take hold_cap (h @ evs)"

lemma kept_simps [simp]: "length (kept h evs) \<le> hold_cap" "kept (kept h a) b = kept h (a @ b)"
  "length h \<le> hold_cap \<Longrightarrow> kept h [] = h"
proof -
  show "kept (kept h a) b = kept h (a @ b)" by (cases "length (h @ a) \<le> hold_cap") (auto simp: kept_def min_def)
qed (simp_all add: kept_def)

definition holds :: "core \<Rightarrow> event list \<Rightarrow> core \<Rightarrow> bool" where
  \<comment> \<open>from \<open>s\<close> to \<open>s'\<close>, not welcomed yet, with these messages set aside\<close>
  "holds s evs s' \<longleftrightarrow> up s' = Some False \<and> held s' = kept (held s) evs \<and> cr_retries s' = cr_retries s \<and>
     (\<exists>t. trace s' = trace s @ t \<and> handled_in t = [] \<and> list_all (ordinary (Some False)) t)"

lemma holds_trans: "holds s a s' \<Longrightarrow> holds s' b s'' \<Longrightarrow> holds s (a @ b) s''"
  by (fastforce simp: holds_def intro: exI [of _ "_ @ _"])

lemma goes_holds: "goes s [] s' \<Longrightarrow> up s = Some False \<Longrightarrow> length (held s) \<le> hold_cap \<Longrightarrow> holds s [] s'"
  by (simp add: goes_def holds_def)

lemma actions_shut:
  "plain_sends acts \<Longrightarrow> up s = Some False \<Longrightarrow> length (held s) \<le> hold_cap \<Longrightarrow>
   holds s (user_msgs acts) (fold (session_action E now) acts s)"
proof (induction acts arbitrary: s)
  case Nil
  then show ?case by (simp add: goes_holds)
next
  case (Cons a acts)
  have p: "plain_sends acts" using Cons.prems(1) by (simp add: plain_sends_def)
  let ?s1 = "session_action E now a s"
  obtain l where l: "cr_link s = Some l" "\<not> welcomed (lk_session l)" using Cons.prems(2) by (auto simp: up_def)
  have one: "holds s (user_msgs [a]) ?s1"
  proof (cases "\<exists>ev. a = Emit ev \<and> user_msg ev")
    case True
    then show ?thesis using l Cons.prems(3) by (auto simp: emit_event_def up_def held_def kept_def holds_def)
  next
    case False
    then have u: "user_msgs [a] = []" by (cases a) auto
    have "goes s [] ?s1"
    proof (cases a)
      case (Emit ev)
      with False l dispatch_event_goes [of s ev E now] show ?thesis by (auto simp: emit_event_def)
    qed (use Cons.prems in \<open>auto simp: plain_sends_def\<close>)
    with u Cons.prems(2,3) show ?thesis by (simp add: goes_holds)
  qed
  then have "up ?s1 = Some False" "length (held ?s1) \<le> hold_cap" by (simp_all add: holds_def)
  from holds_trans [OF one Cons.IH [OF p this]] show ?case by (cases a) simp_all
qed

lemma welcome_goes:
  assumes "up s = Some True"
  shows "\<exists>t. trace (welcome_now E now s) = trace s @ Welcomed # t \<and> list_all (ordinary (Some True)) t \<and>
    handled_in t = filter user_msg (held s) \<and> up (welcome_now E now s) = Some True \<and> held (welcome_now E now s) = [] \<and>
    cr_retries (welcome_now E now s) = cr_retries s"
proof -
  obtain l where l: "cr_link s = Some l" "welcomed (lk_session l)" using assms by (auto simp: up_def)
  let ?s0 = "logged Welcomed s" and ?f = "\<lambda>ev. if user_msg ev then [ev] else []"
  let ?s1 = "join_now now (cr_channels s) ?s0" let ?s2 = "fold (dispatch_event E now) (lk_held l) ?s1"
  have "goes ?s0 [] ?s1" by (rule join_now_goes)
  moreover have "goes ?s1 (concat (map ?f (lk_held l))) ?s2" by (intro goes_fold dispatch_event_goes)
  ultimately have g: "goes ?s0 ([] @ concat (map ?f (lk_held l))) ?s2" by (rule goes_trans)
  have c: "concat (map ?f h) = filter user_msg h" for h by (induction h) simp_all
  have e: "welcome_now E now s = ?s2\<lparr>cr_link := map_option (\<lambda>l. l\<lparr>lk_held := []\<rparr>) (cr_link ?s2)\<rparr>"
    using l by (simp add: welcome_now_def)
  have u: "up ?s0 = Some True" using assms by (simp add: logged_def up_def)
  from g obtain t where "trace ?s2 = trace ?s0 @ t" "handled_in t = filter user_msg (lk_held l)" "list_all (ordinary (Some True)) t"
    and r: "up ?s2 = Some True" "cr_retries ?s2 = cr_retries ?s0" unfolding goes_def u c by auto
  then show ?thesis using l unfolding e
    by (intro exI [of _ t]) (auto simp: logged_def held_def up_def split: option.split)
qed

section \<open>Steps\<close>

text \<open>What a line does, in the three states it may find.\<close>

lemma up_set_session: "up (set_session x s) = map_option (\<lambda>_. welcomed x) (cr_link s)"
  by (simp add: up_def set_session_def option.map_comp comp_def)

lemma set_session_simps [simp]:
  "held (set_session x s) = held s" "cr_retries (set_session x s) = cr_retries s" "trace (set_session x s) = trace s"
  by (simp_all add: set_session_def held_def split: option.split)

definition line_msgs :: "int \<Rightarrow> string \<Rightarrow> core \<Rightarrow> event list" where
  \<comment> \<open>the messages of users in a line\<close>
  "line_msgs now l s = (case cr_link s of None \<Rightarrow> [] | Some k \<Rightarrow> user_msgs (fst (handle_line now l (lk_session k))))"

lemma line_open:
  assumes "up s = Some True"
  shows "goes s (line_msgs now l s) (line_in E now l s)"
proof -
  obtain k where k: "cr_link s = Some k" "welcomed (lk_session k)" using assms by (auto simp: up_def)
  obtain acts x where h: "handle_line now l (lk_session k) = (acts, x)" "plain_sends acts" "welcomed x"
    using k(2) by (cases rule: handle_line_cases [of now l "lk_session k"]) auto
  have "goes s [] (set_session x s)" using assms k h(3) by (intro goes_same) (simp_all add: up_set_session)
  moreover have "goes (set_session x s) (user_msgs acts) (fold (session_action E now) acts (set_session x s))"
    using k h by (intro actions_open) (simp_all add: up_set_session)
  ultimately show ?thesis using k h goes_trans by (fastforce simp: line_in_def line_msgs_def)
qed

definition greeted :: "core \<Rightarrow> core \<Rightarrow> bool" where
  \<comment> \<open>the welcome: what was set aside is handled, in order\<close>
  "greeted s s' \<longleftrightarrow> up s' = Some True \<and> held s' = [] \<and> cr_retries s' = cr_retries s \<and>
     (\<exists>t. trace s' = trace s @ Welcomed # t \<and> handled_in t = filter user_msg (held s) \<and> list_all (ordinary (Some True)) t)"

lemma line_shut:
  assumes "up s = Some False" and "length (held s) \<le> hold_cap"
  shows "holds s (line_msgs now l s) (line_in E now l s) \<or> line_msgs now l s = [] \<and> greeted s (line_in E now l s)"
proof -
  obtain k where k: "cr_link s = Some k" "\<not> welcomed (lk_session k)" using assms(1) by (auto simp: up_def)
  show ?thesis
  proof (cases rule: handle_line_cases [of now l "lk_session k"])
    case (first x)
    then have "up (set_session x s) = Some True" using k by (simp add: up_set_session)
    from welcome_goes [OF this, of E now] first k show ?thesis by (auto simp: line_in_def line_msgs_def greeted_def)
  next
    case (later acts x)
    have "goes s [] (set_session x s)" using assms k later(3) by (intro goes_same) (simp_all add: up_set_session)
    then have "holds s [] (set_session x s)" by (rule goes_holds [OF _ assms])
    moreover have "holds (set_session x s) (user_msgs acts) (fold (session_action E now) acts (set_session x s))"
      using k later assms by (intro actions_shut) (simp_all add: up_set_session)
    ultimately have "holds s ([] @ user_msgs acts) (fold (session_action E now) acts (set_session x s))" by (rule holds_trans)
    with k later show ?thesis by (simp add: line_in_def line_msgs_def)
  qed
qed

lemma set_conf_goes: "goes s [] (snd (set_conf E now name v s))"
proof (cases "conf_set (ce_float_ok E) name v (cr_conf s)")
  case (Inr r)
  let ?s = "save_conf E (s\<lparr>cr_conf := snd r\<rparr>)"
  have "goes s [] ?s" by (intro goes_same) (auto simp: save_conf_def up_def held_def split: option.split)
  from goes_trans [OF this submit_event_goes] Inr show ?thesis by (cases r) (simp add: set_conf_def)
qed (simp add: set_conf_def)

lemma run_conf_goes: "goes s [] (snd (run_conf E now l s))"
  using set_conf_goes [of s E now] by (auto simp: run_conf_def split: option.split prod.split) (metis snd_conv)+

lemma run_join_goes: "goes s [] (snd (run_join E now l s))"
  using goes_trans [OF add_channel_goes join_now_goes]
  by (auto simp: run_join_def case_prod_beta' split: option.split)

lemma run_part_goes: "goes s [] (snd (run_part E l s))"
proof (cases "one_word_re ''part'' l")
  case (Some ch)
  have r: "goes s [] (snd (remove_channel E ch s))" by (rule remove_channel_goes)
  moreover have "goes s' [] (logged (Wrote (''PART '' @ ch)) s')" for s' by (rule goes_logged_simps) (simp add: has_prefix_def)
  ultimately show ?thesis using Some goes_trans [OF r]
    by (auto simp: run_part_def split: prod.split bool.split)
qed (simp add: run_part_def)

fun inner :: "core_op \<Rightarrow> bool" where
  \<comment> \<open>neither a connection nor a line of it\<close>
  "inner (Dial b now) = False"
| "inner (Lost now) = False"
| "inner (Line_in now l) = False"
| "inner _ = True"

lemma inner_goes: "inner op \<Longrightarrow> goes s [] (core_step E op s)"
  by (cases op) (simp_all add: calls_goes run_conf_goes run_join_goes run_part_goes)

section \<open>Messages of users\<close>

fun steady :: "core_op \<Rightarrow> bool" where
  \<comment> \<open>the connection stays\<close>
  "steady (Dial b now) = False"
| "steady (Lost now) = False"
| "steady _ = True"

fun arrivals :: "core_env \<Rightarrow> core_op list \<Rightarrow> core \<Rightarrow> (bool \<times> event) list" where
  \<comment> \<open>the messages of users in the lines of a run, each with whether the session was welcomed\<close>
  "arrivals E [] s = []"
| "arrivals E (op # ops) s =
     (case op of Line_in now l \<Rightarrow> map (\<lambda>ev. (up s = Some True, ev)) (line_msgs now l s) | _ \<Rightarrow> []) @
     arrivals E ops (core_step E op s)"

lemma core_run_simps [simp]:
  "core_run E [] s = s" "core_run E (op # ops) s = core_run E ops (core_step E op s)"
  by (simp_all add: core_run_def)

lemma user_msgs_user: "ev \<in> set (line_msgs now l s) \<Longrightarrow> user_msg ev"
  by (auto simp: line_msgs_def user_msgs_def split: option.splits action.splits if_splits)

lemma steady_cases:
  assumes "steady op"
  obtains (inside) "inner op" "\<And>E s ops. arrivals E (op # ops) s = arrivals E ops (core_step E op s)"
  | (input) now l where "op = Line_in now l"
  using assms by (cases op) auto

lemma run_open:
  "\<forall>op \<in> set ops. steady op \<Longrightarrow> up s = Some True \<Longrightarrow>
   up (core_run E ops s) = Some True \<and> map fst (arrivals E ops s) = replicate (length (arrivals E ops s)) True \<and>
   handled_in (trace (core_run E ops s)) = handled_in (trace s) @ map snd (arrivals E ops s)"
proof (induction ops arbitrary: s)
  case (Cons op ops)
  then have "steady op" by simp
  then have "\<exists>evs. goes s evs (core_step E op s) \<and> arrivals E (op # ops) s = map (Pair True) evs @ arrivals E ops (core_step E op s)"
  proof (cases rule: steady_cases)
    case inside
    with inner_goes [of op s E] show ?thesis by auto
  next
    case (input now l)
    with line_open [OF Cons.prems(2), of now l E] Cons.prems(2) show ?thesis by auto
  qed
  then obtain evs where e: "goes s evs (core_step E op s)"
    "arrivals E (op # ops) s = map (Pair True) evs @ arrivals E ops (core_step E op s)" by blast
  from goes_up [OF e(1)] Cons.prems have "up (core_step E op s) = Some True" "\<forall>op \<in> set ops. steady op" by simp_all
  from Cons.IH [OF this(2,1)] e show ?case
    by (auto simp: goes_def comp_def map_replicate_const replicate_add)
qed simp

lemma run_shut:
  "\<forall>op \<in> set ops. steady op \<Longrightarrow> up s = Some False \<Longrightarrow> length (held s) \<le> hold_cap \<Longrightarrow> \<forall>ev \<in> set (held s). user_msg ev \<Longrightarrow>
   let early = map snd (filter (\<lambda>a. \<not> fst a) (arrivals E ops s)); late = map snd (filter fst (arrivals E ops s)) in
   up (core_run E ops s) = Some False \<and> late = [] \<and> held (core_run E ops s) = kept (held s) early \<and>
     handled_in (trace (core_run E ops s)) = handled_in (trace s) \<or>
   up (core_run E ops s) = Some True \<and>
     handled_in (trace (core_run E ops s)) = handled_in (trace s) @ kept (held s) early @ late"
proof (induction ops arbitrary: s)
  case (Cons op ops)
  let ?s1 = "core_step E op s"
  have ops: "\<forall>op \<in> set ops. steady op" using Cons.prems(1) by simp
  define evs where "evs = (case op of Line_in now l \<Rightarrow> line_msgs now l s | _ \<Rightarrow> [])"
  have arr: "arrivals E (op # ops) s = map (Pair False) evs @ arrivals E ops ?s1"
    using Cons.prems(2) by (cases op) (simp_all add: evs_def)
  have "steady op" using Cons.prems(1) by simp
  then have "holds s evs ?s1 \<or> evs = [] \<and> greeted s ?s1"
  proof (cases rule: steady_cases)
    case inside
    then have "evs = []" by (cases op) (simp_all add: evs_def)
    with goes_holds [OF inner_goes [OF inside(1)] Cons.prems(2,3)] show ?thesis by simp
  next
    case (input now l)
    with line_shut [OF Cons.prems(2,3), of now l E] show ?thesis by (simp add: evs_def)
  qed
  then show ?case
  proof
    assume h: "holds s evs ?s1"
    then have "up ?s1 = Some False" "length (held ?s1) \<le> hold_cap" by (simp_all add: holds_def)
    moreover have "\<forall>ev \<in> set (held ?s1). user_msg ev"
      using h Cons.prems(4) user_msgs_user
      by (cases op) (auto simp: holds_def kept_def evs_def dest!: in_set_takeD)
    ultimately show ?thesis
      using Cons.IH [OF ops, of ?s1] h by (auto simp: holds_def arr comp_def Let_def simp del: arrivals.simps)
  next
    assume g: "evs = [] \<and> greeted s ?s1"
    then have u: "up ?s1 = Some True" by (simp add: greeted_def)
    have "filter user_msg (held s) = held s" using Cons.prems(4) by (simp add: filter_id_conv)
    with run_open [OF ops u, of E] g Cons.prems(3) have "map fst (arrivals E ops ?s1) = replicate (length (arrivals E ops ?s1)) True"
      "up (core_run E ops ?s1) = Some True"
      "handled_in (trace (core_run E ops ?s1)) = handled_in (trace s) @ held s @ map snd (arrivals E ops ?s1)"
      by (auto simp: greeted_def)
    moreover from this(1) have "\<forall>a \<in> set (arrivals E ops ?s1). fst a"
      by (metis in_set_replicate list.set_map image_eqI)
    then have "filter fst (arrivals E ops ?s1) = arrivals E ops ?s1" "filter (\<lambda>a. \<not> fst a) (arrivals E ops ?s1) = []"
      by (simp_all add: filter_id_conv filter_empty_conv)
    ultimately show ?thesis using g Cons.prems(3) by (simp add: arr Let_def del: arrivals.simps)
  qed
qed (simp add: Let_def)

text \<open>
  C31. No message of a user is handled by a core that cannot answer yet, and none twice or out of order. On
  a fresh connection, whatever lines and console commands come, as long as the server has not confirmed the
  registration nothing is handled; from then on exactly the messages that have come, in the order they
  came, except that of those before the confirmation only the first 64 are kept.
\<close>

theorem core_holds:
  assumes "\<forall>op \<in> set ops. steady op"
  shows "let s = connect True now s0; s' = core_run E ops s; arr = arrivals E ops s in
    handled_in (trace s') = handled_in (trace s0) @
      (if up s' = Some True
       then take 64 (map snd (filter (\<lambda>a. \<not> fst a) arr)) @ map snd (filter fst arr) else [])"
proof -
  let ?s = "connect True now s0"
  have w: "handled_in (trace (write_sends acts s)) = handled_in (trace s)" for acts s
    by (induction acts s rule: write_sends.induct) (simp_all add: logged_def)
  have l: "cr_link (write_sends acts s) = cr_link s" for acts s
    by (induction acts s rule: write_sends.induct) (simp_all add: logged_def)
  have s: "up ?s = Some False" "held ?s = []" "handled_in (trace ?s) = handled_in (trace s0)"
    by (simp_all add: connect_def w up_def held_def l new_session_def logged_def)
  from run_shut [OF assms s(1), of E] s show ?thesis by (auto simp: Let_def kept_def hold_cap_def)
qed

section \<open>Phases\<close>

fun phase :: "bool option \<Rightarrow> core_action \<Rightarrow> bool option" where
  "phase u Dialed = Some False"
| "phase u Welcomed = Some True"
| "phase u Closed = None"
| "phase u _ = u"

definition phase_of :: "core_action list \<Rightarrow> bool option" where
  \<comment> \<open>what the trace says of the connection\<close>
  "phase_of t = foldl phase None t"

definition needs_welcome :: "core_action \<Rightarrow> bool" where
  "needs_welcome a = (case a of Wrote l \<Rightarrow> has_prefix ''PRIVMSG '' l | Handled ev \<Rightarrow> True | _ \<Rightarrow> False)"

fun orderly :: "bool option \<Rightarrow> core_action list \<Rightarrow> bool" where
  "orderly u [] = True"
| "orderly u (a # t) = ((needs_welcome a \<longrightarrow> u = Some True) \<and> orderly (phase u a) t)"

lemma orderly_append: "orderly u (a @ b) \<longleftrightarrow> orderly u a \<and> orderly (foldl phase u a) b"
  by (induction a arbitrary: u) auto

lemma orderly_ordinary:
  "list_all (ordinary u) t \<Longrightarrow> handled_in t = [] \<or> u = Some True \<Longrightarrow> orderly u t \<and> foldl phase u t = u"
proof (induction t)
  case (Cons a t)
  then show ?case by (cases a) (auto simp: ordinary_def needs_welcome_def)
qed simp

definition core_ok :: "core \<Rightarrow> bool" where
  \<comment> \<open>what holds between two pieces of work\<close>
  "core_ok s \<longleftrightarrow> orderly None (trace s) \<and> phase_of (trace s) = up s \<and> length (held s) \<le> hold_cap \<and>
     (\<forall>ev \<in> set (held s). user_msg ev) \<and> cr_retries s = (if up s = None then 1 else 0)"

lemma core_ok_extend:
  assumes "core_ok s" and "trace s' = trace s @ t" and "orderly (up s) t" and "foldl phase (up s) t = up s'"
  shows "orderly None (trace s') \<and> phase_of (trace s') = up s'"
  using assms by (simp add: core_ok_def phase_of_def orderly_append)

lemma goes_core_ok:
  assumes "core_ok s" and "goes s evs s'" and "evs = [] \<or> up s = Some True"
  shows "core_ok s'"
proof -
  from assms(2) obtain t where t: "trace s' = trace s @ t" "handled_in t = evs" "list_all (ordinary (up s)) t"
    and s: "up s' = up s" "held s' = held s" "cr_retries s' = cr_retries s" by (auto simp: goes_def)
  from orderly_ordinary [OF t(3)] t(2) assms(3) have "orderly (up s) t" "foldl phase (up s) t = up s'" using s by auto
  from core_ok_extend [OF assms(1) t(1) this] assms(1) s show ?thesis by (simp add: core_ok_def)
qed

lemma retry_core_ok:
  assumes "orderly None (trace s)" and "phase_of (trace s) = None" and "cr_link s = None" and "cr_retries s = 0"
  shows "core_ok (schedule_reconnect now s)"
  using assms by (auto simp: core_ok_def schedule_reconnect_def case_prod_beta' logged_def up_def held_def phase_of_def
      orderly_append needs_welcome_def)

lemma connect_core_ok:
  assumes "orderly None (trace s)" and "phase_of (trace s) = None" and "cr_link s = None" and "cr_retries s = 0"
  shows "core_ok (connect b now s)"
proof (cases b)
  case True
  let ?x = "new_session (cr_network s) (cr_nick s)"
  let ?s = "logged Dialed (s\<lparr>cr_link := Some \<lparr>lk_session = ?x, lk_held = []\<rparr>\<rparr>)"
  have "core_ok ?s"
    using assms by (auto simp: core_ok_def logged_def up_def held_def phase_of_def orderly_append needs_welcome_def new_session_def)
  moreover have "goes ?s [] (write_sends (register_lines ?x) ?s)"
    by (rule write_sends_goes) (auto simp: register_lines_def has_prefix_def)
  ultimately show ?thesis using goes_core_ok True by (auto simp: connect_def)
qed (use assms retry_core_ok in \<open>simp add: connect_def\<close>)

lemma core_step_ok:
  assumes "core_ok s"
  shows "core_ok (core_step E op s)"
proof -
  consider (dial) b now where "op = Dial b now" | (lost) now where "op = Lost now" | (input) now l where "op = Line_in now l"
    | (other) "inner op" by (cases op) auto
  then show ?thesis
  proof cases
    case dial
    show ?thesis
    proof (cases "cr_retries s = 0")
      case False
      with assms have u: "up s = None" "cr_retries s = 1" by (auto simp: core_ok_def split: if_splits)
      then have "cr_link s = None" by (simp add: up_def)
      moreover have "orderly None (trace s)" "phase_of (trace s) = None" using assms u(1) by (simp_all add: core_ok_def)
      ultimately have "core_ok (connect b now (s\<lparr>cr_retries := cr_retries s - 1\<rparr>))"
        using u(2) by (intro connect_core_ok) simp_all
      then show ?thesis using False dial by simp
    qed (use assms dial in simp)
  next
    case lost
    show ?thesis
    proof (cases "cr_link s = None")
      case False
      let ?s = "(logged Closed s)\<lparr>cr_link := None\<rparr>"
      have "core_ok (schedule_reconnect now ?s)"
        using assms False
        by (intro retry_core_ok) (auto simp: core_ok_def logged_def phase_of_def orderly_append needs_welcome_def up_def)
      with False lost show ?thesis by (auto simp: disconnected_def)
    qed (use assms lost in simp)
  next
    case input
    note h = assms [unfolded core_ok_def]
    show ?thesis
    proof (cases "up s")
      case None
      then show ?thesis using assms input by (simp add: line_in_def up_def)
    next
      case (Some w)
      show ?thesis
      proof (cases w)
        case True
        with Some input line_open [of s now l E] goes_core_ok [OF assms] show ?thesis by simp
      next
        case False
        with Some have u: "up s = Some False" by simp
        from line_shut [OF u, of now l E] h input consider
          "holds s (line_msgs now l s) (core_step E op s)" | "greeted s (core_step E op s)" by auto
        then show ?thesis
        proof cases
          case 1
          then obtain t where t: "trace (core_step E op s) = trace s @ t" "handled_in t = []" "list_all (ordinary (Some False)) t"
            and k: "up (core_step E op s) = Some False" "held (core_step E op s) = kept (held s) (line_msgs now l s)"
              "cr_retries (core_step E op s) = cr_retries s" unfolding holds_def by blast
          from orderly_ordinary [OF t(3)] t(2) have "orderly (up s) t" "foldl phase (up s) t = up (core_step E op s)"
            by (simp_all add: u k(1))
          from core_ok_extend [OF assms t(1) this] k h u user_msgs_user show ?thesis
            by (auto simp: core_ok_def kept_def dest!: in_set_takeD)
        next
          case 2
          then obtain t where t: "trace (core_step E op s) = trace s @ Welcomed # t" "list_all (ordinary (Some True)) t"
            and k: "up (core_step E op s) = Some True" "held (core_step E op s) = []"
              "cr_retries (core_step E op s) = cr_retries s" unfolding greeted_def by blast
          from orderly_ordinary [OF t(2)] have "orderly (up s) (Welcomed # t)"
            "foldl phase (up s) (Welcomed # t) = up (core_step E op s)" by (simp_all add: k(1) needs_welcome_def)
          from core_ok_extend [OF assms t(1) this] k h u show ?thesis by (simp add: core_ok_def)
        qed
      qed
    qed
  next
    case other
    with inner_goes goes_core_ok [OF assms] show ?thesis by blast
  qed
qed

lemma core_run_ok: "core_ok s \<Longrightarrow> core_ok (core_run E ops s)"
  by (induction ops arbitrary: s) (simp_all add: core_step_ok)

lemma boot_ok: "core_ok (boot E dec net nk flags b now st)"
proof -
  have "trace (save_channels E s) = trace s" "cr_link (save_channels E s) = cr_link s" "cr_retries (save_channels E s) = cr_retries s"
    for s by (simp_all add: save_channels_def split: option.split)
  then show ?thesis unfolding boot_def Let_def
    by (intro connect_core_ok) (simp_all add: load_channels_def phase_of_def split: option.split)
qed

text \<open>
  C32. Nothing is said before the server has confirmed the registration. In every run from the start, over any
  number of connections, each line to a user or channel is written, and each message handled by the command
  registry, on a connection that is up and was welcomed: after its welcome and before it is closed.
\<close>

theorem core_speaks_welcomed:
  "trace (core_run E ops (boot E dec net nk flags b now st)) = t1 @ a # t2 \<Longrightarrow>
   (case a of Wrote l \<Rightarrow> has_prefix ''PRIVMSG '' l | Handled ev \<Rightarrow> True | _ \<Rightarrow> False) \<Longrightarrow> phase_of t1 = Some True"
  using core_run_ok [OF boot_ok, of E ops E dec net nk flags b now st]
  by (simp add: core_ok_def orderly_append phase_of_def needs_welcome_def)

text \<open>
  C33. The core never gives up and never connects twice. After any run either there is a connection and no
  reconnect is pending, or there is none and exactly one is, whose dial, once it succeeds, makes the
  connection.
\<close>

theorem core_reconnects:
  "let s = core_run E ops (boot E dec net nk flags b now st) in
   (cr_link s \<noteq> None \<and> cr_retries s = 0 \<or> cr_link s = None \<and> cr_retries s = 1 \<and> cr_link (core_step E (Dial True now') s) \<noteq> None)"
proof -
  let ?s = "core_run E ops (boot E dec net nk flags b now st)"
  have ok: "core_ok ?s" by (rule core_run_ok [OF boot_ok])
  have l: "cr_link (write_sends acts s) = cr_link s" for acts s
    by (induction acts s rule: write_sends.induct) (simp_all add: logged_def)
  show ?thesis using ok by (auto simp: core_ok_def up_def connect_def l logged_def split: if_splits)
qed

section \<open>An instance\<close>

definition quiet_env :: core_env where
  "quiet_env = \<lparr>ce_react = (\<lambda>t. []), ce_depth = 0, ce_float_ok = (\<lambda>_. False), ce_enc_list = (\<lambda>_. None), ce_dec_list = (\<lambda>_. None),
     ce_enc_map = (\<lambda>_. None), ce_quote = id, ce_error = (\<lambda>_. [])\<rparr>"

definition demo_core :: core where
  "demo_core = \<lparr>cr_network = ''net'', cr_nick = ''bot'', cr_link = None, cr_backoff = backoff_new, cr_retries = 0,
     cr_channels = [''#a''], cr_conf = conf_new, cr_store = [], trace = []\<rparr>"

definition demo_inputs :: "core_op list" where
  "demo_inputs = [Line_in 1 '':u!a@b PRIVMSG #a :early'', Line_in 2 '':srv 001 bot :hi'', Line_in 3 '':u!a@b PRIVMSG #a :late'']"

lemma core_holds_witness:
  "let s = connect True 0 demo_core; s' = core_run quiet_env demo_inputs s; arr = arrivals quiet_env demo_inputs s in
   handled_in (trace s') = take 64 (map snd (filter (\<lambda>a. \<not> fst a) arr)) @ map snd (filter fst arr) \<and>
   map msg (handled_in (trace s')) = [''early'', ''late'']"
proof -
  have st: "\<forall>op \<in> set demo_inputs. steady op" by (simp add: demo_inputs_def)
  have u: "up (core_run quiet_env demo_inputs (connect True 0 demo_core)) = Some True" by code_simp
  have m: "map msg (handled_in (trace (core_run quiet_env demo_inputs (connect True 0 demo_core)))) = [''early'', ''late'']" by code_simp
  have "handled_in (trace demo_core) = []" by (simp add: demo_core_def)
  then show ?thesis unfolding Let_def using core_holds [OF st, of 0 demo_core quiet_env, unfolded Let_def u] m by simp
qed

lemma core_speaks_welcomed_witness:
  "\<exists>t1 ev t2. trace (core_run quiet_env demo_inputs (boot quiet_env (\<lambda>_. None) ''net'' ''bot'' [''#a''] True 0 [])) =
     t1 @ Handled ev # t2 \<and> phase_of t1 = Some True"
proof -
  let ?t = "trace (core_run quiet_env demo_inputs (boot quiet_env (\<lambda>_. None) ''net'' ''bot'' [''#a''] True 0 []))"
  have "list_ex (\<lambda>a. case a of Handled ev \<Rightarrow> True | _ \<Rightarrow> False) ?t" by code_simp
  then obtain a where a: "a \<in> set ?t" "case a of Handled ev \<Rightarrow> True | _ \<Rightarrow> False" unfolding list_ex_iff by blast
  from a(2) obtain ev where "a = Handled ev" by (cases a) simp_all
  with a(1) have "Handled ev \<in> set ?t" by simp
  then obtain t1 t2 where t: "?t = t1 @ Handled ev # t2" by (meson split_list)
  from core_speaks_welcomed [OF t] have "phase_of t1 = Some True" by simp
  with t show ?thesis by blast
qed

lemma core_reconnects_witness:
  "let s = core_run quiet_env [Lost 5] (boot quiet_env (\<lambda>_. None) ''net'' ''bot'' [] True 0 []) in
   cr_retries s = 1 \<and> cr_link (core_step quiet_env (Dial True 9) s) \<noteq> None"
proof -
  let ?s = "core_run quiet_env [Lost 5] (boot quiet_env (\<lambda>_. None) ''net'' ''bot'' [] True 0 [])"
  have "cr_link ?s = None" by (simp add: disconnected_def schedule_reconnect_def logged_def case_prod_beta')
  with core_reconnects [where E = quiet_env and ops = "[Lost 5]" and dec = "\<lambda>_. None" and net = "''net''" and nk = "''bot''"
      and flags = "[]" and b = True and now = 0 and st = "[]" and now' = 9] show ?thesis
    unfolding Let_def by (elim disjE conjE) simp_all
qed

end
