(* ===== verification/Core_Store.thy ===== *)
theory Core_Store
  imports Core_Run "HOL-Library.Countable"
begin

text \<open>
  What the core keeps in the store, the channels it joins by itself and the settings, and that a restart
  brings it back.
\<close>

section \<open>What survives a restart\<close>

definition base :: "core \<Rightarrow> string list \<times> conf \<times> memory" where
  "base s = (cr_channels s, cr_conf s, cr_store s)"

lemma fold_keeps: "(\<And>x s. g (f x s) = g s) \<Longrightarrow> g (fold f xs s) = g s"
  by (induction xs arbitrary: s) simp_all

lemma base_logged [simp]: "base (logged a s) = base s"
  by (simp add: base_def logged_def)

lemma do_call_base: "(\<And>ev s. base (sub (Submitted ev) s) = base s) \<Longrightarrow> base (do_call sub c s) = base s"
proof -
  assume sub: "\<And>ev s. base (sub (Submitted ev) s) = base s"
  have w: "base (fold (\<lambda>l. logged (Wrote l)) ls s) = base s" for ls s by (rule fold_keeps) simp
  have "base (fold (say_part sub r) ps s) = base s" for r ps s by (rule fold_keeps) (simp add: say_part_def sub w)
  then show ?thesis by (cases c) (simp_all add: do_call_def privmsg_def send_raw_def)
qed

lemma notify_base: "base (notify n E a s) = base s"
proof (induction n arbitrary: a s)
  case (Suc n)
  have "base (fold (do_call (\<lambda>b. notify n E b)) cs s) = base s" for cs s
    by (rule fold_keeps) (rule do_call_base, rule Suc.IH)
  then show ?case by simp
qed simp

lemma calls_base: "base (fold (do_call (\<lambda>b. notify n E b)) cs s) = base s"
  by (rule fold_keeps) (rule do_call_base, rule notify_base)

lemma write_sends_base: "base (write_sends acts s) = base s"
  by (induction acts s rule: write_sends.induct) simp_all

lemma join_now_base: "base (join_now now chs s) = base s"
  by (simp add: join_now_def write_sends_base case_prod_beta' split: option.split) (simp add: base_def set_session_def)

definition readable :: "core_env \<Rightarrow> (json \<Rightarrow> (string \<times> string) list option) \<Rightarrow> bool" where
  \<comment> \<open>JSON takes every list and map of strings, and gives those that are UTF-8 back\<close>
  "readable E dec \<longleftrightarrow>
     (\<forall>xs. \<exists>j. ce_enc_list E xs = Some j \<and> (list_all valid_utf8 xs \<longrightarrow> ce_dec_list E j = Some xs)) \<and>
     (\<forall>m. wf_map m \<longrightarrow> (\<exists>j. ce_enc_map E m = Some j \<and>
        (map_all (\<lambda>k v. valid_utf8 k \<and> valid_utf8 v) m \<longrightarrow> (\<exists>m'. dec j = Some m' \<and> wf_map m' \<and> map_of m' = map_of m))))"

definition stored_conf :: "(json \<Rightarrow> (string \<times> string) list option) \<Rightarrow> memory \<Rightarrow> (string \<times> string) list" where
  "stored_conf dec st =
     (case mem_get ''core'' ''conf'' st of None \<Rightarrow> [] | Some j \<Rightarrow> (case dec j of None \<Rightarrow> [] | Some vs \<Rightarrow> vs))"

definition saved :: "core_env \<Rightarrow> (json \<Rightarrow> (string \<times> string) list option) \<Rightarrow> core \<Rightarrow> bool" where
  \<comment> \<open>the store says what the core has\<close>
  "saved E dec s \<longleftrightarrow> wf_map (stored (cr_conf s)) \<and> distinct (map to_lower (cr_channels s)) \<and>
     (\<exists>j. mem_get ''core'' ''channels'' (cr_store s) = Some j \<and>
        (list_all valid_utf8 (cr_channels s) \<longrightarrow> ce_dec_list E j = Some (cr_channels s))) \<and>
     (map_all (\<lambda>k v. valid_utf8 k \<and> valid_utf8 v) (stored (cr_conf s)) \<longrightarrow>
        wf_map (stored_conf dec (cr_store s)) \<and> map_of (stored_conf dec (cr_store s)) = map_of (stored (cr_conf s)))"

lemma saved_base: "base s' = base s \<Longrightarrow> saved E dec s' = saved E dec s"
  by (simp add: saved_def base_def)

lemma put_other [simp]:
  "mem_put ns k v m = Some m' \<Longrightarrow> mem_get ns' k' m' = (if ns' = ns \<and> k' = k then v else mem_get ns' k' m)"
  by (auto simp: mem_put_def mem_get_def split: option.splits)

lemma save_channels_saved:
  assumes "readable E dec" and "saved E dec s" and "distinct (map to_lower chs)"
  shows "saved E dec (save_channels E (s\<lparr>cr_channels := chs\<rparr>))"
proof -
  from assms(1) obtain j where j: "ce_enc_list E chs = Some j" "list_all valid_utf8 chs \<longrightarrow> ce_dec_list E j = Some chs"
    unfolding readable_def by blast
  then obtain st where st: "mem_put ''core'' ''channels'' (Some j) (cr_store s) = Some st" by (simp add: mem_put_def)
  with j assms(2,3) show ?thesis by (auto simp: saved_def save_channels_def stored_conf_def)
qed

lemma fold_in: "(\<exists>have \<in> set chs. equal_fold have ch) \<longleftrightarrow> to_lower ch \<in> set (map to_lower chs)"
  by (auto simp: equal_fold_def image_iff) metis

lemma add_channel_saved: "readable E dec \<Longrightarrow> saved E dec s \<Longrightarrow> saved E dec (snd (add_channel E ch s))"
  using save_channels_saved [of E dec s "cr_channels s @ [ch]"]
  by (auto simp: add_channel_def fold_in saved_def [of E dec s] simp del: set_map)

lemma remove_channel_saved:
  assumes "readable E dec" and "saved E dec s"
  shows "saved E dec (snd (remove_channel E ch s))"
proof -
  let ?left = "filter (\<lambda>have. \<not> equal_fold have ch) (cr_channels s)"
  have "distinct (map to_lower ?left)" using assms(2) by (simp add: saved_def distinct_map_filter)
  moreover have "?left = cr_channels s" if "length ?left = length (cr_channels s)"
    using that length_filter_less [of _ "cr_channels s"] by (metis filter_True less_irrefl)
  then have "s\<lparr>cr_channels := ?left\<rparr> = s" if "length ?left = length (cr_channels s)" using that by simp
  ultimately show ?thesis
    using save_channels_saved [OF assms, of ?left] assms(2)
    by (auto simp: remove_channel_def dest: length_filter_less)
qed

lemma submit_event_saved:
  assumes "readable E dec" and "saved E dec s"
  shows "saved E dec (submit_event E now ev s)"
proof -
  let ?s1 = "logged (Submitted ev) s"
  let ?s2 = "if ev_name ev = ''IRC_INVITE'' then on_invited E now ev ?s1 else ?s1"
  have 1: "saved E dec ?s1" using assms(2) saved_base [of ?s1 s] by simp
  have "saved E dec (on_invited E now ev ?s1)"
    using 1 add_channel_saved [OF assms(1) 1] saved_base [OF join_now_base] by (simp add: on_invited_def)
  with 1 have "saved E dec ?s2" by simp
  then show ?thesis using saved_base [OF calls_base] by (simp add: submit_event_def)
qed

lemma dispatch_event_saved: "readable E dec \<Longrightarrow> saved E dec s \<Longrightarrow> saved E dec (dispatch_event E now ev s)"
  using submit_event_saved saved_base [OF notify_base] by (simp add: dispatch_event_def del: notify.simps)

lemma set_conf_saved:
  assumes r: "readable E dec" and s: "saved E dec s"
  shows "saved E dec (snd (set_conf E now name v s))"
proof (cases "conf_set (ce_float_ok E) name v (cr_conf s)")
  case (Inr q)
  obtain n c where q: "q = (n, c)" by (cases q)
  have w: "wf_map (stored c)"
    using Inr q s by (auto simp: conf_set_def saved_def split: option.splits if_splits)
  with r obtain j where j: "ce_enc_map E (stored c) = Some j"
    "map_all (\<lambda>k v. valid_utf8 k \<and> valid_utf8 v) (stored c) \<longrightarrow> (\<exists>m'. dec j = Some m' \<and> wf_map m' \<and> map_of m' = map_of (stored c))"
    unfolding readable_def by blast
  then obtain st where st: "mem_put ''core'' ''conf'' (Some j) (cr_store s) = Some st" by (simp add: mem_put_def)
  have "saved E dec (save_conf E (s\<lparr>cr_conf := c\<rparr>))"
    using s j st w by (auto simp: saved_def save_conf_def stored_conf_def)
  from submit_event_saved [OF r this] show ?thesis using Inr q by (simp add: set_conf_def)
qed (simp add: set_conf_def s)

lemma set_session_saved [simp]: "saved E dec (set_session x s) = saved E dec s"
  by (simp add: saved_def set_session_def)

lemma fold_saved: "(\<And>x s. saved E dec s \<Longrightarrow> saved E dec (f x s)) \<Longrightarrow> saved E dec s \<Longrightarrow> saved E dec (fold f xs s)"
  by (induction xs arbitrary: s) simp_all

lemma saved_link [simp]: "saved E dec (s\<lparr>cr_link := k\<rparr>) = saved E dec s"
  by (simp add: saved_def)

lemma session_action_saved:
  assumes "readable E dec" and "saved E dec s"
  shows "saved E dec (session_action E now a s)"
proof (cases a)
  case (Emit ev)
  then show ?thesis using assms dispatch_event_saved by (simp add: emit_event_def split: option.split)
next
  case Welcome
  have "saved E dec (join_now now (cr_channels s) (logged Welcomed s))"
    using assms(2) saved_base [OF join_now_base] saved_base [of "logged Welcomed s" s] by simp
  then have "saved E dec (fold (dispatch_event E now) h (join_now now (cr_channels s) (logged Welcomed s)))" for h
    using dispatch_event_saved [OF assms(1)] by (intro fold_saved)
  with Welcome assms show ?thesis by (simp add: welcome_now_def split: option.split)
qed (use assms saved_base [of "logged b s" s for b] in simp_all)

lemma core_step_saved:
  assumes r: "readable E dec" and s: "saved E dec s"
  shows "saved E dec (core_step E op s)"
proof (cases op)
  case (Dial b now)
  have "base (connect b now x) = base x" for x
    by (simp add: connect_def schedule_reconnect_def write_sends_base case_prod_beta') (simp add: base_def logged_def)
  from saved_base [OF this] s Dial show ?thesis by (simp add: saved_def)
next
  case (Lost now)
  have "base (disconnected now s) = base s"
    by (simp add: disconnected_def schedule_reconnect_def case_prod_beta') (simp add: base_def logged_def)
  from saved_base [OF this] s Lost show ?thesis by simp
next
  case (Line_in now l)
  then show ?thesis using s session_action_saved [OF r]
    by (auto simp: line_in_def case_prod_beta' intro!: fold_saved split: option.split)
next
  case (Invoke cs)
  then show ?thesis using s saved_base [OF calls_base] by simp
next
  case (Console_conf now l)
  then show ?thesis using s set_conf_saved [OF r s, of now]
    by (auto simp: run_conf_def split: option.split prod.split) (metis snd_conv)+
next
  case (Console_join now l)
  then show ?thesis using s add_channel_saved [OF r s] saved_base [OF join_now_base]
    by (auto simp: run_join_def case_prod_beta' split: option.split)
next
  case (Console_part l)
  then show ?thesis using s remove_channel_saved [OF r s] saved_base [OF base_logged]
    by (auto simp: run_part_def split: option.split prod.split bool.split) (metis snd_conv)+
qed


section \<open>An instance\<close>

lemma save_channels_base [simp]:
  "cr_channels (save_channels E s) = cr_channels s" "cr_conf (save_channels E s) = cr_conf s"
  by (simp_all add: save_channels_def split: option.split)

lemma join_now_simps [simp]:
  "cr_channels (join_now now chs s) = cr_channels s" "cr_conf (join_now now chs s) = cr_conf s"
  using join_now_base [of now chs s] by (simp_all add: base_def)

lemma logged_simps [simp]: "cr_channels (logged a s) = cr_channels s" "cr_conf (logged a s) = cr_conf s"
  by (simp_all add: logged_def)

definition counted_env :: core_env where
  "counted_env = quiet_env\<lparr>ce_enc_list := (\<lambda>xs. Some (replicate (to_nat xs) (CHR ''x''))), ce_dec_list := (\<lambda>j. Some (from_nat (length j))),
     ce_enc_map := (\<lambda>m. Some (replicate (to_nat m) (CHR ''x'')))\<rparr>"

definition counted_dec :: "json \<Rightarrow> (string \<times> string) list option" where
  "counted_dec j = Some (from_nat (length j))"

lemma counted_readable: "readable counted_env counted_dec"
  by (simp add: readable_def counted_env_def counted_dec_def)


end
