(* ===== verification/Core_Say.thy ===== *)
theory Core_Say
  imports Core_Run
begin

text \<open>
  What becomes of a text that a module says: the lines written for it, and the events by which the logger
  sees them.
\<close>

section \<open>No line feed is written\<close>

lemma rune_strs_low:
  assumes "x \<in> set (concat (rune_strs w))" and "byte x < 0x80"
  shows "x \<in> set w"
proof -
  from assms(1) obtain g where g: "g \<in> set (segs w)" "x \<in> set (encode_rune (seg_rune g))" by (auto simp: rune_strs_def)
  then have "seg_rune g < 0x80"
    using assms(2) by (auto simp: encode_rune_def Let_def byte_char_of rune_error_def split: if_splits)
  moreover from g(1) have ne: "g \<noteq> []" using segs_decode by blast
  ultimately have "byte (hd g) = seg_rune g" using decode_low by (simp add: seg_rune_def)
  moreover have "byte x = seg_rune g" using g(2) \<open>seg_rune g < 0x80\<close> by (simp add: encode_rune_def byte_char_of)
  ultimately have "byte x = byte (hd g)" by simp
  then have "x = hd g" by simp
  with ne segs_set [OF g(1)] show ?thesis by auto
qed

lemma chunks_set: "l \<in> set (chunks mx part rs) \<Longrightarrow> set l \<subseteq> set part \<union> set (concat rs)"
proof (induction mx part rs rule: chunks.induct)
  case (2 mx part r rs)
  show ?case
  proof (cases rs)
    case Nil
    with 2 show ?thesis by simp
  next
    case (Cons r2 rs')
    show ?thesis
    proof (cases "int (length (part @ r)) + int (length r2) > mx")
      case True
      with 2 Cons show ?thesis by auto
    next
      case False
      with "2.prems" Cons have "l \<in> set (chunks mx (part @ r) rs)" by simp
      with "2.IH"(3) [OF Cons False] show ?thesis by auto
    qed
  qed
qed (simp split: if_splits)

lemma fill_line_set:
  "set (fst (fill_line mx line ws)) \<subseteq> {CHR '' ''} \<union> set line \<union> set (concat ws) \<and> set (snd (fill_line mx line ws)) \<subseteq> set ws"
  by (induction mx line ws rule: fill_line.induct) auto

lemma wrap_words_no_lf:
  "\<forall>w \<in> set ws. CHR 0x0A \<notin> set w \<Longrightarrow> l \<in> set (wrap_words mx ws) \<Longrightarrow> CHR 0x0A \<notin> set l"
proof (induction mx ws rule: wrap_words.induct)
  case (2 mx w ws)
  show ?case
  proof (cases "int (length w) > mx")
    case True
    from 2 True consider "l \<in> set (split_big_word w mx)" | "l \<in> set (wrap_words mx ws)" by auto
    then show ?thesis
    proof cases
      case 1
      then have "set l \<subseteq> set (concat (rune_strs w))" using chunks_set [of l mx "[]"] by (simp add: split_big_word_def)
      with rune_strs_low [of "CHR 0x0A" w] 2(3) show ?thesis by auto
    next
      case 2
      with "2.IH"(1) True "2.prems"(1) show ?thesis by simp
    qed
  next
    case False
    obtain line rest where f: "fill_line mx w ws = (line, rest)" by fastforce
    with fill_line_set [of mx w ws] have s: "set line \<subseteq> {CHR '' ''} \<union> set w \<union> set (concat ws)" "set rest \<subseteq> set ws" by auto
    from "2.prems"(2) False f consider "l = line" | "l \<in> set (wrap_words mx rest)" by auto
    then show ?thesis
    proof cases
      case 1
      with s(1) "2.prems"(1) show ?thesis by auto
    next
      case 2
      have "\<forall>w \<in> set rest. CHR 0x0A \<notin> set w" using s(2) "2.prems"(1) by auto
      from "2.IH"(2) [OF False f [symmetric] this 2] show ?thesis .
    qed
  qed
qed simp

lemma split_message_no_lf:
  assumes "CHR 0x0A \<notin> set p" and "CHR 0x0A \<notin> set m" and "l \<in> set (split_message p m)"
  shows "CHR 0x0A \<notin> set l"
proof -
  have "set (concat (split_ws m)) \<subseteq> set m" by (auto simp: split_ws_words ink_def)
  then have "\<forall>w \<in> set (split_ws m). CHR 0x0A \<notin> set w" using assms(2) by auto
  then show ?thesis using assms wrap_words_no_lf
    by (auto simp: split_message_def wrap_text_def split: if_splits)
qed

lemma receiver_no_lf: "CHR 0x0A \<notin> set (receiver_of r)"
proof
  assume "CHR 0x0A \<in> set (receiver_of r)"
  then obtain q where q: "q \<noteq> 0x0A" "CHR 0x0A \<in> set (encode_rune q)" by (auto simp: receiver_of_def from_runes_def)
  then have "10 \<in> byte ` set (encode_rune q)" by force
  with q(1) show False by (auto simp: encode_rune_def Let_def byte_char_of rune_error_def split: if_splits)
qed

section \<open>Saying\<close>

definition payload :: "string \<Rightarrow> core_action \<Rightarrow> string" where
  \<comment> \<open>the text of a written line, past its prefix\<close>
  "payload p a = (case a of Wrote l \<Rightarrow> drop (length p) l | _ \<Rightarrow> [])"

definition sent_parts :: "core_action list \<Rightarrow> string list" where
  \<comment> \<open>the texts of the \<open>IRC_SENT\<close> events\<close>
  "sent_parts t = concat (map (\<lambda>a. case a of Submitted ev \<Rightarrow> [msg ev] | _ \<Rightarrow> []) t)"

lemma fold_logged: "fold (\<lambda>l. logged (Wrote l)) ls s = s\<lparr>trace := trace s @ map Wrote ls\<rparr>"
  by (induction ls arbitrary: s) (simp_all add: logged_def)

lemma say_parts:
  "fold (say_part logged r) ps s =
   s\<lparr>trace := trace s @ concat (map (\<lambda>p. map Wrote (split_message (''PRIVMSG '' @ r @ '' :'') p) @ [Submitted (sent_event s r p)]) ps)\<rparr>"
proof (induction ps arbitrary: s)
  case (Cons p ps)
  have e: "sent_event (s\<lparr>trace := t\<rparr>) r q = sent_event s r q" for t q by (simp add: sent_event_def)
  have "say_part logged r p s =
      s\<lparr>trace := trace s @ map Wrote (split_message (''PRIVMSG '' @ r @ '' :'') p) @ [Submitted (sent_event s r p)]\<rparr>"
    unfolding say_part_def fold_logged by (simp add: logged_def)
  then show ?case by (simp only: fold_simps Cons.IH e) simp
qed simp

text \<open>
  C35. What is said arrives whole. A module that says a text to a receiver the bot may talk to, no hook saying
  anything in between, has for each line of the text that is not blank its wire lines written, all with the
  prefix of that receiver, each of at most 448 bytes and without a line feed, and then one \<open>IRC_SENT\<close> with
  that line; and of well-formed text no byte that is not blank is lost, added or moved. When the bot may not
  talk to the receiver, nothing happens at all.
\<close>

theorem core_say:
  assumes "length (receiver_of r) \<le> 434" and "p = ''PRIVMSG '' @ receiver_of r @ '' :''"
  shows "if may_say (receiver_of r) s
    then \<exists>t. privmsg logged r m s = s\<lparr>trace := trace s @ t\<rparr> \<and> sent_parts t = split_lines m \<and>
      (\<forall>a \<in> set t. (\<exists>ev. a = Submitted ev) \<or> (\<exists>l. a = Wrote l \<and> has_prefix p l \<and> length l \<le> 448 \<and> CHR 0x0A \<notin> set l)) \<and>
      ((\<forall>x \<in> set (split_lines m). valid_utf8 x) \<longrightarrow>
         ink (concat (map (payload p) t)) = ink (concat (split_lines m)))
    else privmsg logged r m s = s"
proof (cases "may_say (receiver_of r) s")
  case True
  let ?r = "receiver_of r"
  let ?f = "\<lambda>x. map Wrote (split_message p x) @ [Submitted (sent_event s ?r x)]"
  let ?t = "concat (map ?f (split_lines m))"
  have p: "length p \<le> 444" "CHR 0x0A \<notin> set p" using assms receiver_no_lf by simp_all
  have e: "privmsg logged r m s = s\<lparr>trace := trace s @ ?t\<rparr>" using True by (simp add: privmsg_def say_parts assms(2))
  have "sent_parts (concat (map ?f xs)) = xs" for xs
    by (induction xs) (simp_all add: sent_parts_def sent_event_def comp_def)
  then have s: "sent_parts ?t = split_lines m" .
  have nl: "CHR 0x0A \<notin> set x" if "x \<in> set (split_lines m)" for x
    using that split_on_no_sep [of x "CHR 0x0A" m] by (simp add: split_lines_def)
  have a: "(\<exists>ev. a = Submitted ev) \<or> (\<exists>l. a = Wrote l \<and> has_prefix p l \<and> length l \<le> 448 \<and> CHR 0x0A \<notin> set l)"
    if a: "a \<in> set ?t" for a
  proof -
    from a obtain x where x: "x \<in> set (split_lines m)" "a \<in> set (?f x)" by auto
    with split_message_fits [OF p(1), of x] split_message_no_lf [OF p(2) nl [OF x(1)]] show ?thesis by auto
  qed
  have i: "ink (concat (map (payload p) (concat (map ?f xs)))) = ink (concat xs)" if "\<forall>x \<in> set xs. valid_utf8 x" for xs
    using that
  proof (induction xs)
    case (Cons x xs)
    have ic: "ink (concat zs) = concat (map ink zs)" for zs by (induction zs) simp_all
    have "ink (concat (map (payload p) (?f x))) = ink x"
      using split_message_fits [OF p(1), of x] Cons.prems by (simp add: payload_def comp_def ic)
    with Cons show ?case by simp
  qed simp
  have "\<exists>t. privmsg logged r m s = s\<lparr>trace := trace s @ t\<rparr> \<and> sent_parts t = split_lines m \<and>
      (\<forall>a \<in> set t. (\<exists>ev. a = Submitted ev) \<or> (\<exists>l. a = Wrote l \<and> has_prefix p l \<and> length l \<le> 448 \<and> CHR 0x0A \<notin> set l)) \<and>
      ((\<forall>x \<in> set (split_lines m). valid_utf8 x) \<longrightarrow>
         ink (concat (map (payload p) t)) = ink (concat (split_lines m)))"
    using e s a i [of "split_lines m"] by (intro exI [of _ ?t]) blast
  with True show ?thesis by simp
qed (simp add: privmsg_def)

definition open_core :: core where
  \<comment> \<open>welcomed and in one channel\<close>
  "open_core = demo_core\<lparr>cr_link := Some \<lparr>lk_session = (new_session ''net'' ''bot'')\<lparr>welcomed := True,
     channels := [(''#a'', channel_new (Some 0) [])]\<rparr>, lk_held = []\<rparr>\<rparr>"

lemma core_say_witness:
  "\<exists>t. privmsg logged ''#a'' (''hi '' @ [CHR 0x0A, CHR 0x0A] @ '' you'') open_core = open_core\<lparr>trace := trace open_core @ t\<rparr> \<and>
     sent_parts t = [''hi '', '' you''] \<and> ink (concat (map (payload ''PRIVMSG #a :'') t)) = ''hiyou''"
proof -
  have r: "receiver_of ''#a'' = ''#a''"
  proof -
    have "filter (\<lambda>q. q \<notin> {0x3A, 0x20, 0x09, 0x0D, 0x0A}) (runes ''#a'') = map byte ''#a''" by (simp add: runes_ascii)
    then have "receiver_of ''#a'' = from_runes (map byte ''#a'')" by (simp only: receiver_of_def)
    also have "\<dots> = ''#a''" by (rule from_runes_ascii) simp
    finally show ?thesis .
  qed
  let ?m = "''hi '' @ [CHR 0x0A, CHR 0x0A] @ '' you''"
  have "trim_space ''hi '' = ''hi''" "trim_space '' you'' = ''you''" "trim_space [] = []"
    by (simp_all add: trim_space_ascii is_space_rune_def)
  then have l: "split_lines ?m = [''hi '', '' you'']" by (simp add: split_lines_def)
  have m: "may_say ''#a'' open_core" by code_simp
  have v: "valid_utf8 ''hi ''" "valid_utf8 '' you''" by (simp_all add: valid_utf8_ascii)
  have i: "ink ''hi  you'' = ''hiyou''" by (simp add: ink_def is_ws_def)
  have len: "length (receiver_of ''#a'') \<le> 434" by (simp add: r)
  from core_say [OF len refl, of open_core ?m] m v i show ?thesis unfolding r l by auto
qed

end
