(* ===== verification/Spec2Isabelle.thy ===== *)
theory Spec2Isabelle
  imports Flood Irc_Parse Sched Timers Bus Edit_Distance Cmd Pager Storage Conf Session Keeper
    Format Colour Rvf Guard Admin Markov_Rows Karma_Run Lastseen Core_Store Core_Say
begin

text \<open>
  botje, an IRC bot in Go, as a library of Isabelle/HOL theories.

  The program. One process holds the connection (cmd/botje and internal/keeper: the keeper relays bytes
  between the IRC server and the core, buffers them while the core restarts, and so survives its
  upgrades). The core (internal/core) assembles the rest around one dispatcher goroutine: bytes are framed
  and parsed (internal/irc/parse.go), the session machine (session.go) tracks registration, channels and
  members and emits events, the event bus (internal/bus) hands them to the hooks of the modules in order,
  one hook of which is the command registry (internal/irc/cmd), which answers lines that start with an
  exclamation mark. Replies go through the pager (internal/irc/pager), the colour tags and the wrapping
  (internal/format), and leave by the flood queue (internal/irc/flood). Timers are a heap the dispatcher
  runs (internal/sched). Settings are a typed registry (internal/conf) over the store (internal/storage),
  which modules that change often write through the batching saver. The telnet console (internal/admin)
  changes settings and modules for accounts kept by internal/auth. Of the modules the word game
  (modules/rvf), the spam guard (modules/guard), the chatter bot (modules/markov), the tally of votes
  (modules/karma) and the memory of who spoke last (modules/lastseen) are modelled.

  Theories, from the bottom up.
    \<^item> Go_Prelude, Go_Utf8, Go_Case, Go_Strconv, Go_Regex, Go_Heap: what the source uses of Go's library. A string
      is a list of bytes; runes are decoded from it as package utf8 does; a map is an association list
      with distinct keys; the heap of container/heap is an implementation of the locale
      \<open>priority_queue\<close>, in which the loop that pops while a condition holds is verified.
    \<^item> Sched (sched.go), Timers: the timer heap, and the locale \<open>timer_service\<close> in which every client with
      a table of timers of its own (pager, game keeper) proves that table and heap agree.
    \<^item> Flood (flood.go), Irc_Parse (parse.go, numerics.go), Session (session.go), Keeper (keeper.go),
      Pager (pager.go): the line to the network.
    \<^item> Bus (bus.go), Cmd with Edit_Distance (cmd.go): dispatch. A hook is a program tree of the effects it
      may have, so that events submitted by hooks nest; fuel is the depth of that nesting.
    \<^item> Storage (storage.go, saver.go), Conf (conf.go), Auth (auth.go), Admin (admin.go): state and those
      who may change it.
    \<^item> Format (wrap.go), Colour (colorize.go): what is said.
    \<^item> Core (core.go, transport.go, builtins.go): the connection, what is said through it, the channels
      joined by themselves and the console commands of the core, over the models of the session, the
      settings, the store, the wrapping and the console. The modules are an argument, \<open>ce_react\<close>: what they
      call in answer to all that has happened. Core_Run has the runs of lines, connections and console
      commands, Core_Store restarts, Core_Say the fate of one message.
    \<^item> Rvf_Game (game.go), Rvf (rvf.go, lang.go, corpus.go, art.go), Guard (guard.go, enforce.go): modules.
    \<^item> Markov_Trie (compact.go and the tries of markov.go), Markov_Text (the words), Markov_Talk (the
      generation), Markov (the module), Markov_Run (its runs and timers), Markov_Rows (the rows in the store
      and the restart): the chatter bot.
    \<^item> Karma (karma.go) with its runs in Karma_Run, Lastseen (lastseen.go): modules.

  Correspondence. Each theory follows its file: a struct is a record, a method that changes its receiver
  a function that returns the new record, what a method does to the outside a list of actions in order, a
  panic the value \<open>None\<close>. The clock and random draws are arguments, read where the source reads them.
  The dispatcher runs every handler to its end before the next, so each operation is one step; where
  goroutines do interleave (the saver's writer, the keeper's connections) the steps are separate and the
  theorems hold for every order of them.

  What the lemmas show. For each component an invariant (\<open>queue_inv\<close>, \<open>sched_inv\<close>, \<open>trace_inv\<close>,
  \<open>reg_ok\<close> and so on) that all operations keep, then what the operations do, usually as a statement on
  whole runs: no line is lost or reordered (Flood, Keeper, Pager, Format), every timer is settled once
  (Sched), no change is lost (Storage, Conf, Auth), views agree (Session), dispatch ends and follows the
  order of priorities (Bus, Cmd), nothing panics (Rvf), no one becomes a resident or runs a command
  without the right to (Guard, Admin), two representations are interchangeable (Markov_Trie), nothing is
  said before the server has welcomed the bot and nothing held for that moment is lost (Core), tallies are
  the sums of the votes heard (Karma), answers are about the newest line heard (Lastseen), and a restart
  finds what was saved (Conf, Auth, Core_Store, Markov_Rows, Lastseen).

  Bounds and fuel. Recursion is structural or has a measure, except in Bus, where \<open>submit\<close> takes the
  nesting depth as fuel; \<open>submit_total\<close> gives a bound on it that is enough for any state. In Core the depth
  to which hooks of what the bot says may say something themselves is the argument \<open>ce_depth\<close>: the bus enters
  no hook twice, so the number of modules is enough, and the theorems hold for every value. Integers are
  unbounded where the source would need 2 ^ 63 operations to wrap (tags, counters, nanoseconds), and
  brought back into 32 bits in Markov_Trie, where the code narrows.

  Not modelled: sockets, goroutines, signals, log lines and the wiring of them (cmd/botje, the read and
  write loops of internal/keeper and internal/irc/conn.go, internal/core/metrics.go, internal/metrics,
  internal/teelog); code whose work is a call of a remote service or of a library that is not here
  (internal/fetch, internal/storage/postgres.go and the modules weather, ticker, rss, pizza, llm, wiki,
  wolframalpha, tinyurl, urband, pacman); the modules remind, logger, stats and ego and the tables and
  sparklines of internal/format; the importers under tools/ and the migrations from the Perl bot.
  Parameters stand for what is outside: bcrypt (Auth), the JSON forms of what is stored (Auth, Core, Karma,
  Lastseen, Markov_Rows), the case tables of Unicode (\<open>case_tables\<close>), uniseg's grapheme clusters (Format),
  strconv.ParseFloat (Conf), the local time of day (Lastseen), with the laws used as hypotheses of the
  theorems.
\<close>

end
